theory Spec2Isabelle
  imports Main "HOL-Library.Word"
begin

unbundle bit_operations_syntax

section \<open>Machine integers and raw memory\<close>

text \<open>
  The C sources use 32-bit \<open>int\<close> for sizes, counts and slot indices, \<open>uint32_t\<close> for
  sequence numbers and \<open>size_t\<close> (32 bits on the ESP32) wherever \<open>sizeof\<close> takes part in an
  expression. \<open>int\<close> values are modelled as HOL integers with the conversions written
  out: \<open>u32\<close> is the conversion to an unsigned 32-bit value, \<open>s32\<close> the conversion back
  to \<open>int\<close> (two's complement, as the compiler for the target does it). Sequence numbers
  are \<open>32 word\<close>, bytes are \<open>8 word\<close>.
\<close>

type_synonym byte = "8 word"
type_synonym uint32_t = "32 word"

text \<open>Bytes behind a pointer, or at the offsets of a flash partition.\<close>
type_synonym memory = "int \<Rightarrow> byte"

definition u32 :: "int \<Rightarrow> int" where
  "u32 x = x mod 2 ^ 32"

definition s32 :: "int \<Rightarrow> int" where
  "s32 x = (x + 2 ^ 31) mod 2 ^ 32 - 2 ^ 31"

text \<open>C's integer division truncates towards zero; the divisor is checked by the caller.\<close>
definition c_div :: "int \<Rightarrow> int \<Rightarrow> int" where
  "c_div a b = sgn a * sgn b * (\<bar>a\<bar> div \<bar>b\<bar>)"

definition UINT32_MAX :: uint32_t where
  "UINT32_MAX = - 1"

text \<open>A 32-bit value in memory, least significant byte first (the ESP32 is little-endian).\<close>
definition get_le32 :: "memory \<Rightarrow> int \<Rightarrow> uint32_t" where
  "get_le32 m a =
     ucast (m a) OR push_bit 8 (ucast (m (a + 1))) OR
     push_bit 16 (ucast (m (a + 2))) OR push_bit 24 (ucast (m (a + 3)))"

definition put_le32 :: "memory \<Rightarrow> int \<Rightarrow> uint32_t \<Rightarrow> memory" where
  "put_le32 m a w =
     m(a := ucast w, a + 1 := ucast (drop_bit 8 w),
       a + 2 := ucast (drop_bit 16 w), a + 3 := ucast (drop_bit 24 w))"

text \<open>\<open>memcpy (dst + at, src, len)\<close>.\<close>
definition memcpy :: "memory \<Rightarrow> int \<Rightarrow> memory \<Rightarrow> int \<Rightarrow> memory" where
  "memcpy dst at src len = (\<lambda>i. if at \<le> i \<and> i < at + len then src (i - at) else dst i)"

section \<open>The flash partition (the external block store)\<close>

text \<open>
  \<open>psize\<close> is \<open>partition->size\<close>, \<open>flash\<close> the contents of the partition by byte offset.
  \<open>pending\<close> lists the error codes the next driver calls will return, one per call
  (\<open>ESP_OK\<close> once the list is used up): it stands for everything that makes the driver
  fail, which the log cannot foresee.
\<close>

type_synonym esp_err_t = int

definition ESP_OK :: esp_err_t where
  "ESP_OK = 0"

record esp_partition_t =
  psize :: int
  flash :: memory
  pending :: "esp_err_t list"

definition driver_result :: "esp_partition_t \<Rightarrow> esp_err_t \<times> esp_partition_t" where
  "driver_result p =
     (case pending p of [] \<Rightarrow> (ESP_OK, p) | e # es \<Rightarrow> (e, p\<lparr>pending := es\<rparr>))"

text \<open>
  Modelled from the spec: \<open>esp_partition_read\<close>, \<open>esp_partition_write\<close> and
  \<open>esp_partition_erase_range\<close> are the ESP-IDF flash driver, which is not part of this
  repository. The spec describes the collaborator as \<open>read(offset, length)\<close>,
  \<open>write(offset, bytes)\<close> that programs bits from 1 to 0 only, and
  \<open>erase(alignedOffset, eraseUnitSize)\<close> that resets all bits of the range to 1; a call
  runs to completion or fails outright. So a failed call leaves the flash as it was, a
  write stores the bitwise AND of the old contents and the data, and an erase sets every
  byte of the range to \<open>0xFF\<close>.
\<close>

definition esp_partition_read ::
  "esp_partition_t \<Rightarrow> int \<Rightarrow> int \<Rightarrow> esp_err_t \<times> memory \<times> esp_partition_t" where
  "esp_partition_read p src_offset len =
     (let (err, p') = driver_result p in (err, (\<lambda>i. flash p (src_offset + i)), p'))"

definition esp_partition_write ::
  "esp_partition_t \<Rightarrow> int \<Rightarrow> memory \<Rightarrow> int \<Rightarrow> esp_err_t \<times> esp_partition_t" where
  "esp_partition_write p dst_offset src len =
     (let (err, p') = driver_result p in
      if err \<noteq> ESP_OK then (err, p')
      else (err, p'\<lparr>flash := (\<lambda>a. if dst_offset \<le> a \<and> a < dst_offset + len
                                   then flash p a AND src (a - dst_offset) else flash p a)\<rparr>))"

definition esp_partition_erase_range ::
  "esp_partition_t \<Rightarrow> int \<Rightarrow> int \<Rightarrow> esp_err_t \<times> esp_partition_t" where
  "esp_partition_erase_range p offset len =
     (let (err, p') = driver_result p in
      if err \<noteq> ESP_OK then (err, p')
      else (err, p'\<lparr>flash := (\<lambda>a. if offset \<le> a \<and> a < offset + len
                                   then - 1 else flash p a)\<rparr>))"

section \<open>The data of \<open>esp32_flashlogs.h\<close>\<close>

text \<open>\<open>struct flashlog_hdr_t\<close>: the 16 bytes at offset 0 of the partition.\<close>
record flashlog_hdr_t =
  hdr_id :: "byte list"
  hdr_datasize :: int
  hdr_numslots :: int

text \<open>\<open>"flashlog"\<close>, the eight characters compared by \<open>memcmp\<close>.\<close>
definition FLASHLOG_ID :: "byte list" where
  "FLASHLOG_ID = [0x66, 0x6C, 0x61, 0x73, 0x68, 0x6C, 0x6F, 0x67]"

definition FLASHLOG_SLOT0 :: int where
  "FLASHLOG_SLOT0 = 4096"

text \<open>\<open>sizeof (struct flashlog_entry_hdr_t)\<close> and \<open>sizeof (struct flashlog_hdr_t)\<close>.\<close>
definition ENTRY_HDR_SIZE :: int where
  "ENTRY_HDR_SIZE = 4"

definition HDR_SIZE :: int where
  "HDR_SIZE = 16"

text \<open>The header struct as its bytes in memory, and back.\<close>
definition hdr_of_bytes :: "memory \<Rightarrow> flashlog_hdr_t" where
  "hdr_of_bytes m =
     \<lparr>hdr_id = map m [0, 1, 2, 3, 4, 5, 6, 7],
      hdr_datasize = sint (get_le32 m 8),
      hdr_numslots = sint (get_le32 m 12)\<rparr>"

definition bytes_of_hdr :: "flashlog_hdr_t \<Rightarrow> memory" where
  "bytes_of_hdr h =
     put_le32 (put_le32 (\<lambda>i. if 0 \<le> i \<and> i < 8 then hdr_id h ! nat i else 0)
                 8 (word_of_int (hdr_datasize h)))
       12 (word_of_int (hdr_numslots h))"

text \<open>
  \<open>struct flashlog_state_t\<close>. \<open>entrybuf\<close> is \<open>None\<close> for the null pointer and otherwise
  the bytes of the allocated entry buffer: the sequence number in bytes 0..3, the user
  data (\<open>logdata\<close>, which always points at \<open>entrybuf + 4\<close>) after it. The \<open>partition\<close>
  pointer is not a field here: the partition is passed to every operation that uses it.
\<close>
record flashlog_state_t =
  entrybuf :: "memory option"
  datasize :: int
  numslots :: int
  highest_seqno :: uint32_t
  numinuse :: int
  newest :: int
  oldest :: int
  current :: int
  partition_err :: esp_err_t

datatype flashlog_error =
    FLASHLOG_ERR_OK
  | FLASHLOG_ERR_NO_PARTITION
  | FLASHLOG_ERR_BADSIZE
  | FLASHLOG_ERR_READERR
  | FLASHLOG_ERR_NOINIT
  | FLASHLOG_ERR_WRITEERR
  | FLASHLOG_ERR_ERASEERR
  | FLASHLOG_ERR_NOMEM
  | FLASHLOG_ERR_BADSLOT

text \<open>
  What a call does: it returns an error code, or it stops in the processor's
  division-by-zero exception and returns nothing.
\<close>
datatype outcome = Returned flashlog_error | DivideByZero

text \<open>Byte offset of a slot, as \<open>flashlog_open\<close>, \<open>flashlog_add\<close> and \<open>flashlog_read\<close>
  compute it: in \<open>size_t\<close> arithmetic, stored into an \<open>int\<close>.\<close>
definition slot_offset :: "int \<Rightarrow> int \<Rightarrow> int" where
  "slot_offset slot dsize = s32 (u32 (FLASHLOG_SLOT0 + slot * (dsize + ENTRY_HDR_SIZE)))"

text \<open>\<open>datasize + sizeof (struct flashlog_entry_hdr_t)\<close> stored into an \<open>int\<close>.\<close>
definition entry_length :: "int \<Rightarrow> int" where
  "entry_length dsize = s32 (u32 (dsize + ENTRY_HDR_SIZE))"

section \<open>\<open>flashlog_open\<close>\<close>

text \<open>
  Lines 57 to 69: the partition holds no log of this entry size. Erase all of it, write
  a fresh header, start with an empty log.
\<close>
definition open_initialize ::
  "int \<Rightarrow> flashlog_state_t \<Rightarrow> esp_partition_t \<Rightarrow>
   outcome option \<times> flashlog_state_t \<times> esp_partition_t" where
  "open_initialize dsize state part =
     (let (err, part) = esp_partition_erase_range part 0 (u32 (psize part));
          state = state\<lparr>partition_err := err\<rparr>
      in if err \<noteq> ESP_OK then (Some (Returned FLASHLOG_ERR_ERASEERR), state, part)
      else if u32 (dsize + ENTRY_HDR_SIZE) = 0 then (Some DivideByZero, state, part)
      else
        let hdr = \<lparr>hdr_id = FLASHLOG_ID, hdr_datasize = dsize,
                   hdr_numslots = s32 (u32 (psize part - FLASHLOG_SLOT0)
                                        div u32 (dsize + ENTRY_HDR_SIZE))\<rparr>;
            (err, part) = esp_partition_write part 0 (bytes_of_hdr hdr) HDR_SIZE;
            state = state\<lparr>partition_err := err\<rparr>
        in if err \<noteq> ESP_OK then (Some (Returned FLASHLOG_ERR_WRITEERR), state, part)
        else (None, state\<lparr>numslots := hdr_numslots hdr, highest_seqno := 0,
                           oldest := 0, newest := 0, current := 0, numinuse := 0\<rparr>,
              part))"

text \<open>
  Lines 81 to 88, the body of the loop for one entry header that was read: a slot in use
  is counted, and it becomes the newest or the oldest slot when its sequence number is
  above the highest or below the lowest one seen so far.
\<close>
definition scan_entry ::
  "int \<Rightarrow> uint32_t \<Rightarrow> uint32_t \<Rightarrow> flashlog_state_t \<Rightarrow> uint32_t \<times> flashlog_state_t" where
  "scan_entry slot seqno oldest_seqno state =
     (if seqno \<noteq> UINT32_MAX then
        (let state = state\<lparr>numinuse := s32 (numinuse state + 1)\<rparr>;
             state = (if seqno > highest_seqno state
                      then state\<lparr>highest_seqno := seqno, newest := slot\<rparr>
                      else state)
         in if seqno < oldest_seqno then (seqno, state\<lparr>oldest := slot\<rparr>)
            else (oldest_seqno, state))
      else (oldest_seqno, state))"

text \<open>
  Lines 76 to 88: the loop over all slots of an existing log, reading each entry header.
  \<open>None\<close> means the loop ran to its end.
\<close>
function scan_slots ::
  "flashlog_hdr_t \<Rightarrow> int \<Rightarrow> uint32_t \<Rightarrow> flashlog_state_t \<Rightarrow> esp_partition_t \<Rightarrow>
   outcome option \<times> flashlog_state_t \<times> esp_partition_t" where
  "scan_slots hdr slot oldest_seqno state part =
     (if slot < hdr_numslots hdr then
        (let offset = slot_offset slot (hdr_datasize hdr);
             rd = esp_partition_read part (u32 offset) ENTRY_HDR_SIZE;
             state = state\<lparr>partition_err := fst rd\<rparr>
         in if fst rd \<noteq> ESP_OK
            then (Some (Returned FLASHLOG_ERR_READERR), state, snd (snd rd))
            else
              let entry = scan_entry slot (get_le32 (fst (snd rd)) 0) oldest_seqno state
              in scan_slots hdr (slot + 1) (fst entry) (snd entry) (snd (snd rd)))
      else (None, state, part))"
  by pat_completeness auto
termination
  by (relation "measure (\<lambda>(hdr, slot, os, st, p). nat (hdr_numslots hdr - slot))") auto

text \<open>Lines 71 to 88: the log exists; rebuild the state from the entry headers.\<close>
definition open_existing ::
  "flashlog_hdr_t \<Rightarrow> flashlog_state_t \<Rightarrow> esp_partition_t \<Rightarrow>
   outcome option \<times> flashlog_state_t \<times> esp_partition_t" where
  "open_existing hdr state part =
     scan_slots hdr 0 UINT32_MAX
       (state\<lparr>numslots := hdr_numslots hdr, highest_seqno := 0, newest := 0, oldest := 0\<rparr>)
       part"

text \<open>
  Lines 89 to 94: \<open>current\<close> starts at the newest entry; allocate the entry buffer.
  \<open>heap\<close> is what \<open>malloc\<close> returns: \<open>None\<close> for the null pointer, otherwise the block
  with whatever bytes it holds.
\<close>
definition open_finish ::
  "memory option \<Rightarrow> flashlog_state_t \<Rightarrow> esp_partition_t \<Rightarrow>
   outcome \<times> flashlog_state_t \<times> esp_partition_t option" where
  "open_finish heap state part =
     (let state = state\<lparr>current := newest state\<rparr>
      in case heap of
           None \<Rightarrow> (Returned FLASHLOG_ERR_NOMEM, state\<lparr>entrybuf := None\<rparr>, Some part)
         | Some buf \<Rightarrow> (Returned FLASHLOG_ERR_OK, state\<lparr>entrybuf := Some buf\<rparr>, Some part))"

text \<open>
  \<open>flashlog_open\<close>. \<open>found\<close> is what \<open>esp_partition_find_first\<close> returns for the log name
  (\<open>None\<close> for the null pointer).
\<close>
definition flashlog_open ::
  "esp_partition_t option \<Rightarrow> int \<Rightarrow> memory option \<Rightarrow> flashlog_state_t \<Rightarrow>
   outcome \<times> flashlog_state_t \<times> esp_partition_t option" where
  "flashlog_open found dsize heap state =
     (case found of
        None \<Rightarrow> (Returned FLASHLOG_ERR_NO_PARTITION, state, None)
      | Some part \<Rightarrow>
          let entrysize = entry_length dsize in
          if entrysize > 4096 \<or> (entrysize AND s32 (entrysize - 1)) \<noteq> 0
          then (Returned FLASHLOG_ERR_BADSIZE, state, Some part)
          else
            let state = state\<lparr>datasize := dsize\<rparr>;
                (err, hdrbytes, part) = esp_partition_read part 0 HDR_SIZE;
                state = state\<lparr>partition_err := err\<rparr>
            in if err \<noteq> ESP_OK then (Returned FLASHLOG_ERR_READERR, state, Some part)
            else
              let hdr = hdr_of_bytes hdrbytes
              in (case (if hdr_id hdr \<noteq> FLASHLOG_ID \<or> hdr_datasize hdr \<noteq> dsize
                        then open_initialize dsize state part
                        else open_existing hdr state part) of
                    (Some r, state, part) \<Rightarrow> (r, state, Some part)
                  | (None, state, part) \<Rightarrow> open_finish heap state part))"

section \<open>\<open>flashlog_close\<close>\<close>

definition flashlog_close :: "flashlog_state_t \<Rightarrow> flashlog_error \<times> flashlog_state_t" where
  "flashlog_close state = (FLASHLOG_ERR_OK, state\<lparr>entrybuf := None\<rparr>)"

section \<open>\<open>flashlog_add\<close>\<close>

text \<open>Lines 110 and 111: a log that is not empty gets its entry after the newest one.\<close>
definition add_advance :: "flashlog_state_t \<Rightarrow> flashlog_state_t" where
  "add_advance state =
     (if numinuse state > 0 then
        (let state = state\<lparr>newest := s32 (newest state + 1)\<rparr>
         in if newest state \<ge> numslots state then state\<lparr>newest := 0\<rparr> else state)
      else state)"

text \<open>
  Lines 114 to 120: the log is full. Erase 4096 bytes at the offset of the new entry and
  take the erased entries out of the count. \<open>None\<close> means that the call goes on.
\<close>
definition add_evict ::
  "int \<Rightarrow> int \<Rightarrow> flashlog_state_t \<Rightarrow> esp_partition_t \<Rightarrow>
   outcome option \<times> flashlog_state_t \<times> esp_partition_t" where
  "add_evict offset len state part =
     (if numinuse state = numslots state then
        (let (err, part) = esp_partition_erase_range part (u32 offset) 4096;
             state = state\<lparr>partition_err := err\<rparr>
         in if err \<noteq> ESP_OK then (Some (Returned FLASHLOG_ERR_ERASEERR), state, part)
         else if len = 0 then (Some DivideByZero, state, part)
         else
           let state = state\<lparr>numinuse := s32 (numinuse state - c_div 4096 len)\<rparr>;
               state = state\<lparr>oldest := s32 (oldest state + c_div 4096 len)\<rparr>;
               state = (if oldest state \<ge> numslots state
                        then state\<lparr>oldest := s32 (oldest state - numslots state)\<rparr>
                        else state)
           in (None, state, part))
      else (None, state, part))"

text \<open>Lines 121 to 125: number the entry, count it, write it.\<close>
definition add_store ::
  "int \<Rightarrow> int \<Rightarrow> memory \<Rightarrow> flashlog_state_t \<Rightarrow> esp_partition_t \<Rightarrow>
   outcome \<times> flashlog_state_t \<times> esp_partition_t" where
  "add_store offset len buf state part =
     (let state = state\<lparr>highest_seqno := highest_seqno state + 1\<rparr>;
          buf = put_le32 buf 0 (highest_seqno state);
          state = state\<lparr>entrybuf := Some buf, numinuse := s32 (numinuse state + 1)\<rparr>;
          (err, part) = esp_partition_write part (u32 offset) buf (u32 len);
          state = state\<lparr>partition_err := err\<rparr>
      in if err \<noteq> ESP_OK then (Returned FLASHLOG_ERR_WRITEERR, state, part)
      else (Returned FLASHLOG_ERR_OK, state, part))"

definition flashlog_add ::
  "flashlog_state_t \<Rightarrow> esp_partition_t \<Rightarrow> outcome \<times> flashlog_state_t \<times> esp_partition_t" where
  "flashlog_add state part =
     (case entrybuf state of
        None \<Rightarrow> (Returned FLASHLOG_ERR_NOINIT, state, part)
      | Some buf \<Rightarrow>
          let state = add_advance state;
              offset = slot_offset (newest state) (datasize state);
              len = entry_length (datasize state);
              (stop, state, part) = add_evict offset len state part
          in (case stop of
                Some r \<Rightarrow> (r, state, part)
              | None \<Rightarrow> add_store offset len buf state part))"

section \<open>\<open>flashlog_read\<close>\<close>

definition flashlog_read ::
  "flashlog_state_t \<Rightarrow> esp_partition_t \<Rightarrow>
   flashlog_error \<times> flashlog_state_t \<times> esp_partition_t" where
  "flashlog_read state part =
     (case entrybuf state of
        None \<Rightarrow> (FLASHLOG_ERR_NOINIT, state, part)
      | Some buf \<Rightarrow>
          let cur = current state in
          if numinuse state = 0
             \<or> (newest state \<ge> oldest state \<and> (cur < oldest state \<or> cur > newest state))
             \<or> (newest state < oldest state \<and> (cur \<ge> numslots state \<or> current state < 0))
             \<or> (cur > newest state \<and> cur < oldest state)
          then (FLASHLOG_ERR_BADSLOT, state, part)
          else
            let len = entry_length (datasize state);
                offset = slot_offset (current state) (datasize state);
                (err, bytes, part) = esp_partition_read part (u32 offset) (u32 len);
                state = state\<lparr>partition_err := err\<rparr>
            in if err \<noteq> ESP_OK then (FLASHLOG_ERR_READERR, state, part)
            else (FLASHLOG_ERR_OK, state\<lparr>entrybuf := Some (memcpy buf 0 bytes (u32 len))\<rparr>,
                  part))"

section \<open>Moving \<open>current\<close>\<close>

definition flashlog_goto_newest :: "flashlog_state_t \<Rightarrow> flashlog_error \<times> flashlog_state_t" where
  "flashlog_goto_newest state =
     (if numinuse state = 0 then (FLASHLOG_ERR_BADSLOT, state)
      else (FLASHLOG_ERR_OK, state\<lparr>current := newest state\<rparr>))"

definition flashlog_goto_oldest :: "flashlog_state_t \<Rightarrow> flashlog_error \<times> flashlog_state_t" where
  "flashlog_goto_oldest state =
     (if numinuse state = 0 then (FLASHLOG_ERR_BADSLOT, state)
      else (FLASHLOG_ERR_OK, state\<lparr>current := oldest state\<rparr>))"

definition flashlog_goto_next :: "flashlog_state_t \<Rightarrow> flashlog_error \<times> flashlog_state_t" where
  "flashlog_goto_next state =
     (if numinuse state = 0 \<or> current state = newest state then (FLASHLOG_ERR_BADSLOT, state)
      else
        let state = state\<lparr>current := s32 (current state + 1)\<rparr>
        in if current state \<ge> numslots state then (FLASHLOG_ERR_OK, state\<lparr>current := 0\<rparr>)
           else (FLASHLOG_ERR_OK, state))"

definition flashlog_goto_prev :: "flashlog_state_t \<Rightarrow> flashlog_error \<times> flashlog_state_t" where
  "flashlog_goto_prev state =
     (if numinuse state = 0 \<or> current state = oldest state then (FLASHLOG_ERR_BADSLOT, state)
      else
        let state = state\<lparr>current := s32 (current state - 1)\<rparr>
        in if current state < 0
           then (FLASHLOG_ERR_OK, state\<lparr>current := s32 (numslots state - 1)\<rparr>)
           else (FLASHLOG_ERR_OK, state))"

section \<open>A caller that adds entries\<close>

text \<open>
  A caller that logs the given user data one after the other, the way the header file
  describes the use of \<open>flashlog_add\<close> (``add a new log entry using the data you put at
  \<open>state->logdata\<close>''): for each element it copies \<open>datasize\<close> bytes to \<open>state->logdata\<close>,
  which is \<open>entrybuf + 4\<close>, and calls \<open>flashlog_add\<close>. The result is the state and the
  partition after the last call, or \<open>None\<close> when the log is not open or a call did not
  return \<open>FLASHLOG_ERR_OK\<close>.
\<close>
fun add_entries ::
  "memory list \<Rightarrow> flashlog_state_t \<Rightarrow> esp_partition_t \<Rightarrow>
   (flashlog_state_t \<times> esp_partition_t) option" where
  "add_entries [] state part = Some (state, part)"
| "add_entries (d # ds) state part =
     (case entrybuf state of
        None \<Rightarrow> None
      | Some buf \<Rightarrow>
          let (r, state, part) =
                flashlog_add (state\<lparr>entrybuf := Some (memcpy buf 4 d (datasize state))\<rparr>) part
          in if r = Returned FLASHLOG_ERR_OK then add_entries ds state part else None)"

section \<open>The log as the spec describes it\<close>

text \<open>
  The sequence number stored in a slot: the persisted layout puts slot \<open>i\<close> at offset
  \<open>4096 + i * (4 + entryPayloadSize)\<close>, its first four bytes being the sequence number.
\<close>
definition seqno_at :: "esp_partition_t \<Rightarrow> int \<Rightarrow> int \<Rightarrow> uint32_t" where
  "seqno_at p dsize slot = get_le32 (flash p) (FLASHLOG_SLOT0 + slot * (dsize + ENTRY_HDR_SIZE))"

text \<open>The sequence number that the recovery scan of \<open>flashlog_open\<close> reads for a slot, at
  the offset that line 77 computes from the header.\<close>
definition scanned :: "flashlog_hdr_t \<Rightarrow> esp_partition_t \<Rightarrow> int \<Rightarrow> uint32_t" where
  "scanned hdr p i = get_le32 (flash p) (u32 (slot_offset i (hdr_datasize hdr)))"

text \<open>
  The cursor fields describe an arc: the counts and indices are in range, and the arc of
  \<open>numinuse\<close> slots that starts at \<open>oldest\<close> ends at \<open>newest\<close>.
\<close>
definition arc_ok :: "flashlog_state_t \<Rightarrow> bool" where
  "arc_ok s \<longleftrightarrow>
     0 \<le> numinuse s \<and> numinuse s \<le> numslots s \<and>
     0 \<le> oldest s \<and> oldest s < numslots s \<and>
     0 \<le> newest s \<and> newest s < numslots s \<and>
     (0 < numinuse s \<longrightarrow> newest s = (oldest s + numinuse s - 1) mod numslots s)"

text \<open>Slot \<open>i\<close> lies on the arc of \<open>numinuse\<close> slots that starts at \<open>oldest\<close>, modulo
  \<open>numslots\<close>.\<close>
definition on_arc :: "flashlog_state_t \<Rightarrow> int \<Rightarrow> bool" where
  "on_arc s i \<longleftrightarrow> 0 \<le> i \<and> i < numslots s \<and> (i - oldest s) mod numslots s < numinuse s"

text \<open>Invariant I1: the slots that hold a sequence number other than the unused mark are
  exactly the slots of the arc.\<close>
definition I1 :: "flashlog_state_t \<Rightarrow> esp_partition_t \<Rightarrow> bool" where
  "I1 s p \<longleftrightarrow>
     arc_ok s \<and>
     (\<forall>i\<in>{0..<numslots s}. (seqno_at p (datasize s) i \<noteq> UINT32_MAX) = on_arc s i)"

text \<open>The arc walked from \<open>oldest\<close> forward to \<open>newest\<close>: its length and its \<open>j\<close>-th slot.\<close>
definition arc_length :: "flashlog_state_t \<Rightarrow> int" where
  "arc_length s = (if numinuse s = 0 then 0 else (newest s - oldest s) mod numslots s + 1)"

definition arc_slot :: "flashlog_state_t \<Rightarrow> int \<Rightarrow> int" where
  "arc_slot s j = (oldest s + j) mod numslots s"

text \<open>Invariant I3: sequence numbers strictly increase along the arc from oldest to
  newest.\<close>
definition I3 :: "flashlog_state_t \<Rightarrow> esp_partition_t \<Rightarrow> bool" where
  "I3 s p \<longleftrightarrow>
     (\<forall>j2\<in>{0..<arc_length s}. \<forall>j1\<in>{0..<j2}.
        seqno_at p (datasize s) (arc_slot s j1) < seqno_at p (datasize s) (arc_slot s j2))"

text \<open>\<open>entriesPerEraseUnit\<close>: how many slots one 4096-byte erase unit holds.\<close>
definition entries_per_unit :: "flashlog_state_t \<Rightarrow> int" where
  "entries_per_unit s = 4096 div (datasize s + ENTRY_HDR_SIZE)"

text \<open>
  The sizes of an open log: the entry size divides the erase unit and holds at least the
  entry header, the partition is a whole number of erase units with room for the header
  unit and one unit of slots, and \<open>numslots\<close> is what \<open>flashlog_open\<close> computed from them.
\<close>
definition geometry_ok :: "flashlog_state_t \<Rightarrow> esp_partition_t \<Rightarrow> bool" where
  "geometry_ok s p \<longleftrightarrow>
     0 \<le> datasize s \<and> (datasize s + ENTRY_HDR_SIZE) dvd 4096 \<and>
     4096 dvd psize p \<and> 8192 \<le> psize p \<and> psize p < 2 ^ 31 \<and>
     numslots s = (psize p - FLASHLOG_SLOT0) div (datasize s + ENTRY_HDR_SIZE)"

text \<open>The header at offset 0 is the one of this log.\<close>
definition header_intact :: "flashlog_state_t \<Rightarrow> esp_partition_t \<Rightarrow> bool" where
  "header_intact s p \<longleftrightarrow>
     hdr_of_bytes (flash p) =
       \<lparr>hdr_id = FLASHLOG_ID, hdr_datasize = datasize s, hdr_numslots = numslots s\<rparr>"

text \<open>
  What holds of every log that was opened on a blank partition and then only added to,
  read, navigated, closed and reopened without a failure: the sizes fit, I1 and I3 hold,
  the oldest entry starts an erase unit, an empty log is in its initial state, the newest
  entry carries \<open>highest_seqno\<close>, and no slot carries the sequence number 0.
\<close>
definition log_inv :: "flashlog_state_t \<Rightarrow> esp_partition_t \<Rightarrow> bool" where
  "log_inv s p \<longleftrightarrow>
     geometry_ok s p \<and> I1 s p \<and> I3 s p \<and>
     entries_per_unit s dvd oldest s \<and>
     (numinuse s = 0 \<longrightarrow> oldest s = 0 \<and> newest s = 0 \<and> highest_seqno s = 0) \<and>
     (0 < numinuse s \<longrightarrow> highest_seqno s = seqno_at p (datasize s) (newest s)) \<and>
     (\<forall>i\<in>{0..<numslots s}. seqno_at p (datasize s) i \<noteq> 0)"

section \<open>Inputs for the examples\<close>

text \<open>A partition of the given size that was never written: every byte is \<open>0xFF\<close>, and the
  driver does not fail.\<close>
definition blank_partition :: "int \<Rightarrow> esp_partition_t" where
  "blank_partition sz = \<lparr>psize = sz, flash = (\<lambda>_. - 1), pending = []\<rparr>"

text \<open>A state structure in static storage before its first use: all fields zero.\<close>
definition zero_state :: flashlog_state_t where
  "zero_state = \<lparr>entrybuf = None, datasize = 0, numslots = 0, highest_seqno = 0,
                 numinuse = 0, newest = 0, oldest = 0, current = 0, partition_err = 0\<rparr>"

text \<open>A partition that holds a log of 128 entries with 28 bytes of user data each, of
  which one, in slot 0 with sequence number 1, is in use.\<close>
definition logged_partition :: esp_partition_t where
  "logged_partition =
     \<lparr>psize = 8192,
      flash = (\<lambda>a. if 0 \<le> a \<and> a < 16
                    then bytes_of_hdr \<lparr>hdr_id = FLASHLOG_ID, hdr_datasize = 28,
                                       hdr_numslots = 128\<rparr> a
                    else if a = 4096 then 1
                    else if 4096 < a \<and> a < 4100 then 0 else - 1),
      pending = []\<rparr>"

text \<open>A partition that holds a full log of four entries with 2044 bytes of user data each,
  numbered 1 to 4 in slots 0 to 3; two entries fill one erase unit.\<close>
definition full_partition :: esp_partition_t where
  "full_partition =
     \<lparr>psize = 12288,
      flash = (\<lambda>a. if 0 \<le> a \<and> a < 16
                    then bytes_of_hdr \<lparr>hdr_id = FLASHLOG_ID, hdr_datasize = 2044,
                                       hdr_numslots = 4\<rparr> a
                   else if a = 4096 then 1 else if a = 6144 then 2
                   else if a = 8192 then 3 else if a = 10240 then 4
                   else if (4096 < a \<and> a < 4100) \<or> (6144 < a \<and> a < 6148) \<or>
                           (8192 < a \<and> a < 8196) \<or> (10240 < a \<and> a < 10244) then 0
                   else - 1),
      pending = []\<rparr>"

text \<open>A cursor state with the given count and indices over four slots.\<close>
definition cursor_state :: "int \<Rightarrow> int \<Rightarrow> int \<Rightarrow> int \<Rightarrow> flashlog_state_t" where
  "cursor_state n old new cur =
     zero_state\<lparr>entrybuf := Some (\<lambda>_. 0), datasize := 2044, numslots := 4,
                 numinuse := n, oldest := old, newest := new, current := cur\<rparr>"

text \<open>The state of that log, after opening it.\<close>
definition full_state :: flashlog_state_t where
  "full_state = (cursor_state 4 0 3 3)\<lparr>highest_seqno := 4\<rparr>"

text \<open>The same partition when the next driver call fails with \<open>ESP_FAIL\<close>.\<close>
definition failing :: "esp_partition_t \<Rightarrow> esp_partition_t" where
  "failing p = p\<lparr>pending := [- 1]\<rparr>"

text \<open>A log of four slots whose only entry, in slot 0, has sequence number
  \<open>0xFFFFFFFE\<close>.\<close>
definition wrap_partition :: esp_partition_t where
  "wrap_partition =
     \<lparr>psize = 12288,
      flash = put_le32 (\<lambda>a. if 0 \<le> a \<and> a < 16
                             then bytes_of_hdr \<lparr>hdr_id = FLASHLOG_ID, hdr_datasize = 2044,
                                                hdr_numslots = 4\<rparr> a
                             else - 1)
                4096 0xFFFFFFFE,
      pending = []\<rparr>"

definition wrap_state :: flashlog_state_t where
  "wrap_state = (cursor_state 1 0 0 0)\<lparr>highest_seqno := 0xFFFFFFFE\<rparr>"

text \<open>
  The full log of four entries after two more adds: the entries numbered 5 and 6 are in
  slots 0 and 1, the entries numbered 3 and 4 still in slots 2 and 3.
\<close>
definition cycled_partition :: esp_partition_t where
  "cycled_partition =
     \<lparr>psize = 12288,
      flash = (\<lambda>a. if 0 \<le> a \<and> a < 16
                    then bytes_of_hdr \<lparr>hdr_id = FLASHLOG_ID, hdr_datasize = 2044,
                                       hdr_numslots = 4\<rparr> a
                   else if a = 4096 then 5 else if a = 6144 then 6
                   else if a = 8192 then 3 else if a = 10240 then 4
                   else if (4096 < a \<and> a < 4100) \<or> (6144 < a \<and> a < 6148) \<or>
                           (8192 < a \<and> a < 8196) \<or> (10240 < a \<and> a < 10244) then 0
                   else - 1),
      pending = []\<rparr>"

definition cycled_state :: flashlog_state_t where
  "cycled_state = (cursor_state 4 2 1 1)\<lparr>highest_seqno := 6\<rparr>"

text \<open>That log closed and opened again with the same state structure, and then two adds.\<close>
definition reopened_log :: "outcome \<times> flashlog_state_t \<times> esp_partition_t option" where
  "reopened_log =
     flashlog_open (Some cycled_partition) (datasize cycled_state) (Some (\<lambda>_. 0))
       (snd (flashlog_close cycled_state))"

definition reopened_add1 :: "outcome \<times> flashlog_state_t \<times> esp_partition_t" where
  "reopened_add1 = flashlog_add (fst (snd reopened_log)) (the (snd (snd reopened_log)))"

definition reopened_add2 :: "outcome \<times> flashlog_state_t \<times> esp_partition_t" where
  "reopened_add2 = flashlog_add (fst (snd reopened_add1)) (snd (snd reopened_add1))"

text \<open>
  A full log of four entries with 4092 bytes of user data each, numbered 1 to 4 in slots
  0 to 3: every entry fills one erase unit.
\<close>
definition page_partition :: esp_partition_t where
  "page_partition =
     \<lparr>psize = 20480,
      flash = (\<lambda>a. if 0 \<le> a \<and> a < 16
                    then bytes_of_hdr \<lparr>hdr_id = FLASHLOG_ID, hdr_datasize = 4092,
                                       hdr_numslots = 4\<rparr> a
                   else if a = 4096 then 1 else if a = 8192 then 2
                   else if a = 12288 then 3 else if a = 16384 then 4
                   else if (4096 < a \<and> a < 4100) \<or> (8192 < a \<and> a < 8196) \<or>
                           (12288 < a \<and> a < 12292) \<or> (16384 < a \<and> a < 16388) then 0
                   else - 1),
      pending = []\<rparr>"

definition page_state :: flashlog_state_t where
  "page_state =
     zero_state\<lparr>entrybuf := Some (\<lambda>_. 0), datasize := 4092, numslots := 4,
                 highest_seqno := 4, numinuse := 4, oldest := 0, newest := 3, current := 3\<rparr>"

text \<open>An add to that log whose erase fails, and the add tried again.\<close>
definition erase_failed :: "outcome \<times> flashlog_state_t \<times> esp_partition_t" where
  "erase_failed = flashlog_add page_state (failing page_partition)"

definition retried :: "outcome \<times> flashlog_state_t \<times> esp_partition_t" where
  "retried = flashlog_add (fst (snd erase_failed)) (snd (snd erase_failed))"

text \<open>A log of four slots with 2044 bytes of user data each that holds two entries,
  numbered 1 and 2, in slots 0 and 1.\<close>
definition half_partition :: esp_partition_t where
  "half_partition =
     \<lparr>psize = 12288,
      flash = (\<lambda>a. if 0 \<le> a \<and> a < 16
                    then bytes_of_hdr \<lparr>hdr_id = FLASHLOG_ID, hdr_datasize = 2044,
                                       hdr_numslots = 4\<rparr> a
                   else if a = 4096 then 1 else if a = 6144 then 2
                   else if (4096 < a \<and> a < 4100) \<or> (6144 < a \<and> a < 6148) then 0
                   else - 1),
      pending = []\<rparr>"

definition half_state :: flashlog_state_t where
  "half_state = (cursor_state 2 0 1 1)\<lparr>highest_seqno := 2\<rparr>"

text \<open>That log closed and opened again with the same state structure, and then an add.\<close>
definition half_reopened :: "outcome \<times> flashlog_state_t \<times> esp_partition_t option" where
  "half_reopened =
     flashlog_open (Some half_partition) (datasize half_state) (Some (\<lambda>_. 0))
       (snd (flashlog_close half_state))"

definition half_reopened_add :: "outcome \<times> flashlog_state_t \<times> esp_partition_t" where
  "half_reopened_add = flashlog_add (fst (snd half_reopened)) (the (snd (snd half_reopened)))"

section \<open>Integers and bytes\<close>

declare scan_slots.simps [simp del]

lemma u32_id: "0 \<le> x \<Longrightarrow> x < 2 ^ 32 \<Longrightarrow> u32 x = x"
  by (simp add: u32_def)

lemma s32_id: "- (2 ^ 31) \<le> x \<Longrightarrow> x < 2 ^ 31 \<Longrightarrow> s32 x = x"
  by (simp add: s32_def)

lemma u32_s32: "u32 (s32 x) = u32 x"
  by (simp add: u32_def s32_def mod_diff_left_eq)

lemma sint_word_of_int_s32: "sint (word_of_int x :: 32 word) = s32 x"
  by (simp add: s32_def int_word_sint)

lemma int_mod_sub:
  "0 \<le> c \<Longrightarrow> c < n \<Longrightarrow> 0 \<le> o' \<Longrightarrow> o' < n \<Longrightarrow>
   (c - o') mod n = (if o' \<le> c then c - o' else c - o' + (n::int))"
proof (cases "o' \<le> c")
  case True
  assume "0 \<le> c" "c < n" "0 \<le> o'" "o' < n"
  with True show ?thesis by (simp add: mod_pos_pos_trivial)
next
  case False
  assume a: "0 \<le> c" "c < n" "0 \<le> o'" "o' < n"
  have "(c - o') mod n = (c - o' + n) mod n" by simp
  also have "\<dots> = c - o' + n" using a False by (intro mod_pos_pos_trivial) auto
  finally show ?thesis using False by simp
qed

lemma int_mod_add:
  "0 \<le> a \<Longrightarrow> a < 2 * n \<Longrightarrow> a mod n = (if a < n then a else a - (n::int))"
proof (cases "a < n")
  case True
  assume "0 \<le> a" with True show ?thesis by (simp add: mod_pos_pos_trivial)
next
  case False
  assume a: "0 \<le> a" "a < 2 * n"
  have "a mod n = (a - n) mod n" by simp
  also have "\<dots> = a - n" using a False by (intro mod_pos_pos_trivial) auto
  finally show ?thesis using False by simp
qed

lemma bit_get_le32:
  "bit (get_le32 m a) q =
     (if q < 8 then bit (m a) q
      else if q < 16 then bit (m (a + 1)) (q - 8)
      else if q < 24 then bit (m (a + 2)) (q - 16)
      else if q < 32 then bit (m (a + 3)) (q - 24) else False)"
  by (auto simp: get_le32_def bit_simps dest: bit_imp_le_length)

lemma get_le32_max_byte:
  assumes "get_le32 m a = - 1"
  shows "m a = - 1" "m (a + 1) = - 1" "m (a + 2) = - 1" "m (a + 3) = - 1"
proof -
  have b: "bit (get_le32 m a) q = (q < 32)" for q
    using assms by (simp add: bit_simps)
  show "m a = - 1"
  proof (rule bit_eqI)
    fix n assume "possible_bit TYPE(8 word) n"
    then have n: "n < 8" by (simp add: possible_bit_word)
    from b[of n] n show "bit (m a) n = bit (- 1 :: 8 word) n"
      by (simp add: bit_get_le32 bit_simps)
  qed
  show "m (a + 1) = - 1"
  proof (rule bit_eqI)
    fix n assume "possible_bit TYPE(8 word) n"
    then have n: "n < 8" by (simp add: possible_bit_word)
    from b[of "n + 8"] n show "bit (m (a + 1)) n = bit (- 1 :: 8 word) n"
      by (simp add: bit_get_le32 bit_simps)
  qed
  show "m (a + 2) = - 1"
  proof (rule bit_eqI)
    fix n assume "possible_bit TYPE(8 word) n"
    then have n: "n < 8" by (simp add: possible_bit_word)
    from b[of "n + 16"] n show "bit (m (a + 2)) n = bit (- 1 :: 8 word) n"
      by (simp add: bit_get_le32 bit_simps)
  qed
  show "m (a + 3) = - 1"
  proof (rule bit_eqI)
    fix n assume "possible_bit TYPE(8 word) n"
    then have n: "n < 8" by (simp add: possible_bit_word)
    from b[of "n + 24"] n show "bit (m (a + 3)) n = bit (- 1 :: 8 word) n"
      by (simp add: bit_get_le32 bit_simps)
  qed
qed

lemma get_le32_all_max:
  "m a = - 1 \<Longrightarrow> m (a + 1) = - 1 \<Longrightarrow> m (a + 2) = - 1 \<Longrightarrow> m (a + 3) = - 1 \<Longrightarrow>
   get_le32 m a = - 1"
  by (rule bit_eqI) (auto simp add: bit_get_le32 bit_simps)

lemma get_le32_put_le32: "get_le32 (put_le32 m a w) a = w"
  by (rule bit_eqI) (auto simp: bit_get_le32 put_le32_def bit_simps)

lemma get_le32_AND: "get_le32 (\<lambda>x. f x AND g x) a = get_le32 f a AND get_le32 g a"
  by (rule bit_eqI) (auto simp: bit_get_le32 bit_simps)

lemma get_le32_cong:
  "m a = m' a' \<Longrightarrow> m (a + 1) = m' (a' + 1) \<Longrightarrow> m (a + 2) = m' (a' + 2) \<Longrightarrow>
   m (a + 3) = m' (a' + 3) \<Longrightarrow> get_le32 m a = get_le32 m' a'"
  by (simp add: get_le32_def)

lemma get_le32_put_le32_other:
  "a' + 3 < a \<or> a + 3 < a' \<Longrightarrow> get_le32 (put_le32 m a w) a' = get_le32 m a'"
  by (auto simp: put_le32_def get_le32_def)

lemma pow2_check: "(2::int) ^ e AND (2 ^ e - 1) = 0"
proof -
  have "(2::int) ^ e AND mask e = 0"
    by (rule bit_eqI) (auto simp: bit_simps)
  then show ?thesis by (simp add: mask_eq_exp_minus_1)
qed

section \<open>Reading: the range test\<close>

lemma read_range_test:
  assumes "arc_ok s" "0 < numinuse s"
  shows "((newest s \<ge> oldest s \<and> (c < oldest s \<or> c > newest s))
          \<or> (newest s < oldest s \<and> (c \<ge> numslots s \<or> c < 0))
          \<or> (c > newest s \<and> c < oldest s)) \<longleftrightarrow> \<not> on_arc s c"
proof -
  let ?n = "numslots s" and ?o = "oldest s" and ?m = "numinuse s"
  have r: "0 \<le> ?o" "?o < ?n" "0 < ?m" "?m \<le> ?n"
    using assms by (auto simp: arc_ok_def)
  have nw: "newest s = (if ?o + ?m - 1 < ?n then ?o + ?m - 1 else ?o + ?m - 1 - ?n)"
  proof -
    have "newest s = (?o + ?m - 1) mod ?n" using assms by (simp add: arc_ok_def)
    also have "\<dots> = (if ?o + ?m - 1 < ?n then ?o + ?m - 1 else ?o + ?m - 1 - ?n)"
      using r by (intro int_mod_add) auto
    finally show ?thesis .
  qed
  show ?thesis
  proof (cases "0 \<le> c \<and> c < ?n")
    case False
    then show ?thesis using r nw by (auto simp: on_arc_def split: if_splits)
  next
    case True
    then have "(c - ?o) mod ?n = (if ?o \<le> c then c - ?o else c - ?o + ?n)"
      using r by (intro int_mod_sub) auto
    then show ?thesis using True r nw by (auto simp: on_arc_def split: if_splits)
  qed
qed

text \<open>
  C4. On an open log whose cursor fields describe an arc (the cursor part of I1),
  \<open>flashlog_read\<close> returns \<open>FLASHLOG_ERR_BADSLOT\<close> exactly when the log is empty or
  \<open>current\<close> is not on the arc from oldest to newest; the test of the source, with its
  two cases for a wrapped and an unwrapped arc and its bounds check, decides membership
  in the arc modulo \<open>numslots\<close>, also for a \<open>current\<close> below 0 or not below \<open>numslots\<close>.
\<close>
theorem read_badslot_iff:
  assumes "entrybuf s \<noteq> None" and "arc_ok s"
  shows "fst (flashlog_read s p) = FLASHLOG_ERR_BADSLOT \<longleftrightarrow>
         numinuse s = 0 \<or> \<not> on_arc s (current s)"
proof (cases "numinuse s = 0")
  case True
  with assms(1) show ?thesis by (auto simp: flashlog_read_def)
next
  case False
  with assms(2) have pos: "0 < numinuse s" by (simp add: arc_ok_def)
  from assms(1) obtain buf where buf: "entrybuf s = Some buf" by auto
  show ?thesis
    using read_range_test[OF assms(2) pos, of "current s"] False buf
    by (auto simp: flashlog_read_def Let_def split: prod.splits)
qed

theorem read_badslot_iff_witness:
  "entrybuf (cursor_state 3 2 0 1) \<noteq> None \<and> arc_ok (cursor_state 3 2 0 1) \<and>
   fst (flashlog_read (cursor_state 3 2 0 1) (blank_partition 12288)) = FLASHLOG_ERR_BADSLOT \<and>
   numinuse (cursor_state 3 2 0 1) \<noteq> 0 \<and> \<not> on_arc (cursor_state 3 2 0 1) 1 \<and>
   entrybuf (cursor_state 3 2 0 3) \<noteq> None \<and> arc_ok (cursor_state 3 2 0 3) \<and>
   fst (flashlog_read (cursor_state 3 2 0 3) (blank_partition 12288)) \<noteq> FLASHLOG_ERR_BADSLOT \<and>
   on_arc (cursor_state 3 2 0 3) 3"
proof -
  have a: "entrybuf (cursor_state 3 2 0 c) \<noteq> None" "arc_ok (cursor_state 3 2 0 c)" for c
    by (simp_all add: cursor_state_def zero_state_def arc_ok_def)
  have b: "\<not> on_arc (cursor_state 3 2 0 1) 1" "on_arc (cursor_state 3 2 0 3) 3"
    "numinuse (cursor_state 3 2 0 1) \<noteq> 0" "numinuse (cursor_state 3 2 0 3) \<noteq> 0"
    "current (cursor_state 3 2 0 1) = 1" "current (cursor_state 3 2 0 3) = 3"
    by (simp_all add: cursor_state_def zero_state_def on_arc_def)
  show ?thesis
    using read_badslot_iff[OF a, of 1 "blank_partition 12288"]
      read_badslot_iff[OF a, of 3 "blank_partition 12288"] a b
    by simp
qed

section \<open>Navigation\<close>

text \<open>
  C6. With \<open>numinuse = 0\<close> each of the four navigation calls fails with
  \<open>FLASHLOG_ERR_BADSLOT\<close> and leaves the state as it is. With \<open>numinuse > 0\<close> and
  \<open>current\<close> a slot index of the log, \<open>flashlog_goto_oldest\<close> and \<open>flashlog_goto_newest\<close>
  succeed and set \<open>current\<close> to \<open>oldest\<close> and \<open>newest\<close>; \<open>flashlog_goto_next\<close> fails with
  \<open>FLASHLOG_ERR_BADSLOT\<close> exactly when \<open>current = newest\<close> and otherwise moves \<open>current\<close>
  one step forward modulo \<open>numslots\<close>; \<open>flashlog_goto_prev\<close> fails exactly when
  \<open>current = oldest\<close> and otherwise moves it one step back modulo \<open>numslots\<close>.
\<close>
theorem navigation_bounds:
  "(numinuse s = 0 \<longrightarrow>
      flashlog_goto_oldest s = (FLASHLOG_ERR_BADSLOT, s) \<and>
      flashlog_goto_newest s = (FLASHLOG_ERR_BADSLOT, s) \<and>
      flashlog_goto_next s = (FLASHLOG_ERR_BADSLOT, s) \<and>
      flashlog_goto_prev s = (FLASHLOG_ERR_BADSLOT, s)) \<and>
   (0 < numinuse s \<and> 0 \<le> current s \<and> current s < numslots s \<and> numslots s < 2 ^ 31 \<longrightarrow>
      flashlog_goto_oldest s = (FLASHLOG_ERR_OK, s\<lparr>current := oldest s\<rparr>) \<and>
      flashlog_goto_newest s = (FLASHLOG_ERR_OK, s\<lparr>current := newest s\<rparr>) \<and>
      (fst (flashlog_goto_next s) = FLASHLOG_ERR_BADSLOT \<longleftrightarrow> current s = newest s) \<and>
      (current s \<noteq> newest s \<longrightarrow>
         flashlog_goto_next s =
           (FLASHLOG_ERR_OK, s\<lparr>current := (current s + 1) mod numslots s\<rparr>)) \<and>
      (fst (flashlog_goto_prev s) = FLASHLOG_ERR_BADSLOT \<longleftrightarrow> current s = oldest s) \<and>
      (current s \<noteq> oldest s \<longrightarrow>
         flashlog_goto_prev s =
           (FLASHLOG_ERR_OK, s\<lparr>current := (current s - 1) mod numslots s\<rparr>)))"
proof (intro conjI impI)
  assume "numinuse s = 0"
  then show "flashlog_goto_oldest s = (FLASHLOG_ERR_BADSLOT, s)"
    "flashlog_goto_newest s = (FLASHLOG_ERR_BADSLOT, s)"
    "flashlog_goto_next s = (FLASHLOG_ERR_BADSLOT, s)"
    "flashlog_goto_prev s = (FLASHLOG_ERR_BADSLOT, s)"
    by (simp_all add: flashlog_goto_oldest_def flashlog_goto_newest_def
        flashlog_goto_next_def flashlog_goto_prev_def)
next
  assume a: "0 < numinuse s \<and> 0 \<le> current s \<and> current s < numslots s \<and> numslots s < 2 ^ 31"
  then show "flashlog_goto_oldest s = (FLASHLOG_ERR_OK, s\<lparr>current := oldest s\<rparr>)"
    "flashlog_goto_newest s = (FLASHLOG_ERR_OK, s\<lparr>current := newest s\<rparr>)"
    by (simp_all add: flashlog_goto_oldest_def flashlog_goto_newest_def)
  from a show "fst (flashlog_goto_next s) = FLASHLOG_ERR_BADSLOT \<longleftrightarrow> current s = newest s"
    by (simp add: flashlog_goto_next_def Let_def)
  from a show "fst (flashlog_goto_prev s) = FLASHLOG_ERR_BADSLOT \<longleftrightarrow> current s = oldest s"
    by (simp add: flashlog_goto_prev_def Let_def)
  have up: "s32 (current s + 1) = current s + 1" and down: "s32 (current s - 1) = current s - 1"
    and top: "s32 (numslots s - 1) = numslots s - 1"
    using a by (simp_all add: s32_id)
  have fwd: "(current s + 1) mod numslots s =
             (if current s + 1 < numslots s then current s + 1 else 0)"
    using a int_mod_add[of "current s + 1" "numslots s"] by auto
  have bwd: "(current s - 1) mod numslots s =
             (if current s - 1 < 0 then numslots s - 1 else current s - 1)"
    using a int_mod_sub[of "current s" "numslots s" 1] by (cases "numslots s = 1") auto
  { assume "current s \<noteq> newest s"
    then show "flashlog_goto_next s =
           (FLASHLOG_ERR_OK, s\<lparr>current := (current s + 1) mod numslots s\<rparr>)"
      using a by (simp add: flashlog_goto_next_def Let_def up fwd) }
  { assume "current s \<noteq> oldest s"
    then show "flashlog_goto_prev s =
           (FLASHLOG_ERR_OK, s\<lparr>current := (current s - 1) mod numslots s\<rparr>)"
      using a by (simp add: flashlog_goto_prev_def Let_def down top bwd) }
qed

theorem navigation_bounds_witness:
  "numinuse (cursor_state 0 0 0 0) = 0 \<and>
   flashlog_goto_next (cursor_state 0 0 0 0) = (FLASHLOG_ERR_BADSLOT, cursor_state 0 0 0 0) \<and>
   flashlog_goto_oldest (cursor_state 0 0 0 0) = (FLASHLOG_ERR_BADSLOT, cursor_state 0 0 0 0) \<and>
   0 < numinuse (cursor_state 3 2 0 3) \<and> 0 \<le> current (cursor_state 3 2 0 3) \<and>
   current (cursor_state 3 2 0 3) < numslots (cursor_state 3 2 0 3) \<and>
   numslots (cursor_state 3 2 0 3) < 2 ^ 31 \<and>
   current (cursor_state 3 2 0 3) \<noteq> newest (cursor_state 3 2 0 3) \<and>
   current (cursor_state 3 2 0 3) \<noteq> oldest (cursor_state 3 2 0 3) \<and>
   flashlog_goto_next (cursor_state 3 2 0 3) = (FLASHLOG_ERR_OK, cursor_state 3 2 0 0) \<and>
   flashlog_goto_prev (cursor_state 3 2 0 3) = (FLASHLOG_ERR_OK, cursor_state 3 2 0 2) \<and>
   fst (flashlog_goto_next (cursor_state 3 2 0 0)) = FLASHLOG_ERR_BADSLOT \<and>
   fst (flashlog_goto_prev (cursor_state 3 2 0 2)) = FLASHLOG_ERR_BADSLOT"
  using navigation_bounds[of "cursor_state 0 0 0 0"] navigation_bounds[of "cursor_state 3 2 0 3"]
    navigation_bounds[of "cursor_state 3 2 0 0"] navigation_bounds[of "cursor_state 3 2 0 2"]
  by (simp add: cursor_state_def zero_state_def)

text \<open>
  C10. The four navigation calls never return \<open>FLASHLOG_ERR_NOINIT\<close>: their result is
  \<open>FLASHLOG_ERR_BADSLOT\<close> or \<open>FLASHLOG_ERR_OK\<close> as \<open>numinuse\<close>, \<open>current\<close>, \<open>newest\<close> and
  \<open>oldest\<close> decide, whatever \<open>entrybuf\<close> is, so they work the same on a closed or never
  opened state; \<open>flashlog_add\<close> and \<open>flashlog_read\<close> on a closed state return
  \<open>FLASHLOG_ERR_NOINIT\<close>.
\<close>
theorem navigation_ignores_entrybuf:
  "fst (flashlog_goto_oldest s) =
     (if numinuse s = 0 then FLASHLOG_ERR_BADSLOT else FLASHLOG_ERR_OK) \<and>
   fst (flashlog_goto_newest s) =
     (if numinuse s = 0 then FLASHLOG_ERR_BADSLOT else FLASHLOG_ERR_OK) \<and>
   fst (flashlog_goto_next s) =
     (if numinuse s = 0 \<or> current s = newest s then FLASHLOG_ERR_BADSLOT else FLASHLOG_ERR_OK) \<and>
   fst (flashlog_goto_prev s) =
     (if numinuse s = 0 \<or> current s = oldest s then FLASHLOG_ERR_BADSLOT else FLASHLOG_ERR_OK) \<and>
   flashlog_goto_oldest (s\<lparr>entrybuf := b\<rparr>) =
     (fst (flashlog_goto_oldest s), (snd (flashlog_goto_oldest s))\<lparr>entrybuf := b\<rparr>) \<and>
   flashlog_goto_newest (s\<lparr>entrybuf := b\<rparr>) =
     (fst (flashlog_goto_newest s), (snd (flashlog_goto_newest s))\<lparr>entrybuf := b\<rparr>) \<and>
   flashlog_goto_next (s\<lparr>entrybuf := b\<rparr>) =
     (fst (flashlog_goto_next s), (snd (flashlog_goto_next s))\<lparr>entrybuf := b\<rparr>) \<and>
   flashlog_goto_prev (s\<lparr>entrybuf := b\<rparr>) =
     (fst (flashlog_goto_prev s), (snd (flashlog_goto_prev s))\<lparr>entrybuf := b\<rparr>) \<and>
   fst (flashlog_add (snd (flashlog_close s)) p) = Returned FLASHLOG_ERR_NOINIT \<and>
   fst (flashlog_read (snd (flashlog_close s)) p) = FLASHLOG_ERR_NOINIT"
  by (simp add: flashlog_goto_oldest_def flashlog_goto_newest_def flashlog_goto_next_def
      flashlog_goto_prev_def flashlog_add_def flashlog_read_def flashlog_close_def Let_def)

section \<open>The flash driver\<close>

lemma driver_result_flash [simp]: "flash (snd (driver_result p)) = flash p"
  and driver_result_psize [simp]: "psize (snd (driver_result p)) = psize p"
  and driver_result_pending: "pending (snd (driver_result p)) = tl (pending p)"
  by (cases "pending p"; simp add: driver_result_def)+

lemma driver_result_no_faults: "pending p = [] \<Longrightarrow> driver_result p = (ESP_OK, p)"
  by (simp add: driver_result_def)

lemma erase_fst: "fst (esp_partition_erase_range p off len) = fst (driver_result p)"
  and erase_psize [simp]: "psize (snd (esp_partition_erase_range p off len)) = psize p"
  and erase_flash: "flash (snd (esp_partition_erase_range p off len)) =
      (if fst (driver_result p) = ESP_OK
       then (\<lambda>a. if off \<le> a \<and> a < off + len then - 1 else flash p a) else flash p)"
  and erase_pending: "pending (snd (esp_partition_erase_range p off len)) = tl (pending p)"
  by (simp_all add: esp_partition_erase_range_def case_prod_beta driver_result_pending)

lemma write_fst: "fst (esp_partition_write p off src len) = fst (driver_result p)"
  and write_psize [simp]: "psize (snd (esp_partition_write p off src len)) = psize p"
  and write_flash: "flash (snd (esp_partition_write p off src len)) =
      (if fst (driver_result p) = ESP_OK
       then (\<lambda>a. if off \<le> a \<and> a < off + len then flash p a AND src (a - off) else flash p a)
       else flash p)"
  and write_pending: "pending (snd (esp_partition_write p off src len)) = tl (pending p)"
  by (simp_all add: esp_partition_write_def case_prod_beta driver_result_pending)

lemma read_fst: "fst (esp_partition_read p off len) = fst (driver_result p)"
  and read_data: "fst (snd (esp_partition_read p off len)) = (\<lambda>i. flash p (off + i))"
  and read_part: "snd (snd (esp_partition_read p off len)) = snd (driver_result p)"
  and read_psize [simp]: "psize (snd (snd (esp_partition_read p off len))) = psize p"
  and read_flash [simp]: "flash (snd (snd (esp_partition_read p off len))) = flash p"
  and read_pending: "pending (snd (snd (esp_partition_read p off len))) = tl (pending p)"
  by (simp_all add: esp_partition_read_def case_prod_beta driver_result_pending)

lemma hdr_roundtrip:
  assumes "- (2 ^ 31) \<le> d" "d < 2 ^ 31" "- (2 ^ 31) \<le> n" "n < 2 ^ 31"
  shows "hdr_of_bytes (bytes_of_hdr \<lparr>hdr_id = FLASHLOG_ID, hdr_datasize = d, hdr_numslots = n\<rparr>)
         = \<lparr>hdr_id = FLASHLOG_ID, hdr_datasize = d, hdr_numslots = n\<rparr>"
proof -
  let ?h = "\<lparr>hdr_id = FLASHLOG_ID, hdr_datasize = d, hdr_numslots = n\<rparr>"
  have idb: "map (bytes_of_hdr ?h) [0, 1, 2, 3, 4, 5, 6, 7] = FLASHLOG_ID"
    by (simp add: bytes_of_hdr_def put_le32_def FLASHLOG_ID_def)
  have "get_le32 (bytes_of_hdr ?h) 12 = word_of_int n"
    by (simp add: bytes_of_hdr_def get_le32_put_le32)
  then have n: "sint (get_le32 (bytes_of_hdr ?h) 12) = n"
    using assms by (simp add: sint_word_of_int_s32 s32_id)
  have "get_le32 (bytes_of_hdr ?h) 8 = word_of_int d"
    by (simp add: bytes_of_hdr_def get_le32_put_le32_other get_le32_put_le32)
  then have d: "sint (get_le32 (bytes_of_hdr ?h) 8) = d"
    using assms by (simp add: sint_word_of_int_s32 s32_id)
  show ?thesis using idb n d by (simp add: hdr_of_bytes_def)
qed

lemma hdr_of_bytes_cong:
  "(\<And>a. 0 \<le> a \<Longrightarrow> a < 16 \<Longrightarrow> m a = m' a) \<Longrightarrow> hdr_of_bytes m = hdr_of_bytes m'"
  by (simp add: hdr_of_bytes_def get_le32_def)

lemma s32_range: "- (2 ^ 31) \<le> s32 x" "s32 x < 2 ^ 31"
  by (simp_all add: s32_def)

lemma open_initialize_None:
  assumes "open_initialize d s p = (None, s', p')"
  shows "u32 (d + 4) \<noteq> 0"
    and "s' = s\<lparr>partition_err := ESP_OK,
                numslots := s32 (u32 (psize p - 4096) div u32 (d + 4)),
                highest_seqno := 0, oldest := 0, newest := 0, current := 0, numinuse := 0\<rparr>"
    and "psize p' = psize p"
    and "flash p' = (\<lambda>a. if 0 \<le> a \<and> a < 16
            then (if a < u32 (psize p) then - 1 else flash p a) AND
                 bytes_of_hdr \<lparr>hdr_id = FLASHLOG_ID, hdr_datasize = d,
                   hdr_numslots = s32 (u32 (psize p - 4096) div u32 (d + 4))\<rparr> a
            else if 0 \<le> a \<and> a < u32 (psize p) then - 1 else flash p a)"
    and "pending p' = tl (tl (pending p))"
  using assms
  by (auto simp: open_initialize_def Let_def case_prod_beta erase_fst erase_flash write_fst
        write_flash erase_pending write_pending fun_eq_iff
        ENTRY_HDR_SIZE_def HDR_SIZE_def FLASHLOG_SLOT0_def split: if_splits)

section \<open>Opening\<close>

lemma flashlog_open_via:
  assumes "\<not> (entry_length d > 4096 \<or> (entry_length d AND s32 (entry_length d - 1)) \<noteq> 0)"
    and "driver_result p = (ESP_OK, p1)"
    and "(if hdr_id (hdr_of_bytes (flash p)) \<noteq> FLASHLOG_ID \<or>
                     hdr_datasize (hdr_of_bytes (flash p)) \<noteq> d
                  then open_initialize d (s\<lparr>datasize := d, partition_err := ESP_OK\<rparr>) p1
                  else open_existing (hdr_of_bytes (flash p))
                         (s\<lparr>datasize := d, partition_err := ESP_OK\<rparr>) p1) = (st, s1, p2)"
  shows "flashlog_open (Some p) d heap s =
     (case st of Some r \<Rightarrow> (r, s1, Some p2) | None \<Rightarrow> open_finish heap s1 p2)"
proof (cases "hdr_id (hdr_of_bytes (flash p)) \<noteq> FLASHLOG_ID \<or>
                     hdr_datasize (hdr_of_bytes (flash p)) \<noteq> d")
  case True
  with assms show ?thesis
    by (cases st) (simp_all add: flashlog_open_def Let_def esp_partition_read_def)
next
  case False
  with assms show ?thesis
    by (cases st) (simp_all add: flashlog_open_def Let_def esp_partition_read_def)
qed

lemma flashlog_open_early:
  "entry_length d > 4096 \<or> (entry_length d AND s32 (entry_length d - 1)) \<noteq> 0 \<Longrightarrow>
   flashlog_open (Some p) d heap s = (Returned FLASHLOG_ERR_BADSIZE, s, Some p)"
  "\<not> (entry_length d > 4096 \<or> (entry_length d AND s32 (entry_length d - 1)) \<noteq> 0) \<Longrightarrow>
   driver_result p = (e, p1) \<Longrightarrow> e \<noteq> ESP_OK \<Longrightarrow>
   flashlog_open (Some p) d heap s =
     (Returned FLASHLOG_ERR_READERR, s\<lparr>datasize := d, partition_err := e\<rparr>, Some p1)"
  by (simp_all add: flashlog_open_def Let_def esp_partition_read_def)

lemma open_finish_result:
  "fst (open_finish heap s p) = (if heap = None then Returned FLASHLOG_ERR_NOMEM else Returned FLASHLOG_ERR_OK)"
  "fst (snd (open_finish heap s p)) = s\<lparr>current := newest s, entrybuf := heap\<rparr>"
  "snd (snd (open_finish heap s p)) = Some p"
  by (auto simp: open_finish_def Let_def split: option.splits)

lemma scan_slots_unfold:
  "scan_slots hdr slot os s p =
     (if slot < hdr_numslots hdr then
        (if fst (driver_result p) \<noteq> ESP_OK
         then (Some (Returned FLASHLOG_ERR_READERR), s\<lparr>partition_err := fst (driver_result p)\<rparr>,
               snd (driver_result p))
         else scan_slots hdr (slot + 1)
                (fst (scan_entry slot (get_le32 (flash p) (u32 (slot_offset slot (hdr_datasize hdr))))
                        os (s\<lparr>partition_err := ESP_OK\<rparr>)))
                (snd (scan_entry slot (get_le32 (flash p) (u32 (slot_offset slot (hdr_datasize hdr))))
                        os (s\<lparr>partition_err := ESP_OK\<rparr>)))
                (snd (driver_result p)))
      else (None, s, p))"
proof -
  have g: "get_le32 (\<lambda>i. flash p (a + i)) 0 = get_le32 (flash p) a" for a
    by (simp add: get_le32_def)
  show ?thesis
    by (subst scan_slots.simps) (simp add: Let_def read_fst read_data read_part g)
qed

lemma scan_slots_stop:
  "fst (scan_slots hdr slot os s p) = None \<or>
   fst (scan_slots hdr slot os s p) = Some (Returned FLASHLOG_ERR_READERR)"
proof (induction "nat (hdr_numslots hdr - slot)" arbitrary: slot os s p)
  case 0
  then show ?case by (subst (1 2) scan_slots_unfold) simp
next
  case (Suc k)
  then have "k = nat (hdr_numslots hdr - (slot + 1))" by simp
  from Suc.hyps(1)[OF this] show ?case
    by (subst (1 2) scan_slots_unfold) simp
qed

lemma open_initialize_stop:
  "fst (open_initialize d s p) \<in> {None, Some (Returned FLASHLOG_ERR_ERASEERR), Some DivideByZero,
      Some (Returned FLASHLOG_ERR_WRITEERR)}"
  by (simp add: open_initialize_def Let_def split: prod.splits)

text \<open>An accepted open went through one of the two branches and \<open>open_finish\<close>.\<close>
lemma open_accepted_cases:
  assumes "flashlog_open (Some p) d heap s = (r, s', q)"
    and "r = Returned FLASHLOG_ERR_OK \<or> r = Returned FLASHLOG_ERR_NOMEM"
  obtains s1 p1 where
    "\<not> (entry_length d > 4096 \<or> (entry_length d AND s32 (entry_length d - 1)) \<noteq> 0)"
    "fst (driver_result p) = ESP_OK"
    "(if hdr_id (hdr_of_bytes (flash p)) \<noteq> FLASHLOG_ID \<or>
                     hdr_datasize (hdr_of_bytes (flash p)) \<noteq> d
                  then open_initialize d (s\<lparr>datasize := d, partition_err := ESP_OK\<rparr>)
                         (snd (driver_result p))
                  else open_existing (hdr_of_bytes (flash p))
                         (s\<lparr>datasize := d, partition_err := ESP_OK\<rparr>) (snd (driver_result p)))
      = (None, s1, p1)"
    "s' = s1\<lparr>current := newest s1, entrybuf := heap\<rparr>" "q = Some p1"
    "r = (if heap = None then Returned FLASHLOG_ERR_NOMEM else Returned FLASHLOG_ERR_OK)"
proof -
  let ?s0 = "s\<lparr>datasize := d, partition_err := ESP_OK\<rparr>"
  obtain e p0 where dr: "driver_result p = (e, p0)" by (cases "driver_result p") auto
  let ?br = "(if hdr_id (hdr_of_bytes (flash p)) \<noteq> FLASHLOG_ID \<or>
                     hdr_datasize (hdr_of_bytes (flash p)) \<noteq> d
                  then open_initialize d ?s0 p0
                  else open_existing (hdr_of_bytes (flash p)) ?s0 p0)"
  from assms have c: "\<not> (entry_length d > 4096 \<or> (entry_length d AND s32 (entry_length d - 1)) \<noteq> 0)"
    using flashlog_open_early(1)[of d p heap s] by auto
  from assms c dr have e: "e = ESP_OK"
    using flashlog_open_early(2)[of d p e p0 heap s] by auto
  obtain st s1 p1 where br: "?br = (st, s1, p1)" by (cases ?br) auto
  have "fst (scan_slots (hdr_of_bytes (flash p)) 0 UINT32_MAX
       (?s0\<lparr>numslots := hdr_numslots (hdr_of_bytes (flash p)), highest_seqno := 0,
             newest := 0, oldest := 0\<rparr>) p0) \<in> {None, Some (Returned FLASHLOG_ERR_READERR)}"
    using scan_slots_stop by blast
  then have st: "st \<in> {None, Some (Returned FLASHLOG_ERR_ERASEERR), Some DivideByZero,
      Some (Returned FLASHLOG_ERR_WRITEERR), Some (Returned FLASHLOG_ERR_READERR)}"
    using br open_initialize_stop[of d ?s0 p0]
    by (auto simp: open_existing_def split: if_splits)
  have fin: "flashlog_open (Some p) d heap s =
     (case st of Some r \<Rightarrow> (r, s1, Some p1) | None \<Rightarrow> open_finish heap s1 p1)"
    using c dr[unfolded e] br by (rule flashlog_open_via)
  from fin assms st have "st = None" by auto
  with fin assms have "open_finish heap s1 p1 = (r, s', q)" by simp
  then have "s' = s1\<lparr>current := newest s1, entrybuf := heap\<rparr>" "q = Some p1"
    "r = (if heap = None then Returned FLASHLOG_ERR_NOMEM else Returned FLASHLOG_ERR_OK)"
    using open_finish_result[of heap s1 p1] by auto
  moreover have "fst (driver_result p) = ESP_OK" "snd (driver_result p) = p0"
    using dr e by auto
  ultimately show thesis using that[of s1 p1] c br \<open>st = None\<close> by auto
qed

lemma open_reinitialized:
  assumes op: "flashlog_open (Some p) d heap s = (Returned FLASHLOG_ERR_OK, s', q)"
    and br: "hdr_id (hdr_of_bytes (flash p)) \<noteq> FLASHLOG_ID \<or>
             hdr_datasize (hdr_of_bytes (flash p)) \<noteq> d"
    and d: "0 \<le> d" "d < 2 ^ 31" and sz: "4096 \<le> psize p" "psize p < 2 ^ 32"
  obtains p' where "q = Some p'" "psize p' = psize p"
    "hdr_of_bytes (flash p') =
       \<lparr>hdr_id = FLASHLOG_ID, hdr_datasize = d, hdr_numslots = (psize p - 4096) div (d + 4)\<rparr>"
    "\<And>a. 16 \<le> a \<Longrightarrow> a < psize p \<Longrightarrow> flash p' a = - 1"
    "s' = s\<lparr>datasize := d, partition_err := ESP_OK, numslots := (psize p - 4096) div (d + 4),
             highest_seqno := 0, oldest := 0, newest := 0, current := 0, numinuse := 0,
             entrybuf := heap\<rparr>"
    "heap \<noteq> None"
proof -
  let ?n = "(psize p - 4096) div (d + 4)"
  let ?h = "\<lparr>hdr_id = FLASHLOG_ID, hdr_datasize = d, hdr_numslots = ?n\<rparr>"
  from op obtain s1 p1 where
    init: "open_initialize d (s\<lparr>datasize := d, partition_err := ESP_OK\<rparr>) (snd (driver_result p))
           = (None, s1, p1)"
    and s': "s' = s1\<lparr>current := newest s1, entrybuf := heap\<rparr>" and q: "q = Some p1"
    and r: "Returned FLASHLOG_ERR_OK =
            (if heap = None then Returned FLASHLOG_ERR_NOMEM else Returned FLASHLOG_ERR_OK)"
    using br by (elim open_accepted_cases) (simp_all split: if_splits)
  have u4: "u32 (d + 4) = d + 4" using d by (intro u32_id) auto
  have usz: "u32 (psize p) = psize p" "u32 (psize p - 4096) = psize p - 4096"
    using sz by (auto intro!: u32_id)
  have n0: "0 \<le> ?n" using sz d by (simp add: pos_imp_zdiv_nonneg_iff)
  have "?n \<le> (psize p - 4096) div 4" using sz d by (intro zdiv_mono2) auto
  with sz have n1: "?n < 2 ^ 31" by simp
  have sn: "s32 ?n = ?n" using n0 n1 by (intro s32_id) auto
  note i = open_initialize_None[OF init]
  have hb: "flash p1 a = bytes_of_hdr ?h a" if "0 \<le> a" "a < 16" for a
    using that sz by (simp add: i(4) u4 usz sn)
  have "hdr_of_bytes (flash p1) = hdr_of_bytes (bytes_of_hdr ?h)"
    by (rule hdr_of_bytes_cong) (rule hb)
  also have "\<dots> = ?h" using d n0 n1 by (intro hdr_roundtrip) auto
  finally have h: "hdr_of_bytes (flash p1) = ?h" .
  have er: "flash p1 a = - 1" if "16 \<le> a" "a < psize p" for a
    using that by (simp add: i(4) u4 usz sn)
  from r have heap: "heap \<noteq> None" by (auto split: if_splits)
  show thesis
    using that[OF q _ h er _ heap] s' i(2,3) by (simp add: u4 usz sn)
qed


lemma slot_bytes_in_region:
  assumes "0 \<le> i" "i < (sz - 4096) div l" "4 \<le> l" "0 \<le> b" "b < (4::int)"
  shows "16 \<le> 4096 + i * l + b" "4096 + i * l + b < sz"
proof -
  have "0 \<le> i * l" using assms by simp
  then show "16 \<le> 4096 + i * l + b" using assms by simp
  have "i + 1 \<le> (sz - 4096) div l" using assms by simp
  then have "(i + 1) * l \<le> (sz - 4096) div l * l" using assms by (intro mult_right_mono) auto
  also have "\<dots> = sz - 4096 - (sz - 4096) mod l" by (simp add: minus_mod_eq_div_mult)
  also have "\<dots> \<le> sz - 4096" using assms by simp
  finally show "4096 + i * l + b < sz" using assms by (simp add: algebra_simps)
qed


lemma open_initialize_no_faults:
  assumes "pending p = []" "u32 (d + 4) \<noteq> 0"
  shows "fst (open_initialize d s p) = None"
  using assms
  by (simp add: open_initialize_def Let_def split_beta erase_fst write_fst erase_pending
      driver_result_def ENTRY_HDR_SIZE_def)

lemma open_fresh_returns_ok:
  assumes "pending p = []"
    and "\<not> (entry_length d > 4096 \<or> (entry_length d AND s32 (entry_length d - 1)) \<noteq> 0)"
    and "u32 (d + 4) \<noteq> 0"
    and "hdr_id (hdr_of_bytes (flash p)) \<noteq> FLASHLOG_ID \<or>
         hdr_datasize (hdr_of_bytes (flash p)) \<noteq> d"
  shows "fst (flashlog_open (Some p) d (Some buf) s) = Returned FLASHLOG_ERR_OK"
proof -
  let ?s0 = "s\<lparr>datasize := d, partition_err := ESP_OK\<rparr>"
  have dr: "driver_result p = (ESP_OK, p)" using assms(1) by (rule driver_result_no_faults)
  obtain s1 p1 where i: "open_initialize d ?s0 p = (None, s1, p1)"
    using open_initialize_no_faults[OF assms(1,3), of ?s0]
    by (cases "open_initialize d ?s0 p") auto
  have "flashlog_open (Some p) d (Some buf) s =
     (case None of Some r \<Rightarrow> (r, s1, Some p1) | None \<Rightarrow> open_finish (Some buf) s1 p1)"
    using assms(2) dr by (rule flashlog_open_via) (use assms(4) i in simp)
  then show ?thesis by (simp add: open_finish_result)
qed

lemma open_badsize_iff_check:
  "fst (flashlog_open (Some p) d heap s) = Returned FLASHLOG_ERR_BADSIZE \<longleftrightarrow>
   entry_length d > 4096 \<or> (entry_length d AND s32 (entry_length d - 1)) \<noteq> 0"
proof (cases "entry_length d > 4096 \<or> (entry_length d AND s32 (entry_length d - 1)) \<noteq> 0")
  case True
  then show ?thesis using flashlog_open_early(1)[of d p heap s] by simp
next
  case False
  let ?s0 = "s\<lparr>datasize := d, partition_err := ESP_OK\<rparr>"
  obtain e p0 where dr: "driver_result p = (e, p0)" by (cases "driver_result p") auto
  show ?thesis
  proof (cases "e = ESP_OK")
    case ne: False
    then show ?thesis using flashlog_open_early(2)[OF False dr, of heap s] False by simp
  next
    case True
    let ?br = "(if hdr_id (hdr_of_bytes (flash p)) \<noteq> FLASHLOG_ID \<or>
                     hdr_datasize (hdr_of_bytes (flash p)) \<noteq> d
                  then open_initialize d ?s0 p0
                  else open_existing (hdr_of_bytes (flash p)) ?s0 p0)"
    obtain st s1 p1 where br: "?br = (st, s1, p1)" by (cases ?br) auto
    have "fst (scan_slots (hdr_of_bytes (flash p)) 0 UINT32_MAX
       (?s0\<lparr>numslots := hdr_numslots (hdr_of_bytes (flash p)), highest_seqno := 0,
             newest := 0, oldest := 0\<rparr>) p0) \<in> {None, Some (Returned FLASHLOG_ERR_READERR)}"
      using scan_slots_stop by blast
    then have st: "st \<in> {None, Some (Returned FLASHLOG_ERR_ERASEERR), Some DivideByZero,
      Some (Returned FLASHLOG_ERR_WRITEERR), Some (Returned FLASHLOG_ERR_READERR)}"
      using br open_initialize_stop[of d ?s0 p0]
      by (auto simp: open_existing_def split: if_splits)
    have fin: "flashlog_open (Some p) d heap s =
     (case st of Some r \<Rightarrow> (r, s1, Some p1) | None \<Rightarrow> open_finish heap s1 p1)"
      using False dr[unfolded True] br by (rule flashlog_open_via)
    show ?thesis using fin st False open_finish_result(1)[of heap s1 p1]
      by (auto split: if_splits)
  qed
qed


text \<open>
  C7. When \<open>flashlog_open\<close> succeeds on a partition of \<open>psize\<close> bytes (at least the 4096
  bytes kept for the header, and a \<open>uint32_t\<close>) that holds no log header, with a payload
  size \<open>d\<close> that is not negative, then the header now in the flash records the payload
  size \<open>d\<close> and \<open>numslots = (psize - 4096) div (d + 4)\<close>, the state has the same
  \<open>numslots\<close>, and the log is empty: \<open>numinuse = 0\<close>, \<open>highest_seqno = 0\<close>, and all three
  slot indices are 0.
\<close>
theorem open_fresh_region:
  assumes "flashlog_open (Some p) d heap s = (Returned FLASHLOG_ERR_OK, s', q)"
    and "hdr_id (hdr_of_bytes (flash p)) \<noteq> FLASHLOG_ID"
    and "0 \<le> d" "d < 2 ^ 31" and "4096 \<le> psize p" "psize p < 2 ^ 32"
  shows "(\<exists>p'. q = Some p' \<and>
            hdr_of_bytes (flash p') =
              \<lparr>hdr_id = FLASHLOG_ID, hdr_datasize = d,
               hdr_numslots = (psize p - 4096) div (d + 4)\<rparr>) \<and>
         numslots s' = (psize p - 4096) div (d + 4) \<and> datasize s' = d \<and>
         numinuse s' = 0 \<and> highest_seqno s' = 0 \<and>
         oldest s' = 0 \<and> newest s' = 0 \<and> current s' = 0"
proof -
  from assms(2) have "hdr_id (hdr_of_bytes (flash p)) \<noteq> FLASHLOG_ID \<or>
             hdr_datasize (hdr_of_bytes (flash p)) \<noteq> d" by simp
  from assms(1) this assms(3-6) obtain p' where "q = Some p'"
    "hdr_of_bytes (flash p') =
       \<lparr>hdr_id = FLASHLOG_ID, hdr_datasize = d, hdr_numslots = (psize p - 4096) div (d + 4)\<rparr>"
    "s' = s\<lparr>datasize := d, partition_err := ESP_OK, numslots := (psize p - 4096) div (d + 4),
             highest_seqno := 0, oldest := 0, newest := 0, current := 0, numinuse := 0,
             entrybuf := heap\<rparr>"
    by (rule open_reinitialized)
  then show ?thesis by simp
qed


theorem open_fresh_region_witness:
  "fst (flashlog_open (Some (blank_partition 8192)) 12 (Some (\<lambda>_. 0)) zero_state)
     = Returned FLASHLOG_ERR_OK \<and>
   hdr_id (hdr_of_bytes (flash (blank_partition 8192))) \<noteq> FLASHLOG_ID \<and>
   (0::int) \<le> 12 \<and> (12::int) < 2 ^ 31 \<and>
   4096 \<le> psize (blank_partition 8192) \<and> psize (blank_partition 8192) < 2 ^ 32 \<and>
   (\<exists>p'. snd (snd (flashlog_open (Some (blank_partition 8192)) 12 (Some (\<lambda>_. 0)) zero_state))
           = Some p' \<and>
         hdr_of_bytes (flash p') =
           \<lparr>hdr_id = FLASHLOG_ID, hdr_datasize = 12, hdr_numslots = 256\<rparr>) \<and>
   numslots (fst (snd (flashlog_open (Some (blank_partition 8192)) 12 (Some (\<lambda>_. 0)) zero_state)))
     = 256 \<and>
   numinuse (fst (snd (flashlog_open (Some (blank_partition 8192)) 12 (Some (\<lambda>_. 0)) zero_state)))
     = 0 \<and>
   highest_seqno
     (fst (snd (flashlog_open (Some (blank_partition 8192)) 12 (Some (\<lambda>_. 0)) zero_state))) = 0"
proof -
  let ?p = "blank_partition 8192"
  let ?R = "flashlog_open (Some ?p) 12 (Some (\<lambda>_. 0)) zero_state"
  have fresh: "hdr_id (hdr_of_bytes (flash ?p)) \<noteq> FLASHLOG_ID"
    by (simp add: hdr_of_bytes_def blank_partition_def FLASHLOG_ID_def)
  have ok: "fst ?R = Returned FLASHLOG_ERR_OK"
    using fresh
    by (intro open_fresh_returns_ok)
      (simp_all add: blank_partition_def entry_length_def ENTRY_HDR_SIZE_def u32_def s32_def)
  then have R: "?R = (Returned FLASHLOG_ERR_OK, fst (snd ?R), snd (snd ?R))"
    by (metis prod.collapse)
  have sz: "4096 \<le> psize ?p" "psize ?p < 2 ^ 32" by (simp_all add: blank_partition_def)
  show ?thesis
    using open_fresh_region[OF R fresh _ _ sz] ok fresh sz by (simp add: blank_partition_def)
qed

text \<open>
  C8, at the payload size the claim fails for. \<open>datasize = - 4\<close> makes the entry size 0,
  which is not a power of two, yet the test \<open>entrysize & (entrysize - 1)\<close> lets it pass:
  \<open>flashlog_open\<close> does not return \<open>FLASHLOG_ERR_BADSIZE\<close>, whatever the partition holds.
  On a blank partition it goes on to read the header, erase the partition, and divide by
  the entry size 0.
\<close>
theorem open_accepts_entry_size_zero:
  "fst (flashlog_open (Some p) (- 4) heap s) \<noteq> Returned FLASHLOG_ERR_BADSIZE"
  by (simp add: open_badsize_iff_check entry_length_def ENTRY_HDR_SIZE_def u32_def s32_def)

theorem open_accepts_entry_size_zero_witness:
  "fst (flashlog_open (Some (blank_partition 8192)) (- 4) (Some (\<lambda>_. 0)) zero_state)
     \<noteq> Returned FLASHLOG_ERR_BADSIZE \<and>
   fst (flashlog_open (Some (blank_partition 8192)) (- 4) (Some (\<lambda>_. 0)) zero_state)
     = DivideByZero"
proof -
  let ?s0 = "zero_state\<lparr>datasize := - 4, partition_err := ESP_OK\<rparr>"
  let ?p = "blank_partition 8192"
  have c: "\<not> (entry_length (- 4) > 4096 \<or> (entry_length (- 4) AND s32 (entry_length (- 4) - 1)) \<noteq> 0)"
    by (simp add: entry_length_def ENTRY_HDR_SIZE_def u32_def s32_def)
  have dr: "driver_result ?p = (ESP_OK, ?p)"
    by (simp add: driver_result_def blank_partition_def)
  have fresh: "hdr_id (hdr_of_bytes (flash ?p)) \<noteq> FLASHLOG_ID"
    by (simp add: hdr_of_bytes_def blank_partition_def FLASHLOG_ID_def)
  obtain s1 p1 where i: "open_initialize (- 4) ?s0 ?p = (Some DivideByZero, s1, p1)"
    by (simp add: open_initialize_def Let_def split_beta erase_fst dr ESP_OK_def
        ENTRY_HDR_SIZE_def u32_def)
  have "flashlog_open (Some ?p) (- 4) (Some (\<lambda>_. 0)) zero_state =
     (case Some DivideByZero of Some r \<Rightarrow> (r, s1, Some p1)
      | None \<Rightarrow> open_finish (Some (\<lambda>_. 0)) s1 p1)"
    using c dr by (rule flashlog_open_via) (use fresh i in simp)
  then show ?thesis
    using open_accepts_entry_size_zero[of ?p "Some (\<lambda>_. 0)" zero_state] by simp
qed


text \<open>
  C9. When \<open>flashlog_open\<close> succeeds on a partition whose header is a log header that
  records a payload size other than the requested \<open>d\<close>, then every byte of the partition
  after the header is erased, so every slot reads as unused; the header now records \<open>d\<close>
  and the slot count for \<open>d\<close>; and the state is that of an empty log of payload size \<open>d\<close>.
\<close>
theorem open_other_size:
  assumes "flashlog_open (Some p) d heap s = (Returned FLASHLOG_ERR_OK, s', q)"
    and "hdr_id (hdr_of_bytes (flash p)) = FLASHLOG_ID"
    and "hdr_datasize (hdr_of_bytes (flash p)) \<noteq> d"
    and "0 \<le> d" "d < 2 ^ 31" and "4096 \<le> psize p" "psize p < 2 ^ 32"
  shows "\<exists>p'. q = Some p' \<and>
           (\<forall>a. 16 \<le> a \<and> a < psize p \<longrightarrow> flash p' a = - 1) \<and>
           hdr_of_bytes (flash p') =
             \<lparr>hdr_id = FLASHLOG_ID, hdr_datasize = d,
              hdr_numslots = (psize p - 4096) div (d + 4)\<rparr> \<and>
           (\<forall>i\<in>{0..<numslots s'}. seqno_at p' d i = UINT32_MAX) \<and>
           datasize s' = d \<and> numslots s' = (psize p - 4096) div (d + 4) \<and>
           numinuse s' = 0 \<and> highest_seqno s' = 0"
proof -
  from assms(3) have "hdr_id (hdr_of_bytes (flash p)) \<noteq> FLASHLOG_ID \<or>
             hdr_datasize (hdr_of_bytes (flash p)) \<noteq> d" by simp
  from assms(1) this assms(4-7) obtain p' where p': "q = Some p'"
    "hdr_of_bytes (flash p') =
       \<lparr>hdr_id = FLASHLOG_ID, hdr_datasize = d, hdr_numslots = (psize p - 4096) div (d + 4)\<rparr>"
    "\<And>a. 16 \<le> a \<Longrightarrow> a < psize p \<Longrightarrow> flash p' a = - 1"
    "s' = s\<lparr>datasize := d, partition_err := ESP_OK, numslots := (psize p - 4096) div (d + 4),
             highest_seqno := 0, oldest := 0, newest := 0, current := 0, numinuse := 0,
             entrybuf := heap\<rparr>"
    by (rule open_reinitialized) blast
  have "seqno_at p' d i = UINT32_MAX" if "0 \<le> i" "i < (psize p - 4096) div (d + 4)" for i
  proof -
    have "flash p' (4096 + i * (d + 4) + b) = - 1" if "0 \<le> b" "b < 4" for b
      using slot_bytes_in_region[OF \<open>0 \<le> i\<close> \<open>i < (psize p - 4096) div (d + 4)\<close> _ that] assms(4)
      by (intro p'(3)) auto
    from this[of 0] this[of 1] this[of 2] this[of 3] show ?thesis
      by (simp add: seqno_at_def UINT32_MAX_def FLASHLOG_SLOT0_def ENTRY_HDR_SIZE_def
          get_le32_all_max add.assoc)
  qed
  then show ?thesis using p' by simp
qed

theorem open_other_size_witness:
  "fst (flashlog_open (Some logged_partition) 12 (Some (\<lambda>_. 0)) zero_state)
     = Returned FLASHLOG_ERR_OK \<and>
   hdr_id (hdr_of_bytes (flash logged_partition)) = FLASHLOG_ID \<and>
   hdr_datasize (hdr_of_bytes (flash logged_partition)) = 28 \<and>
   seqno_at logged_partition 28 0 = 1 \<and>
   (\<exists>p'. snd (snd (flashlog_open (Some logged_partition) 12 (Some (\<lambda>_. 0)) zero_state))
           = Some p' \<and>
         hdr_of_bytes (flash p') =
           \<lparr>hdr_id = FLASHLOG_ID, hdr_datasize = 12, hdr_numslots = 256\<rparr> \<and>
         seqno_at p' 12 0 = UINT32_MAX \<and> flash p' 4096 = - 1) \<and>
   datasize (fst (snd (flashlog_open (Some logged_partition) 12 (Some (\<lambda>_. 0)) zero_state)))
     = 12 \<and>
   numslots (fst (snd (flashlog_open (Some logged_partition) 12 (Some (\<lambda>_. 0)) zero_state)))
     = 256 \<and>
   numinuse (fst (snd (flashlog_open (Some logged_partition) 12 (Some (\<lambda>_. 0)) zero_state)))
     = 0"
proof -
  let ?p = "logged_partition"
  let ?R = "flashlog_open (Some ?p) 12 (Some (\<lambda>_. 0)) zero_state"
  have "hdr_of_bytes (flash ?p) =
        hdr_of_bytes (bytes_of_hdr \<lparr>hdr_id = FLASHLOG_ID, hdr_datasize = 28, hdr_numslots = 128\<rparr>)"
    by (rule hdr_of_bytes_cong) (simp add: logged_partition_def)
  then have h: "hdr_of_bytes (flash ?p) =
        \<lparr>hdr_id = FLASHLOG_ID, hdr_datasize = 28, hdr_numslots = 128\<rparr>"
    by (simp add: hdr_roundtrip)
  have old: "seqno_at ?p 28 0 = 1"
    by (simp add: seqno_at_def logged_partition_def get_le32_def FLASHLOG_SLOT0_def)
  have ok: "fst ?R = Returned FLASHLOG_ERR_OK"
    using h
    by (intro open_fresh_returns_ok)
      (simp_all add: logged_partition_def entry_length_def ENTRY_HDR_SIZE_def u32_def s32_def)
  then have R: "?R = (Returned FLASHLOG_ERR_OK, fst (snd ?R), snd (snd ?R))"
    by (metis prod.collapse)
  have sz: "4096 \<le> psize ?p" "psize ?p < 2 ^ 32" "psize ?p = 8192"
    by (simp_all add: logged_partition_def)
  have hy: "hdr_id (hdr_of_bytes (flash ?p)) = FLASHLOG_ID"
    "hdr_datasize (hdr_of_bytes (flash ?p)) \<noteq> 12"
    using h by simp_all
  from open_other_size[OF R hy _ _ sz(1,2)] obtain p' where p': "snd (snd ?R) = Some p'"
    "\<forall>a. 16 \<le> a \<and> a < psize ?p \<longrightarrow> flash p' a = - 1"
    "hdr_of_bytes (flash p') =
       \<lparr>hdr_id = FLASHLOG_ID, hdr_datasize = 12, hdr_numslots = (psize ?p - 4096) div (12 + 4)\<rparr>"
    "\<forall>i\<in>{0..<numslots (fst (snd ?R))}. seqno_at p' 12 i = UINT32_MAX"
    "datasize (fst (snd ?R)) = 12" "numslots (fst (snd ?R)) = (psize ?p - 4096) div (12 + 4)"
    "numinuse (fst (snd ?R)) = 0"
    by auto
  from p'(2) sz have "flash p' 4096 = - 1" by simp
  moreover from p'(4,6) sz have "seqno_at p' 12 0 = UINT32_MAX" by simp
  ultimately show ?thesis using ok h old p' sz(3) by simp
qed

section \<open>Slots in the flash\<close>

lemma slot_byte_less:
  assumes "0 \<le> b" "b < l" 
  shows "(i * l + b < j * l) = (i < (j::int))"
proof
  assume "i < j"
  then have "i + 1 \<le> j" by simp
  then have "(i + 1) * l \<le> j * l" using assms by (intro mult_right_mono) auto
  then show "i * l + b < j * l" using assms by (simp add: algebra_simps)
next
  assume a: "i * l + b < j * l"
  show "i < j"
  proof (rule ccontr)
    assume "\<not> i < j"
    then have "j * l \<le> i * l" using assms by (intro mult_right_mono) auto
    with a assms show False by simp
  qed
qed

lemma slot_byte_le:
  assumes "0 \<le> b" "b < l"
  shows "(j * l \<le> i * l + b) = (j \<le> (i::int))"
  using slot_byte_less[OF assms, of i j] by auto

lemma seqno_at_bytes:
  assumes "\<And>b. 0 \<le> b \<Longrightarrow> b < 4 \<Longrightarrow> flash p' (4096 + i * (d + 4) + b) = flash p (4096 + i * (d + 4) + b)"
  shows "seqno_at p' d i = seqno_at p d i"
  unfolding seqno_at_def FLASHLOG_SLOT0_def ENTRY_HDR_SIZE_def
  using assms[of 0] assms[of 1] assms[of 2] assms[of 3]
  by (intro get_le32_cong) (simp_all add: add.assoc)

lemma seqno_at_erased:
  assumes "\<And>b. 0 \<le> b \<Longrightarrow> b < 4 \<Longrightarrow> flash p' (4096 + i * (d + 4) + b) = - 1"
  shows "seqno_at p' d i = UINT32_MAX"
  unfolding seqno_at_def FLASHLOG_SLOT0_def ENTRY_HDR_SIZE_def UINT32_MAX_def
  using assms[of 0] assms[of 1] assms[of 2] assms[of 3]
  by (intro get_le32_all_max) (simp_all add: add.assoc)

lemma erase_seqno_at:
  assumes l: "0 \<le> d" and k: "k * (d + 4) = 4096"
    and f: "flash p' = (\<lambda>a. if 4096 + t * (d + 4) \<le> a \<and> a < 4096 + t * (d + 4) + 4096
                            then - 1 else flash p a)"
  shows "seqno_at p' d i = (if t \<le> i \<and> i < t + k then UINT32_MAX else seqno_at p d i)"
proof -
  have in_block: "(4096 + t * (d + 4) \<le> 4096 + i * (d + 4) + b \<and>
         4096 + i * (d + 4) + b < 4096 + t * (d + 4) + 4096) = (t \<le> i \<and> i < t + k)"
    if "0 \<le> b" "b < 4" for b
  proof -
    have b: "0 \<le> b" "b < d + 4" using that l by auto
    have "(t + k) * (d + 4) = t * (d + 4) + 4096"
      using k by (simp add: distrib_right)
    then have "(4096 + i * (d + 4) + b < 4096 + t * (d + 4) + 4096) =
          (i * (d + 4) + b < (t + k) * (d + 4))"
      by arith
    also have "\<dots> = (i < t + k)" by (rule slot_byte_less[OF b])
    finally have hi: "(4096 + i * (d + 4) + b < 4096 + t * (d + 4) + 4096) = (i < t + k)" .
    have "(4096 + t * (d + 4) \<le> 4096 + i * (d + 4) + b) = (t * (d + 4) \<le> i * (d + 4) + b)"
      by simp
    also have "\<dots> = (t \<le> i)" by (rule slot_byte_le[OF b])
    finally show ?thesis using hi by simp
  qed
  show ?thesis
  proof (cases "t \<le> i \<and> i < t + k")
    case True
    have "flash p' (4096 + i * (d + 4) + b) = - 1" if "0 \<le> b" "b < 4" for b
      unfolding f using in_block[OF that] True by (intro if_P) blast
    then have "seqno_at p' d i = UINT32_MAX" by (rule seqno_at_erased)
    with True show ?thesis by simp
  next
    case False
    have "flash p' (4096 + i * (d + 4) + b) = flash p (4096 + i * (d + 4) + b)"
      if "0 \<le> b" "b < 4" for b
      unfolding f using in_block[OF that] False by (intro if_not_P) blast
    then have "seqno_at p' d i = seqno_at p d i" by (rule seqno_at_bytes)
    with False show ?thesis by auto
  qed
qed

lemma write_seqno_at:
  assumes l: "0 \<le> d"
    and f: "flash p' = (\<lambda>a. if 4096 + t * (d + 4) \<le> a \<and> a < 4096 + t * (d + 4) + (d + 4)
                            then flash p a AND src (a - (4096 + t * (d + 4))) else flash p a)"
  shows "seqno_at p' d i = (if i = t then seqno_at p d t AND get_le32 src 0 else seqno_at p d i)"
proof -
  have in_slot: "(4096 + t * (d + 4) \<le> 4096 + i * (d + 4) + b \<and>
         4096 + i * (d + 4) + b < 4096 + t * (d + 4) + (d + 4)) = (i = t)"
    if "0 \<le> b" "b < 4" for b
  proof -
    have b: "0 \<le> b" "b < d + 4" using that l by auto
    have "(t + 1) * (d + 4) = t * (d + 4) + (d + 4)"
      by (simp add: distrib_right)
    then have "(4096 + i * (d + 4) + b < 4096 + t * (d + 4) + (d + 4)) =
          (i * (d + 4) + b < (t + 1) * (d + 4))"
      by arith
    also have "\<dots> = (i < t + 1)" by (rule slot_byte_less[OF b])
    finally have hi: "(4096 + i * (d + 4) + b < 4096 + t * (d + 4) + (d + 4)) = (i < t + 1)" .
    have "(4096 + t * (d + 4) \<le> 4096 + i * (d + 4) + b) = (t * (d + 4) \<le> i * (d + 4) + b)"
      by simp
    also have "\<dots> = (t \<le> i)" by (rule slot_byte_le[OF b])
    finally show ?thesis using hi by auto
  qed
  show ?thesis
  proof (cases "i = t")
    case True
    have "flash p' (4096 + t * (d + 4) + b) = flash p (4096 + t * (d + 4) + b) AND src b"
      if "0 \<le> b" "b < 4" for b
    proof -
      have "flash p' (4096 + t * (d + 4) + b) =
            flash p (4096 + t * (d + 4) + b) AND src (4096 + t * (d + 4) + b - (4096 + t * (d + 4)))"
        unfolding f using in_slot[OF that] True by (intro if_P) blast
      then show ?thesis by simp
    qed
    from this[of 0] this[of 1] this[of 2] this[of 3]
    have "seqno_at p' d t = get_le32 (\<lambda>x. flash p (4096 + t * (d + 4) + x) AND src x) 0"
      unfolding seqno_at_def FLASHLOG_SLOT0_def ENTRY_HDR_SIZE_def
      by (intro get_le32_cong) (simp_all add: add.assoc)
    also have "\<dots> = get_le32 (\<lambda>x. flash p (4096 + t * (d + 4) + x)) 0 AND get_le32 src 0"
      by (rule get_le32_AND)
    also have "get_le32 (\<lambda>x. flash p (4096 + t * (d + 4) + x)) 0 = seqno_at p d t"
      unfolding seqno_at_def FLASHLOG_SLOT0_def ENTRY_HDR_SIZE_def
      by (intro get_le32_cong) (simp_all add: add.assoc)
    finally show ?thesis using True by simp
  next
    case False
    have "flash p' (4096 + i * (d + 4) + b) = flash p (4096 + i * (d + 4) + b)"
      if "0 \<le> b" "b < 4" for b
      unfolding f using in_slot[OF that] False by (intro if_not_P) blast
    then have "seqno_at p' d i = seqno_at p d i" by (rule seqno_at_bytes)
    with False show ?thesis by simp
  qed
qed

section \<open>Arithmetic of the ring\<close>

lemma arc_slot_cases:
  assumes "0 \<le> o'" "o' < n" "0 \<le> j" "j < (n::int)"
  shows "(o' + j) mod n = (if o' + j < n then o' + j else o' + j - n)"
  using assms by (intro int_mod_add) auto

lemma arc_index_cases:
  assumes "0 \<le> o'" "o' < n" "0 \<le> i" "i < (n::int)"
  shows "(i - o') mod n = (if o' \<le> i then i - o' else i - o' + n)"
  using assms by (intro int_mod_sub) auto

lemma arc_append:
  fixes f f' :: "int \<Rightarrow> 32 word"
  assumes n: "0 \<le> o'" "o' < n" "0 \<le> m" "m < n"
    and A: "\<And>i. 0 \<le> i \<Longrightarrow> i < n \<Longrightarrow> (f i \<noteq> - 1) = ((i - o') mod n < m)"
    and f': "\<And>i. f' i = (if i = (o' + m) mod n then v else f i)"
    and v: "v \<noteq> - 1"
    and i: "0 \<le> i" "i < n"
  shows "(f' i \<noteq> - 1) = ((i - o') mod n < m + 1)"
proof -
  have t: "(o' + m) mod n = (if o' + m < n then o' + m else o' + m - n)"
    using n by (intro arc_slot_cases) auto
  have x: "(i - o') mod n = (if o' \<le> i then i - o' else i - o' + n)"
    using n i by (intro arc_index_cases) auto
  show ?thesis
    using A[OF i] v n i unfolding f' t x by (auto split: if_splits)
qed

lemma arc_append_increasing:
  fixes f f' :: "int \<Rightarrow> 32 word"
  assumes n: "0 \<le> o'" "o' < n" "0 \<le> m" "m < n"
    and B: "\<And>j1 j2. 0 \<le> j1 \<Longrightarrow> j1 < j2 \<Longrightarrow> j2 < m \<Longrightarrow>
              f ((o' + j1) mod n) < f ((o' + j2) mod n)"
    and C: "\<And>j. 0 \<le> j \<Longrightarrow> j < m \<Longrightarrow> f ((o' + j) mod n) < v"
    and f': "\<And>i. f' i = (if i = (o' + m) mod n then v else f i)"
    and j: "0 \<le> j1" "j1 < j2" "j2 < m + 1"
  shows "f' ((o' + j1) mod n) < f' ((o' + j2) mod n)"
proof -
  have ne: "(o' + j) mod n \<noteq> (o' + m) mod n" if "0 \<le> j" "j < m" for j
    using arc_slot_cases[OF n(1,2) that(1), of ] arc_slot_cases[OF n(1,2,3,4)] that n
    by (auto split: if_splits)
  show ?thesis
  proof (cases "j2 = m")
    case True
    then show ?thesis using ne[of j1] C[of j1] j by (simp add: f')
  next
    case False
    then have "j2 < m" using j by simp
    then show ?thesis using ne[of j1] ne[of j2] B[of j1 j2] j by (simp add: f')
  qed
qed

lemma unit_fits:
  assumes "0 < k" "k dvd n" "k dvd o'" "o' < (n::int)"
  shows "o' + k \<le> n"
proof -
  from assms obtain a b where ab: "o' = k * a" "n = k * b" by (auto elim!: dvdE)
  with assms have "a < b" by (simp add: mult_less_cancel_left_pos)
  then have "a + 1 \<le> b" by simp
  then have "k * (a + 1) \<le> k * b" using assms(1) by (intro mult_left_mono) auto
  then show ?thesis using ab by (simp add: algebra_simps)
qed

lemma arc_evict:
  fixes f f' :: "int \<Rightarrow> 32 word"
  assumes k: "0 < k" "k dvd n" "k dvd o'" and n: "0 \<le> o'" "o' < n"
    and A: "\<And>i. 0 \<le> i \<Longrightarrow> i < n \<Longrightarrow> f i \<noteq> - 1"
    and f': "\<And>i. f' i = (if i = o' then v else if o' \<le> i \<and> i < o' + k then - 1 else f i)"
    and v: "v \<noteq> - 1"
    and i: "0 \<le> i" "i < n"
  shows "(f' i \<noteq> - 1) = ((i - (o' + k) mod n) mod n < n - k + 1)"
proof -
  have fit: "o' + k \<le> n" using k n by (intro unit_fits) auto
  define o2 where "o2 = (o' + k) mod n"
  have o2: "o2 = (if o' + k < n then o' + k else 0)"
    unfolding o2_def using fit n k int_mod_add[of "o' + k" n] by auto
  have r: "0 \<le> o2" "o2 < n" unfolding o2_def using n by auto
  have x: "(i - o2) mod n = (if o2 \<le> i then i - o2 else i - o2 + n)"
    using r i by (intro arc_index_cases) auto
  have "(f' i \<noteq> - 1) = ((i - o2) mod n < n - k + 1)"
    using A[OF i] v n i k fit unfolding f' x by (auto simp: o2 split: if_splits)
  then show ?thesis by (simp add: o2_def)
qed

lemma arc_evict_increasing:
  fixes f f' :: "int \<Rightarrow> 32 word"
  assumes k: "0 < k" "k dvd n" "k dvd o'" and n: "0 \<le> o'" "o' < n"
    and B: "\<And>j1 j2. 0 \<le> j1 \<Longrightarrow> j1 < j2 \<Longrightarrow> j2 < n \<Longrightarrow>
              f ((o' + j1) mod n) < f ((o' + j2) mod n)"
    and C: "\<And>j. 0 \<le> j \<Longrightarrow> j < n \<Longrightarrow> f ((o' + j) mod n) < v"
    and f': "\<And>i. f' i = (if i = o' then v else if o' \<le> i \<and> i < o' + k then - 1 else f i)"
    and j: "0 \<le> j1" "j1 < j2" "j2 < n - k + 1"
  shows "f' (((o' + k) mod n + j1) mod n) < f' (((o' + k) mod n + j2) mod n)"
proof -
  have fit: "o' + k \<le> n" using k n by (intro unit_fits) auto
  have sh: "((o' + k) mod n + j) mod n = (o' + (k + j)) mod n" for j
    by (simp add: mod_add_left_eq add.assoc)
  have kept: "f' ((o' + (k + j)) mod n) = f ((o' + (k + j)) mod n)" if "0 \<le> j" "j < n - k" for j
  proof -
    have "(o' + (k + j)) mod n = (if o' + (k + j) < n then o' + (k + j) else o' + (k + j) - n)"
      using n k that by (intro arc_slot_cases) auto
    then show ?thesis using that n k by (auto simp: f' split: if_splits)
  qed
  have last: "(o' + (k + (n - k))) mod n = o'" using n by simp
  show ?thesis
  proof (cases "j2 = n - k")
    case True
    have "f' ((o' + (k + j1)) mod n) = f ((o' + (k + j1)) mod n)" using j True by (intro kept) auto
    moreover have "f' ((o' + (k + j2)) mod n) = v" unfolding True last by (simp add: f')
    moreover have "f ((o' + (k + j1)) mod n) < v" using j k True by (intro C) auto
    ultimately show ?thesis by (simp add: sh)
  next
    case False
    then have lt: "j2 < n - k" using j by simp
    have "f' ((o' + (k + j1)) mod n) = f ((o' + (k + j1)) mod n)" using j lt by (intro kept) auto
    moreover have "f' ((o' + (k + j2)) mod n) = f ((o' + (k + j2)) mod n)"
      using j lt by (intro kept) auto
    moreover have "f ((o' + (k + j1)) mod n) < f ((o' + (k + j2)) mod n)"
      using j k lt by (intro B) auto
    ultimately show ?thesis by (simp add: sh)
  qed
qed

section \<open>Adding an entry\<close>

lemma geometry_facts:
  assumes "geometry_ok s p"
  defines "l \<equiv> datasize s + 4" and "k \<equiv> entries_per_unit s" and "n \<equiv> numslots s"
  shows "4 \<le> l" "l \<le> 4096" "k * l = 4096" "0 < k" "k dvd n" "k \<le> n" "0 < n"
    "n * l = psize p - 4096" "n < 2 ^ 31" "k \<le> 1024"
proof -
  from assms have d: "0 \<le> datasize s" and dv: "l dvd 4096" and pd: "4096 dvd psize p"
    and ps: "8192 \<le> psize p" "psize p < 2 ^ 31"
    and nn: "n = (psize p - 4096) div l"
    by (simp_all add: geometry_ok_def ENTRY_HDR_SIZE_def FLASHLOG_SLOT0_def)
  show l4: "4 \<le> l" using d by (simp add: l_def)
  show l2: "l \<le> 4096" using dv by (intro zdvd_imp_le) auto
  have kd: "k = 4096 div l" by (simp add: k_def l_def entries_per_unit_def ENTRY_HDR_SIZE_def)
  show kl: "k * l = 4096" using dv kd by simp
  show k0: "0 < k" using kl l4 by (smt (verit) mult_nonpos_nonneg zero_less_mult_iff)
  from pd obtain q where q: "psize p = 4096 * q" by (auto elim: dvdE)
  with ps have q2: "2 \<le> q" by simp
  have "psize p - 4096 = (k * (q - 1)) * l" using q kl by (simp add: algebra_simps)
  then have n: "n = k * (q - 1)" using nn l4 by simp
  then show "k dvd n" by simp
  show kn: "k \<le> n" using n q2 k0 by (simp add: )
  then show "0 < n" using k0 by simp
  have "n * l = (k * l) * (q - 1)" unfolding n by (simp add: ac_simps)
  also have "\<dots> = psize p - 4096" unfolding kl q by simp
  finally show "n * l = psize p - 4096" .
  have "n \<le> (psize p - 4096) div 4" unfolding nn using ps l4 by (intro zdiv_mono2) auto
  then show "n < 2 ^ 31" using ps by simp
  have "k \<le> 4096 div 4" unfolding kd using l4 by (intro zdiv_mono2) auto
  then show "k \<le> 1024" by simp
qed

lemma geometry_offsets:
  assumes "geometry_ok s p" "0 \<le> i" "i \<le> numslots s"
  shows "slot_offset i (datasize s) = 4096 + i * (datasize s + 4)"
    and "u32 (4096 + i * (datasize s + 4)) = 4096 + i * (datasize s + 4)"
    and "4096 + i * (datasize s + 4) \<le> psize p"
proof -
  note g = geometry_facts[OF assms(1)]
  from assms(1) have ps: "psize p < 2 ^ 31" by (simp add: geometry_ok_def)
  have "i * (datasize s + 4) \<le> numslots s * (datasize s + 4)"
    using assms g(1) by (intro mult_right_mono) auto
  then show le: "4096 + i * (datasize s + 4) \<le> psize p" using g(8) by simp
  have "0 \<le> i * (datasize s + 4)" using assms g(1) by simp
  then have r: "0 \<le> 4096 + i * (datasize s + 4)" "4096 + i * (datasize s + 4) < 2 ^ 31"
    using le ps by auto
  then show "u32 (4096 + i * (datasize s + 4)) = 4096 + i * (datasize s + 4)"
    by (intro u32_id) auto
  then show "slot_offset i (datasize s) = 4096 + i * (datasize s + 4)"
    using r by (simp add: slot_offset_def FLASHLOG_SLOT0_def ENTRY_HDR_SIZE_def s32_id)
qed

lemma geometry_length:
  assumes "geometry_ok s p"
  shows "entry_length (datasize s) = datasize s + 4"
    and "u32 (datasize s + 4) = datasize s + 4"
    and "c_div 4096 (datasize s + 4) = entries_per_unit s"
proof -
  note g = geometry_facts[OF assms(1)]
  show u: "u32 (datasize s + 4) = datasize s + 4" using g(1,2) by (intro u32_id) auto
  then show "entry_length (datasize s) = datasize s + 4"
    using g(1,2) by (simp add: entry_length_def ENTRY_HDR_SIZE_def s32_id)
  show "c_div 4096 (datasize s + 4) = entries_per_unit s"
    using g(1) by (simp add: c_div_def entries_per_unit_def ENTRY_HDR_SIZE_def)
qed

lemma add_advance_fields:
  assumes "arc_ok s" "numslots s < 2 ^ 31"
  shows "add_advance s =
         s\<lparr>newest := (if 0 < numinuse s then (newest s + 1) mod numslots s else newest s)\<rparr>"
proof -
  have "s32 (newest s + 1) = newest s + 1" using assms by (intro s32_id) (auto simp: arc_ok_def)
  moreover have "(newest s + 1) mod numslots s =
      (if newest s + 1 < numslots s then newest s + 1 else 0)"
    using assms int_mod_add[of "newest s + 1" "numslots s"] by (auto simp: arc_ok_def)
  ultimately show ?thesis by (simp add: add_advance_def Let_def)
qed

lemma flashlog_add_via:
  assumes "entrybuf s = Some buf"
    and "add_evict (slot_offset (newest (add_advance s)) (datasize (add_advance s)))
           (entry_length (datasize (add_advance s))) (add_advance s) p = (st, s1, p1)"
  shows "flashlog_add s p =
     (case st of Some r \<Rightarrow> (r, s1, p1)
      | None \<Rightarrow> add_store (slot_offset (newest (add_advance s)) (datasize (add_advance s)))
           (entry_length (datasize (add_advance s))) buf s1 p1)"
  using assms by (simp add: flashlog_add_def Let_def)

lemma add_store_fields:
  "fst (add_store off len buf s p) =
     (if fst (driver_result p) \<noteq> ESP_OK then Returned FLASHLOG_ERR_WRITEERR
      else Returned FLASHLOG_ERR_OK)"
  "fst (snd (add_store off len buf s p)) =
     s\<lparr>highest_seqno := highest_seqno s + 1,
       entrybuf := Some (put_le32 buf 0 (highest_seqno s + 1)),
       numinuse := s32 (numinuse s + 1), partition_err := fst (driver_result p)\<rparr>"
  "psize (snd (snd (add_store off len buf s p))) = psize p"
  "flash (snd (snd (add_store off len buf s p))) =
     (if fst (driver_result p) = ESP_OK
      then (\<lambda>a. if u32 off \<le> a \<and> a < u32 off + u32 len
                then flash p a AND put_le32 buf 0 (highest_seqno s + 1) (a - u32 off)
                else flash p a)
      else flash p)"
  "pending (snd (snd (add_store off len buf s p))) = tl (pending p)"
  by (simp_all add: add_store_def Let_def split_beta write_fst write_flash write_pending)

lemma add_evict_fields:
  assumes "len \<noteq> 0"
  shows "fst (add_evict off len s p) =
     (if numinuse s = numslots s \<and> fst (driver_result p) \<noteq> ESP_OK
      then Some (Returned FLASHLOG_ERR_ERASEERR) else None)"
  "numinuse s \<noteq> numslots s \<Longrightarrow> snd (add_evict off len s p) = (s, p)"
  "numinuse s = numslots s \<Longrightarrow> fst (driver_result p) \<noteq> ESP_OK \<Longrightarrow>
     snd (add_evict off len s p) = (s\<lparr>partition_err := fst (driver_result p)\<rparr>, snd (driver_result p))"
  "numinuse s = numslots s \<Longrightarrow> fst (driver_result p) = ESP_OK \<Longrightarrow>
     fst (snd (add_evict off len s p)) =
       s\<lparr>partition_err := ESP_OK, numinuse := s32 (numinuse s - c_div 4096 len),
         oldest := (if s32 (oldest s + c_div 4096 len) \<ge> numslots s
                    then s32 (s32 (oldest s + c_div 4096 len) - numslots s)
                    else s32 (oldest s + c_div 4096 len))\<rparr>"
  "numinuse s = numslots s \<Longrightarrow> fst (driver_result p) = ESP_OK \<Longrightarrow>
     flash (snd (snd (add_evict off len s p))) =
       (\<lambda>a. if u32 off \<le> a \<and> a < u32 off + 4096 then - 1 else flash p a)"
  "psize (snd (snd (add_evict off len s p))) = psize p"
  "numinuse s = numslots s \<Longrightarrow>
     pending (snd (snd (add_evict off len s p))) = tl (pending p)"
  using assms
  by (simp_all add: add_evict_def Let_def split_beta erase_fst erase_flash erase_pending
      esp_partition_erase_range_def driver_result_pending)

lemma log_inv_parts:
  assumes "log_inv s p"
  shows "geometry_ok s p" "arc_ok s" "I1 s p" "I3 s p" "entries_per_unit s dvd oldest s"
    "numinuse s = 0 \<Longrightarrow> oldest s = 0 \<and> newest s = 0 \<and> highest_seqno s = 0"
    "0 < numinuse s \<Longrightarrow> highest_seqno s = seqno_at p (datasize s) (newest s)"
    "\<And>i. 0 \<le> i \<Longrightarrow> i < numslots s \<Longrightarrow> seqno_at p (datasize s) i \<noteq> 0"
    "\<And>i. 0 \<le> i \<Longrightarrow> i < numslots s \<Longrightarrow>
       (seqno_at p (datasize s) i \<noteq> - 1) = ((i - oldest s) mod numslots s < numinuse s)"
  using assms by (auto simp: log_inv_def I1_def on_arc_def UINT32_MAX_def)

lemma arc_ok_parts:
  assumes "arc_ok s"
  shows "0 \<le> numinuse s" "numinuse s \<le> numslots s" "0 \<le> oldest s" "oldest s < numslots s"
    "0 \<le> newest s" "newest s < numslots s"
    "0 < numinuse s \<Longrightarrow> newest s = (oldest s + numinuse s - 1) mod numslots s"
  using assms by (auto simp: arc_ok_def)

lemma arc_length_numinuse:
  assumes "arc_ok s"
  shows "arc_length s = numinuse s"
proof (cases "numinuse s = 0")
  case True
  then show ?thesis by (simp add: arc_length_def)
next
  case False
  note a = arc_ok_parts[OF assms]
  from False a have pos: "0 < numinuse s" by simp
  have "(newest s - oldest s) mod numslots s
        = ((oldest s + numinuse s - 1) mod numslots s - oldest s) mod numslots s"
    using a(7)[OF pos] by simp
  also have "\<dots> = (oldest s + numinuse s - 1 - oldest s) mod numslots s"
    by (simp add: mod_diff_left_eq)
  also have "\<dots> = numinuse s - 1" using a pos by (simp add: mod_pos_pos_trivial)
  finally show ?thesis using False by (simp add: arc_length_def)
qed

lemma I3_increasing:
  assumes "I3 s p" "arc_ok s" "0 \<le> j1" "j1 < j2" "j2 < numinuse s"
  shows "seqno_at p (datasize s) ((oldest s + j1) mod numslots s)
         < seqno_at p (datasize s) ((oldest s + j2) mod numslots s)"
  using assms by (auto simp: I3_def arc_length_numinuse arc_slot_def)

lemma I3_intro:
  assumes "arc_ok s"
    and "\<And>j1 j2. 0 \<le> j1 \<Longrightarrow> j1 < j2 \<Longrightarrow> j2 < numinuse s \<Longrightarrow>
      seqno_at p (datasize s) ((oldest s + j1) mod numslots s)
         < seqno_at p (datasize s) ((oldest s + j2) mod numslots s)"
  shows "I3 s p"
  using assms by (auto simp: I3_def arc_length_numinuse arc_slot_def)

lemma arc_below_highest:
  assumes "log_inv s p" "0 \<le> j" "j < numinuse s"
  shows "seqno_at p (datasize s) ((oldest s + j) mod numslots s) \<le> highest_seqno s"
proof -
  note i = log_inv_parts[OF assms(1)]
  from assms have pos: "0 < numinuse s" by simp
  have h: "highest_seqno s
      = seqno_at p (datasize s) ((oldest s + (numinuse s - 1)) mod numslots s)"
    using i(7)[OF pos] arc_ok_parts(7)[OF i(2) pos] by (simp add: algebra_simps)
  show ?thesis
  proof (cases "j = numinuse s - 1")
    case True
    then show ?thesis using h by simp
  next
    case False
    then have "j < numinuse s - 1" using assms by simp
    then have "seqno_at p (datasize s) ((oldest s + j) mod numslots s)
       < seqno_at p (datasize s) ((oldest s + (numinuse s - 1)) mod numslots s)"
      using assms by (intro I3_increasing[OF i(4) i(2)]) auto
    then show ?thesis using h by simp
  qed
qed

lemma add_target:
  assumes "log_inv s p"
  shows "(if 0 < numinuse s then (newest s + 1) mod numslots s else newest s)
         = (oldest s + numinuse s) mod numslots s"
proof (cases "0 < numinuse s")
  case True
  note i = log_inv_parts[OF assms(1)]
  have "(newest s + 1) mod numslots s
      = ((oldest s + numinuse s - 1) mod numslots s + 1) mod numslots s"
    using arc_ok_parts(7)[OF i(2) True] by simp
  also have "\<dots> = (oldest s + numinuse s - 1 + 1) mod numslots s"
    by (simp add: mod_add_left_eq)
  finally show ?thesis using True by simp
next
  case False
  note i = log_inv_parts[OF assms(1)]
  from False arc_ok_parts[OF i(2)] have z: "numinuse s = 0" by simp
  with i(6) geometry_facts(7)[OF i(1)] show ?thesis by simp
qed

lemma add_advance_inv:
  assumes "log_inv s p"
  shows "add_advance s = s\<lparr>newest := (oldest s + numinuse s) mod numslots s\<rparr>"
proof -
  note i = log_inv_parts[OF assms]
  show ?thesis
    using add_advance_fields[OF i(2) geometry_facts(9)[OF i(1)]] add_target[OF assms] by simp
qed

lemma add_target_range:
  assumes "log_inv s p"
  shows "0 \<le> (oldest s + numinuse s) mod numslots s"
    "(oldest s + numinuse s) mod numslots s < numslots s"
  using geometry_facts(7)[OF log_inv_parts(1)[OF assms]] by auto

text \<open>What \<open>flashlog_add\<close> does to a log that is not full.\<close>
lemma add_not_full:
  assumes inv: "log_inv s p" and buf: "entrybuf s = Some buf"
    and nf: "numinuse s \<noteq> numslots s"
    and res: "flashlog_add s p = (r, s', p')"
  defines "t \<equiv> (oldest s + numinuse s) mod numslots s"
  shows "r = (if fst (driver_result p) \<noteq> ESP_OK then Returned FLASHLOG_ERR_WRITEERR
              else Returned FLASHLOG_ERR_OK)"
    and "s' = s\<lparr>newest := t, highest_seqno := highest_seqno s + 1,
               entrybuf := Some (put_le32 buf 0 (highest_seqno s + 1)),
               numinuse := numinuse s + 1, partition_err := fst (driver_result p)\<rparr>"
    and "psize p' = psize p"
    and "flash p' =
     (if fst (driver_result p) = ESP_OK
      then (\<lambda>a. if 4096 + t * (datasize s + 4) \<le> a \<and>
                   a < 4096 + t * (datasize s + 4) + (datasize s + 4)
                then flash p a AND put_le32 buf 0 (highest_seqno s + 1)
                       (a - (4096 + t * (datasize s + 4)))
                else flash p a)
      else flash p)"
proof -
  note i = log_inv_parts[OF inv]
  note a = arc_ok_parts[OF i(2)]
  note g = geometry_facts[OF i(1)]
  let ?a = "s\<lparr>newest := t\<rparr>"
  have adv: "add_advance s = ?a" unfolding t_def by (rule add_advance_inv[OF inv])
  have tr: "0 \<le> t" "t \<le> numslots s" unfolding t_def using add_target_range[OF inv] by auto
  have off: "slot_offset t (datasize s) = 4096 + t * (datasize s + 4)"
    "u32 (4096 + t * (datasize s + 4)) = 4096 + t * (datasize s + 4)"
    using geometry_offsets[OF i(1) tr] by auto
  note len = geometry_length[OF i(1)]
  have l0: "datasize s + 4 \<noteq> 0" using g(1) by auto
  have ev: "add_evict (slot_offset (newest ?a) (datasize ?a)) (entry_length (datasize ?a)) ?a p
            = (None, ?a, p)"
    using nf add_evict_fields(1,2)[where len="datasize s + 4" and s="?a" and p=p] l0
    by (simp add: len prod_eq_iff)
  have run: "flashlog_add s p =
     add_store (4096 + t * (datasize s + 4)) (datasize s + 4) buf ?a p"
    using flashlog_add_via[OF buf ev[folded adv]] by (simp add: adv off len)
  have m1: "s32 (numinuse s + 1) = numinuse s + 1" using a(1,2) nf g(9) by (intro s32_id) auto
  from res run have R: "add_store (4096 + t * (datasize s + 4)) (datasize s + 4) buf ?a p
      = (r, s', p')" by simp
  note f = add_store_fields[where off="4096 + t * (datasize s + 4)" and len="datasize s + 4"
      and buf=buf and s="?a" and p=p,
      unfolded R, simplified]
  show "r = (if fst (driver_result p) \<noteq> ESP_OK then Returned FLASHLOG_ERR_WRITEERR
              else Returned FLASHLOG_ERR_OK)" using f(1) by simp
  show "s' = s\<lparr>newest := t, highest_seqno := highest_seqno s + 1,
               entrybuf := Some (put_le32 buf 0 (highest_seqno s + 1)),
               numinuse := numinuse s + 1, partition_err := fst (driver_result p)\<rparr>"
    using f(2) m1 by simp
  show "psize p' = psize p" using f(3) by simp
  show "flash p' =
     (if fst (driver_result p) = ESP_OK
      then (\<lambda>a. if 4096 + t * (datasize s + 4) \<le> a \<and>
                   a < 4096 + t * (datasize s + 4) + (datasize s + 4)
                then flash p a AND put_le32 buf 0 (highest_seqno s + 1)
                       (a - (4096 + t * (datasize s + 4)))
                else flash p a)
      else flash p)" using f(4) by (simp add: off len cong: if_cong)
qed

text \<open>What \<open>flashlog_add\<close> does to a full log.\<close>
lemma add_full:
  assumes inv: "log_inv s p" and buf: "entrybuf s = Some buf"
    and full: "numinuse s = numslots s"
    and res: "flashlog_add s p = (r, s', p')"
  defines "off \<equiv> 4096 + oldest s * (datasize s + 4)"
  shows "r = Returned FLASHLOG_ERR_ERASEERR \<or> r = Returned FLASHLOG_ERR_WRITEERR \<or>
         r = Returned FLASHLOG_ERR_OK"
    and "psize p' = psize p"
    and "r = Returned FLASHLOG_ERR_ERASEERR \<Longrightarrow>
         s' = s\<lparr>newest := oldest s, partition_err := partition_err s'\<rparr> \<and> flash p' = flash p"
    and "r \<noteq> Returned FLASHLOG_ERR_ERASEERR \<Longrightarrow>
         s' = s\<lparr>newest := oldest s, numinuse := numslots s - entries_per_unit s + 1,
                oldest := (oldest s + entries_per_unit s) mod numslots s,
                highest_seqno := highest_seqno s + 1,
                entrybuf := Some (put_le32 buf 0 (highest_seqno s + 1)),
                partition_err := partition_err s'\<rparr>"
    and "r = Returned FLASHLOG_ERR_WRITEERR \<Longrightarrow>
         flash p' = (\<lambda>a. if off \<le> a \<and> a < off + 4096 then - 1 else flash p a)"
    and "r = Returned FLASHLOG_ERR_OK \<Longrightarrow>
         flash p' = (\<lambda>a. if off \<le> a \<and> a < off + (datasize s + 4)
                         then put_le32 buf 0 (highest_seqno s + 1) (a - off)
                         else if off \<le> a \<and> a < off + 4096 then - 1 else flash p a)"
proof -
  note i = log_inv_parts[OF inv]
  note a = arc_ok_parts[OF i(2)]
  note g = geometry_facts[OF i(1)]
  let ?k = "entries_per_unit s" and ?n = "numslots s" and ?l = "datasize s + 4"
  have t: "(oldest s + numinuse s) mod numslots s = oldest s"
    using full a by (simp add: mod_pos_pos_trivial)
  let ?a = "s\<lparr>newest := oldest s\<rparr>"
  have adv: "add_advance s = ?a" using add_advance_inv[OF inv] t by simp
  have tr: "0 \<le> oldest s" "oldest s \<le> numslots s" using a by auto
  have offs: "slot_offset (oldest s) (datasize s) = off" "u32 off = off"
    unfolding off_def using geometry_offsets[OF i(1) tr] by auto
  note len = geometry_length[OF i(1)]
  have l0: "?l \<noteq> 0" using g(1) by auto
  have fit: "oldest s + ?k \<le> ?n" using g(4,5) i(5) a(4) by (intro unit_fits) auto
  have o2: "(oldest s + ?k) mod ?n = (if oldest s + ?k \<ge> ?n then 0 else oldest s + ?k)"
    using fit a g(4) int_mod_add[of "oldest s + ?k" ?n] by auto
  have s32s: "s32 (?n - ?k) = ?n - ?k" "s32 (oldest s + ?k) = oldest s + ?k"
    "s32 (oldest s + ?k - ?n) = oldest s + ?k - ?n" "s32 (?n - ?k + 1) = ?n - ?k + 1"
    using fit a g(4,6,9) by (auto intro!: s32_id)
  let ?ev = "add_evict off ?l ?a p"
  note ef = add_evict_fields[where len="?l" and off=off and s="?a" and p=p, OF l0, simplified]
  have via: "flashlog_add s p =
     (case fst ?ev of Some r \<Rightarrow> (r, fst (snd ?ev), snd (snd ?ev))
      | None \<Rightarrow> add_store off ?l buf (fst (snd ?ev)) (snd (snd ?ev)))"
    using flashlog_add_via[OF buf, where st="fst ?ev" and ?s1.0="fst (snd ?ev)"
        and ?p1.0="snd (snd ?ev)" and p=p]
    by (simp add: adv offs len cong: option.case_cong)
  show "psize p' = psize p"
    using res via ef(6) add_store_fields(3)[of off ?l buf "fst (snd ?ev)" "snd (snd ?ev)"]
    by (auto split: option.splits simp: prod_eq_iff)
  show "r = Returned FLASHLOG_ERR_ERASEERR \<or> r = Returned FLASHLOG_ERR_WRITEERR \<or>
         r = Returned FLASHLOG_ERR_OK"
    using res via ef(1) add_store_fields(1)[of off ?l buf "fst (snd ?ev)" "snd (snd ?ev)"]
    by (auto split: option.splits if_splits simp: prod_eq_iff)
  show "s' = s\<lparr>newest := oldest s, partition_err := partition_err s'\<rparr> \<and> flash p' = flash p"
    if "r = Returned FLASHLOG_ERR_ERASEERR"
  proof (cases "fst (driver_result p) = ESP_OK")
    case True
    then have "fst ?ev = None" using ef(1) by simp
    with via res that add_store_fields(1)[of off ?l buf "fst (snd ?ev)" "snd (snd ?ev)"]
    show ?thesis by (auto simp: prod_eq_iff split: if_splits)
  next
    case False
    then have "?ev = (Some (Returned FLASHLOG_ERR_ERASEERR),
        ?a\<lparr>partition_err := fst (driver_result p)\<rparr>, snd (driver_result p))"
      using ef(1,3) full by (simp add: prod_eq_iff)
    with via res show ?thesis by auto
  qed
  have rest: "s' = s\<lparr>newest := oldest s, numinuse := numslots s - entries_per_unit s + 1,
                oldest := (oldest s + entries_per_unit s) mod numslots s,
                highest_seqno := highest_seqno s + 1,
                entrybuf := Some (put_le32 buf 0 (highest_seqno s + 1)),
                partition_err := partition_err s'\<rparr> \<and>
      (r = Returned FLASHLOG_ERR_WRITEERR \<longrightarrow>
         flash p' = (\<lambda>a. if off \<le> a \<and> a < off + 4096 then - 1 else flash p a)) \<and>
      (r = Returned FLASHLOG_ERR_OK \<longrightarrow>
         flash p' = (\<lambda>a. if off \<le> a \<and> a < off + (datasize s + 4)
                         then put_le32 buf 0 (highest_seqno s + 1) (a - off)
                         else if off \<le> a \<and> a < off + 4096 then - 1 else flash p a))"
    if ne: "r \<noteq> Returned FLASHLOG_ERR_ERASEERR"
  proof -
    have ok1: "fst (driver_result p) = ESP_OK"
    proof (rule ccontr)
      assume "fst (driver_result p) \<noteq> ESP_OK"
      then have "fst ?ev = Some (Returned FLASHLOG_ERR_ERASEERR)" using ef(1) full by simp
      with via res ne show False by auto
    qed
    then have none: "fst ?ev = None" using ef(1) by simp
    have s1: "fst (snd ?ev) = s\<lparr>newest := oldest s, partition_err := ESP_OK,
        numinuse := ?n - ?k, oldest := (oldest s + ?k) mod ?n\<rparr>"
      using ef(4) full ok1 fit s32_id[of 0] by (auto simp: len s32s o2 cong: if_cong)
    have f1: "flash (snd (snd ?ev)) = (\<lambda>a. if off \<le> a \<and> a < off + 4096 then - 1 else flash p a)"
      using ef(5) full ok1 by (simp add: offs)
    from via none res have R: "add_store off ?l buf (fst (snd ?ev)) (snd (snd ?ev)) = (r, s', p')"
      by simp
    note sf = add_store_fields[of off ?l buf "fst (snd ?ev)" "snd (snd ?ev)", unfolded R, simplified]
    have A: "s' = s\<lparr>newest := oldest s, numinuse := numslots s - entries_per_unit s + 1,
                  oldest := (oldest s + entries_per_unit s) mod numslots s,
                  highest_seqno := highest_seqno s + 1,
                  entrybuf := Some (put_le32 buf 0 (highest_seqno s + 1)),
                  partition_err := partition_err s'\<rparr>"
      using sf(2) by (simp add: s1 s32s)
    have B: "flash p' = (\<lambda>a. if off \<le> a \<and> a < off + 4096 then - 1 else flash p a)"
      if "r = Returned FLASHLOG_ERR_WRITEERR"
      using sf(1,4) that f1 by (auto split: if_splits)
    have C: "flash p' = (\<lambda>a. if off \<le> a \<and> a < off + (datasize s + 4)
                           then put_le32 buf 0 (highest_seqno s + 1) (a - off)
                           else if off \<le> a \<and> a < off + 4096 then - 1 else flash p a)"
      if "r = Returned FLASHLOG_ERR_OK"
    proof -
      have ok2: "fst (driver_result (snd (snd ?ev))) = ESP_OK"
        using sf(1) that by (auto split: if_splits)
      have "off + ?l \<le> off + 4096" using g(2) by simp
      then show ?thesis
        using sf(4) ok2 by (auto simp: f1 s1 offs len fun_eq_iff)
    qed
    from A B C show ?thesis by blast
  qed
  from rest show "r \<noteq> Returned FLASHLOG_ERR_ERASEERR \<Longrightarrow>
         s' = s\<lparr>newest := oldest s, numinuse := numslots s - entries_per_unit s + 1,
                oldest := (oldest s + entries_per_unit s) mod numslots s,
                highest_seqno := highest_seqno s + 1,
                entrybuf := Some (put_le32 buf 0 (highest_seqno s + 1)),
                partition_err := partition_err s'\<rparr>" by blast
  from rest show "r = Returned FLASHLOG_ERR_WRITEERR \<Longrightarrow>
         flash p' = (\<lambda>a. if off \<le> a \<and> a < off + 4096 then - 1 else flash p a)" by blast
  from rest show "r = Returned FLASHLOG_ERR_OK \<Longrightarrow>
         flash p' = (\<lambda>a. if off \<le> a \<and> a < off + (datasize s + 4)
                         then put_le32 buf 0 (highest_seqno s + 1) (a - off)
                         else if off \<le> a \<and> a < off + 4096 then - 1 else flash p a)" by blast
qed

lemma full_target:
  assumes "arc_ok s" "numinuse s = numslots s"
  shows "(oldest s + numinuse s) mod numslots s = oldest s"
  using assms arc_ok_parts[OF assms(1)] by (simp add: mod_pos_pos_trivial)

lemma add_ok_slots:
  assumes inv: "log_inv s p" and buf: "entrybuf s = Some buf"
    and res: "flashlog_add s p = (Returned FLASHLOG_ERR_OK, s', p')"
  shows "seqno_at p' (datasize s) i =
     (if i = (oldest s + numinuse s) mod numslots s then highest_seqno s + 1
      else if numinuse s = numslots s \<and> oldest s \<le> i \<and> i < oldest s + entries_per_unit s
      then - 1 else seqno_at p (datasize s) i)"
proof -
  note iv = log_inv_parts[OF inv]
  note a = arc_ok_parts[OF iv(2)]
  note g = geometry_facts[OF iv(1)]
  let ?d = "datasize s" and ?v = "highest_seqno s + 1"
  let ?t = "(oldest s + numinuse s) mod numslots s"
  have d0: "0 \<le> ?d" using iv(1) by (simp add: geometry_ok_def)
  have v: "get_le32 (put_le32 buf 0 ?v) 0 = ?v" by (rule get_le32_put_le32)
  show ?thesis
  proof (cases "numinuse s = numslots s")
    case False
    note nf = add_not_full[OF inv buf False res]
    have ok: "fst (driver_result p) = ESP_OK" using nf(1) by (auto split: if_splits)
    have tr: "0 \<le> ?t" "?t < numslots s" using add_target_range[OF inv] by auto
    have "(?t - oldest s) mod numslots s = numinuse s mod numslots s"
      by (simp add: mod_diff_left_eq)
    also have "\<dots> = numinuse s" using a False by (simp add: mod_pos_pos_trivial)
    finally have "seqno_at p ?d ?t = - 1" using iv(9)[OF tr] by simp
    then show ?thesis
      using write_seqno_at[OF d0, of p' ?t p "put_le32 buf 0 ?v" i] nf(4) ok False v by simp
  next
    case True
    note fl = add_full[OF inv buf True res]
    let ?off = "4096 + oldest s * (?d + 4)"
    let ?pe = "p\<lparr>flash := (\<lambda>a. if ?off \<le> a \<and> a < ?off + 4096 then - 1 else flash p a)\<rparr>"
    have t: "?t = oldest s" using full_target[OF iv(2) True] .
    have le: "?off + (?d + 4) \<le> ?off + 4096" using g(2) by simp
    have fp: "flash p' = (\<lambda>a. if ?off \<le> a \<and> a < ?off + (?d + 4)
                            then flash ?pe a AND put_le32 buf 0 ?v (a - ?off) else flash ?pe a)"
      using fl(6) le by (auto simp: fun_eq_iff)
    have e: "seqno_at ?pe ?d j =
       (if oldest s \<le> j \<and> j < oldest s + entries_per_unit s then UINT32_MAX else seqno_at p ?d j)"
      for j
      by (rule erase_seqno_at[OF d0 g(3)]) simp
    have "seqno_at p' ?d i =
        (if i = oldest s then seqno_at ?pe ?d (oldest s) AND get_le32 (put_le32 buf 0 ?v) 0
         else seqno_at ?pe ?d i)"
      by (rule write_seqno_at[OF d0 fp])
    then show ?thesis using e g(4) True t v by (simp add: UINT32_MAX_def)
  qed
qed

lemma add_writeerr_slots:
  assumes inv: "log_inv s p" and buf: "entrybuf s = Some buf"
    and res: "flashlog_add s p = (Returned FLASHLOG_ERR_WRITEERR, s', p')"
  shows "seqno_at p' (datasize s) i =
     (if numinuse s = numslots s \<and> oldest s \<le> i \<and> i < oldest s + entries_per_unit s
      then - 1 else seqno_at p (datasize s) i)"
proof -
  note iv = log_inv_parts[OF inv]
  note g = geometry_facts[OF iv(1)]
  let ?d = "datasize s"
  have d0: "0 \<le> ?d" using iv(1) by (simp add: geometry_ok_def)
  show ?thesis
  proof (cases "numinuse s = numslots s")
    case False
    note nf = add_not_full[OF inv buf False res]
    have "flash p' = flash p" using nf(1,4) by (auto split: if_splits)
    then show ?thesis using False by (simp add: seqno_at_def)
  next
    case True
    note fl = add_full[OF inv buf True res]
    have "seqno_at p' ?d i =
       (if oldest s \<le> i \<and> i < oldest s + entries_per_unit s then UINT32_MAX else seqno_at p ?d i)"
      by (rule erase_seqno_at[OF d0 g(3)]) (use fl(5) in simp)
    then show ?thesis using True by (simp add: UINT32_MAX_def)
  qed
qed

lemma add_ok_state:
  assumes inv: "log_inv s p" and buf: "entrybuf s = Some buf"
    and res: "flashlog_add s p = (Returned FLASHLOG_ERR_OK, s', p')"
  shows "datasize s' = datasize s" "numslots s' = numslots s" "psize p' = psize p"
    "newest s' = (oldest s + numinuse s) mod numslots s"
    "highest_seqno s' = highest_seqno s + 1"
    "oldest s' = (if numinuse s = numslots s
                  then (oldest s + entries_per_unit s) mod numslots s else oldest s)"
    "numinuse s' = (if numinuse s = numslots s
                    then numslots s - entries_per_unit s + 1 else numinuse s + 1)"
    "current s' = current s"
    "entrybuf s' = Some (put_le32 buf 0 (highest_seqno s + 1))"
proof -
  note iv = log_inv_parts[OF inv]
  have e: "entries_per_unit s' = entries_per_unit s" if "datasize s' = datasize s"
    using that by (simp add: entries_per_unit_def)
  have "datasize s' = datasize s \<and> numslots s' = numslots s \<and> psize p' = psize p \<and>
    newest s' = (oldest s + numinuse s) mod numslots s \<and>
    highest_seqno s' = highest_seqno s + 1 \<and>
    oldest s' = (if numinuse s = numslots s
                  then (oldest s + entries_per_unit s) mod numslots s else oldest s) \<and>
    numinuse s' = (if numinuse s = numslots s
                    then numslots s - entries_per_unit s + 1 else numinuse s + 1) \<and>
    current s' = current s \<and> entrybuf s' = Some (put_le32 buf 0 (highest_seqno s + 1))"
  proof (cases "numinuse s = numslots s")
    case False
    note nf = add_not_full[OF inv buf False res]
    show ?thesis using False nf(3) by (subst (1 2 3 4 5 6 7 8) nf(2)) simp
  next
    case True
    note fl = add_full[OF inv buf True res]
    have s': "s' = s\<lparr>newest := oldest s, numinuse := numslots s - entries_per_unit s + 1,
                oldest := (oldest s + entries_per_unit s) mod numslots s,
                highest_seqno := highest_seqno s + 1,
                entrybuf := Some (put_le32 buf 0 (highest_seqno s + 1)),
                partition_err := partition_err s'\<rparr>" using fl(4) by simp
    show ?thesis using True fl(2) full_target[OF iv(2) True]
      by (subst (1 2 3 4 5 6 7 8) s') simp
  qed
  then show "datasize s' = datasize s" "numslots s' = numslots s" "psize p' = psize p"
    "newest s' = (oldest s + numinuse s) mod numslots s"
    "highest_seqno s' = highest_seqno s + 1"
    "oldest s' = (if numinuse s = numslots s
                  then (oldest s + entries_per_unit s) mod numslots s else oldest s)"
    "numinuse s' = (if numinuse s = numslots s
                    then numslots s - entries_per_unit s + 1 else numinuse s + 1)"
    "current s' = current s"
    "entrybuf s' = Some (put_le32 buf 0 (highest_seqno s + 1))"
    by simp_all
qed

lemma seqno_bound_facts:
  fixes h :: "32 word"
  assumes "h < UINT32_MAX - 1"
  shows "h + 1 \<noteq> - 1" "h + 1 \<noteq> 0" "\<And>x. x \<le> h \<Longrightarrow> x < h + 1"
proof -
  from assms have ne: "h \<noteq> - 1"
    by (auto simp: UINT32_MAX_def)
  show "h + 1 \<noteq> - 1"
  proof
    assume "h + 1 = - 1"
    then have "h = - 1 - 1" by (simp only: eq_diff_eq)
    with assms show False by (simp add: UINT32_MAX_def)
  qed
  from ne show "h + 1 \<noteq> 0" by (metis add.commute add_eq_0_iff)
  fix x assume "x \<le> h"
  with ne show "x < h + 1" using inc_less_eq_iff by fastforce
qed

lemma add_ok_inv:
  assumes inv: "log_inv s p" and buf: "entrybuf s = Some buf"
    and hs: "highest_seqno s < UINT32_MAX - 1"
    and res: "flashlog_add s p = (Returned FLASHLOG_ERR_OK, s', p')"
  shows "log_inv s' p'"
proof -
  note iv = log_inv_parts[OF inv]
  note a = arc_ok_parts[OF iv(2)]
  note g = geometry_facts[OF iv(1)]
  note st = add_ok_state[OF inv buf res]
  note sl = add_ok_slots[OF inv buf res]
  note w = seqno_bound_facts[OF hs]
  let ?n = "numslots s" and ?k = "entries_per_unit s" and ?d = "datasize s"
  let ?o = "oldest s" and ?m = "numinuse s" and ?v = "highest_seqno s + 1"
  let ?f = "seqno_at p ?d" and ?f' = "seqno_at p' ?d"
  have ek: "entries_per_unit s' = ?k" using st(1) by (simp add: entries_per_unit_def)
  have geo: "geometry_ok s' p'" using iv(1) st(1,2,3) by (simp add: geometry_ok_def)
  have below: "?f ((?o + j) mod ?n) < ?v" if "0 \<le> j" "j < ?m" for j
    using arc_below_highest[OF inv that] by (rule w(3))
  have incr: "?f ((?o + j1) mod ?n) < ?f ((?o + j2) mod ?n)"
    if "0 \<le> j1" "j1 < j2" "j2 < ?m" for j1 j2
    using I3_increasing[OF iv(4) iv(2) that] .
  have fit: "?o + ?k \<le> ?n" using g(4,5) iv(5) a(4) by (intro unit_fits) auto
  have o2r: "0 \<le> (?o + ?k) mod ?n" "(?o + ?k) mod ?n < ?n" using g(7) by auto
  have aok: "arc_ok s'"
  proof (cases "?m = ?n")
    case True
    have "(?o + ?k) mod ?n + (?n - ?k + 1) - 1 = (?o + ?k) mod ?n + (?n - ?k)" by simp
    then have "((?o + ?k) mod ?n + (?n - ?k + 1) - 1) mod ?n = (?o + ?k + (?n - ?k)) mod ?n"
      by (simp only: mod_add_left_eq)
    also have "\<dots> = ?o" using a by (simp add: mod_pos_pos_trivial)
    finally show ?thesis
      using True st a g(4,6) o2r full_target[OF iv(2) True] by (simp add: arc_ok_def)
  next
    case False
    then show ?thesis using st a g(7) by (simp add: arc_ok_def)
  qed
  have flash_arc: "(?f' i \<noteq> - 1) = ((i - oldest s') mod ?n < numinuse s')"
    if i: "0 \<le> i" "i < ?n" for i
  proof (cases "?m = ?n")
    case True
    have "(?f' i \<noteq> - 1) = ((i - (?o + ?k) mod ?n) mod ?n < ?n - ?k + 1)"
    proof (rule arc_evict[OF g(4,5) iv(5) a(3,4) _ _ w(1) i])
      show "?f j \<noteq> - 1" if "0 \<le> j" "j < ?n" for j
        using iv(9)[OF that] True a that by simp
      show "?f' j = (if j = ?o then ?v else if ?o \<le> j \<and> j < ?o + ?k then - 1 else ?f j)" for j
        using sl[of j] True full_target[OF iv(2) True] by simp
    qed
    then show ?thesis using st True by simp
  next
    case False
    have "(?f' i \<noteq> - 1) = ((i - ?o) mod ?n < ?m + 1)"
    proof (rule arc_append[OF a(3,4,1) _ _ _ w(1) i])
      show "?m < ?n" using False a by simp
      show "(?f j \<noteq> - 1) = ((j - ?o) mod ?n < ?m)" if "0 \<le> j" "j < ?n" for j
        using iv(9)[OF that] .
      show "?f' j = (if j = (?o + ?m) mod ?n then ?v else ?f j)" for j
        using sl[of j] False by simp
    qed
    then show ?thesis using st False by simp
  qed
  have i1: "I1 s' p'"
    using aok flash_arc st(1,2) by (auto simp: I1_def on_arc_def UINT32_MAX_def)
  have i3: "I3 s' p'"
  proof (rule I3_intro[OF aok], unfold st(1) st(2))
    fix j1 j2 assume j: "0 \<le> j1" "j1 < j2" "j2 < numinuse s'"
    show "?f' ((oldest s' + j1) mod ?n) < ?f' ((oldest s' + j2) mod ?n)"
    proof (cases "?m = ?n")
      case True
      have "?f' (((?o + ?k) mod ?n + j1) mod ?n) < ?f' (((?o + ?k) mod ?n + j2) mod ?n)"
      proof (rule arc_evict_increasing[OF g(4,5) iv(5) a(3,4) _ _ _ j(1,2)])
        show "?f ((?o + i1) mod ?n) < ?f ((?o + i2) mod ?n)"
          if "0 \<le> i1" "i1 < i2" "i2 < ?n" for i1 i2
          using incr[of i1 i2] that True by simp
        show "?f ((?o + i) mod ?n) < ?v" if "0 \<le> i" "i < ?n" for i
          using below[of i] that True by simp
        show "?f' i = (if i = ?o then ?v else if ?o \<le> i \<and> i < ?o + ?k then - 1 else ?f i)" for i
          using sl[of i] True full_target[OF iv(2) True] by simp
        show "j2 < ?n - ?k + 1" using j st True by simp
      qed
      then show ?thesis using st True by simp
    next
      case False
      have "?f' ((?o + j1) mod ?n) < ?f' ((?o + j2) mod ?n)"
      proof (rule arc_append_increasing[OF a(3,4,1) _ _ _ _ j(1,2)])
        show "?m < ?n" using False a by simp
        show "?f ((?o + i1) mod ?n) < ?f ((?o + i2) mod ?n)"
          if "0 \<le> i1" "i1 < i2" "i2 < ?m" for i1 i2
          using incr[OF that] .
        show "?f ((?o + i) mod ?n) < ?v" if "0 \<le> i" "i < ?m" for i
          using below[OF that] .
        show "?f' i = (if i = (?o + ?m) mod ?n then ?v else ?f i)" for i
          using sl[of i] False by simp
        show "j2 < ?m + 1" using j st False by simp
      qed
      then show ?thesis using st False by simp
    qed
  qed
  have al: "entries_per_unit s' dvd oldest s'"
  proof (cases "?m = ?n")
    case True
    have "(?o + ?k) mod ?n = (if ?o + ?k < ?n then ?o + ?k else 0)"
      using fit a g(4) int_mod_add[of "?o + ?k" ?n] by auto
    then show ?thesis using st True iv(5) ek by simp
  next
    case False
    then show ?thesis using st iv(5) ek by simp
  qed
  have pos: "0 < numinuse s'" using st a g(4,6) by (auto split: if_splits)
  have hi: "highest_seqno s' = seqno_at p' (datasize s') (newest s')"
    using sl[of "newest s'"] st by simp
  have nz: "seqno_at p' (datasize s') i \<noteq> 0" if "0 \<le> i" "i < numslots s'" for i
    using sl[of i] iv(8)[of i] that st(1,2) w(2) by (auto split: if_splits)
  show ?thesis
    unfolding log_inv_def using geo i1 i3 al pos hi nz by auto
qed

lemma int_range_4: "{0..<4::int} = {0, 1, 2, 3}"
  by auto

lemma add_returns_ok:
  assumes inv: "log_inv s p" and buf: "entrybuf s = Some buf" and nf: "pending p = []"
  shows "fst (flashlog_add s p) = Returned FLASHLOG_ERR_OK"
proof -
  obtain r s' p' where res: "flashlog_add s p = (r, s', p')" by (cases "flashlog_add s p") auto
  note iv = log_inv_parts[OF inv]
  note g = geometry_facts[OF iv(1)]
  have dr: "driver_result p = (ESP_OK, p)" using nf by (rule driver_result_no_faults)
  show ?thesis
  proof (cases "numinuse s = numslots s")
    case False
    from add_not_full(1)[OF inv buf False res] dr res show ?thesis by simp
  next
    case True
    let ?a = "add_advance s"
    let ?off = "slot_offset (newest ?a) (datasize ?a)" and ?l = "entry_length (datasize ?a)"
    let ?ev = "add_evict ?off ?l ?a p"
    have d: "datasize ?a = datasize s" "numinuse ?a = numinuse s" "numslots ?a = numslots s"
      using add_advance_inv[OF inv] by simp_all
    have l0: "?l \<noteq> 0" using g(1) geometry_length(1)[OF iv(1)] d by simp
    note ef = add_evict_fields[where len="?l" and off="?off" and s="?a" and p=p, OF l0]
    have none: "fst ?ev = None" using ef(1) dr by simp
    have pe: "pending (snd (snd ?ev)) = []" using ef(7) True d nf by simp
    obtain s1 p1 where ev: "?ev = (None, s1, p1)" using none by (cases ?ev) auto
    with pe have pe1: "pending p1 = []" by simp
    have "flashlog_add s p = add_store ?off ?l buf s1 p1"
      using flashlog_add_via[OF buf ev] by simp
    then show ?thesis
      using add_store_fields(1)[of ?off ?l buf s1 p1] driver_result_no_faults[OF pe1] by simp
  qed
qed

lemma full_example_inv: "log_inv full_state full_partition"
proof -
  have sq: "seqno_at full_partition 2044 0 = 1" "seqno_at full_partition 2044 1 = 2"
    "seqno_at full_partition 2044 2 = 3" "seqno_at full_partition 2044 3 = 4"
    by (simp_all add: seqno_at_def full_partition_def get_le32_def FLASHLOG_SLOT0_def
        ENTRY_HDR_SIZE_def)
  have f: "datasize full_state = 2044" "numslots full_state = 4" "numinuse full_state = 4"
    "oldest full_state = 0" "newest full_state = 3" "highest_seqno full_state = 4"
    by (simp_all add: full_state_def cursor_state_def zero_state_def)
  have geo: "geometry_ok full_state full_partition"
    by (simp add: geometry_ok_def f full_partition_def ENTRY_HDR_SIZE_def FLASHLOG_SLOT0_def)
  have arc: "arc_ok full_state" by (simp add: arc_ok_def f)
  have i1: "I1 full_state full_partition"
    by (simp add: I1_def arc f int_range_4 sq on_arc_def UINT32_MAX_def)
  have i3: "I3 full_state full_partition"
  proof (rule I3_intro[OF arc])
    fix j1 j2 :: int
    assume j: "0 \<le> j1" "j1 < j2" "j2 < numinuse full_state"
    then have "j1 = 0 \<or> j1 = 1 \<or> j1 = 2" "j2 = 1 \<or> j2 = 2 \<or> j2 = 3"
      unfolding f by arith+
    then show "seqno_at full_partition (datasize full_state)
                 ((oldest full_state + j1) mod numslots full_state)
               < seqno_at full_partition (datasize full_state)
                 ((oldest full_state + j2) mod numslots full_state)"
      using j(2) sq by (auto simp: f)
  qed
  show ?thesis
    unfolding log_inv_def
    using geo i1 i3
    by (simp add: f int_range_4 sq entries_per_unit_def ENTRY_HDR_SIZE_def)
qed


text \<open>
  C1. On a full log that satisfies the invariant of opened logs, a successful
  \<open>flashlog_add\<close> erases one erase unit: the 4096 bytes at the offset of the new entry,
  which is a multiple of 4096, and no byte outside them changes. The unit holds exactly
  \<open>entries_per_unit = 4096 / (datasize + 4)\<close> whole slots, those of the oldest entries;
  after the call the first of them holds the new entry, written onto erased flash, and
  the others are unused, while every later entry of the arc keeps its sequence number.
  \<open>numinuse\<close> went down by \<open>entries_per_unit\<close> and up by one for the new entry, and
  \<open>oldest\<close> went forward by \<open>entries_per_unit\<close> modulo \<open>numslots\<close>.
\<close>
theorem add_full_evicts_one_unit:
  assumes "log_inv s p" and "entrybuf s = Some buf" and "numinuse s = numslots s"
    and "flashlog_add s p = (Returned FLASHLOG_ERR_OK, s', p')"
  shows "entries_per_unit s * (datasize s + 4) = 4096 \<and>
     (4096 + oldest s * (datasize s + 4)) mod 4096 = 0 \<and>
     slot_offset (newest s') (datasize s') = 4096 + oldest s * (datasize s + 4) \<and>
     (\<forall>a. a < 4096 + oldest s * (datasize s + 4) \<or>
          4096 + oldest s * (datasize s + 4) + 4096 \<le> a \<longrightarrow> flash p' a = flash p a) \<and>
     (\<forall>a. 4096 + oldest s * (datasize s + 4) + (datasize s + 4) \<le> a \<and>
          a < 4096 + oldest s * (datasize s + 4) + 4096 \<longrightarrow> flash p' a = - 1) \<and>
     (\<exists>buf'. entrybuf s' = Some buf' \<and>
        (\<forall>a. 4096 + oldest s * (datasize s + 4) \<le> a \<and>
             a < 4096 + oldest s * (datasize s + 4) + (datasize s + 4) \<longrightarrow>
             flash p' a = buf' (a - (4096 + oldest s * (datasize s + 4))))) \<and>
     numinuse s' = numinuse s - entries_per_unit s + 1 \<and>
     oldest s' = (oldest s + entries_per_unit s) mod numslots s \<and>
     (\<forall>j\<in>{0..<entries_per_unit s}.
        arc_slot s j = oldest s + j \<and>
        slot_offset (arc_slot s j) (datasize s) =
          4096 + oldest s * (datasize s + 4) + j * (datasize s + 4)) \<and>
     (\<forall>j\<in>{1..<entries_per_unit s}. seqno_at p' (datasize s) (arc_slot s j) = UINT32_MAX) \<and>
     (\<forall>j\<in>{entries_per_unit s..<numslots s}.
        seqno_at p' (datasize s) (arc_slot s j) = seqno_at p (datasize s) (arc_slot s j))"
proof -
  note iv = log_inv_parts[OF assms(1)]
  note a = arc_ok_parts[OF iv(2)]
  note g = geometry_facts[OF iv(1)]
  note fl = add_full[OF assms]
  note st = add_ok_state[OF assms(1,2,4)]
  note sl = add_ok_slots[OF assms(1,2,4)]
  let ?k = "entries_per_unit s" and ?l = "datasize s + 4" and ?n = "numslots s"
  let ?u = "4096 + oldest s * ?l"
  have fit: "oldest s + ?k \<le> ?n" using g(4,5) iv(5) a(4) by (intro unit_fits) auto
  have t: "(oldest s + numinuse s) mod ?n = oldest s" using full_target[OF iv(2) assms(3)] .
  from iv(5) obtain c where c: "oldest s = ?k * c" by (auto elim: dvdE)
  have "oldest s * ?l = (?k * ?l) * c" unfolding c by (simp add: ac_simps)
  then have al: "?u mod 4096 = 0" unfolding g(3) by simp
  have tgt: "slot_offset (newest s') (datasize s') = ?u"
    using geometry_offsets(1)[OF iv(1), of "oldest s"] a st t by simp
  have fp: "flash p' = (\<lambda>a. if ?u \<le> a \<and> a < ?u + ?l
                         then put_le32 buf 0 (highest_seqno s + 1) (a - ?u)
                         else if ?u \<le> a \<and> a < ?u + 4096 then - 1 else flash p a)"
    using fl(6) by simp
  have out: "\<forall>a. a < ?u \<or> ?u + 4096 \<le> a \<longrightarrow> flash p' a = flash p a"
    using g(1,2) by (auto simp: fp)
  have er: "\<forall>a. ?u + ?l \<le> a \<and> a < ?u + 4096 \<longrightarrow> flash p' a = - 1"
    using g(1,2) by (auto simp: fp)
  have wr: "\<exists>buf'. entrybuf s' = Some buf' \<and>
        (\<forall>a. ?u \<le> a \<and> a < ?u + ?l \<longrightarrow> flash p' a = buf' (a - ?u))"
    using st(9) by (auto simp: fp)
  have slot: "arc_slot s j = oldest s + j" if "0 \<le> j" "j < ?n - oldest s" for j
    using that a by (simp add: arc_slot_def mod_pos_pos_trivial)
  have first: "\<forall>j\<in>{0..<?k}. arc_slot s j = oldest s + j \<and>
        slot_offset (arc_slot s j) (datasize s) = ?u + j * ?l"
  proof
    fix j assume "j \<in> {0..<?k}"
    then have j: "0 \<le> j" "j < ?k" by auto
    have s: "arc_slot s j = oldest s + j" using j fit by (intro slot) auto
    have "slot_offset (oldest s + j) (datasize s) = 4096 + (oldest s + j) * ?l"
      using j fit a by (intro geometry_offsets(1)[OF iv(1)]) auto
    then show "arc_slot s j = oldest s + j \<and>
        slot_offset (arc_slot s j) (datasize s) = ?u + j * ?l"
      using s by (simp add: algebra_simps)
  qed
  have gone: "\<forall>j\<in>{1..<?k}. seqno_at p' (datasize s) (arc_slot s j) = UINT32_MAX"
  proof
    fix j assume "j \<in> {1..<?k}"
    then have j: "1 \<le> j" "j < ?k" by auto
    have s: "arc_slot s j = oldest s + j" using j fit by (intro slot) auto
    show "seqno_at p' (datasize s) (arc_slot s j) = UINT32_MAX"
      using sl[of "oldest s + j"] j assms(3) t by (simp add: s UINT32_MAX_def)
  qed
  have kept: "\<forall>j\<in>{?k..<?n}.
        seqno_at p' (datasize s) (arc_slot s j) = seqno_at p (datasize s) (arc_slot s j)"
  proof
    fix j assume "j \<in> {?k..<?n}"
    then have j: "?k \<le> j" "j < ?n" by auto
    have "arc_slot s j = (if oldest s + j < ?n then oldest s + j else oldest s + j - ?n)"
      unfolding arc_slot_def using a j g(4) by (intro arc_slot_cases) auto
    then have "arc_slot s j \<noteq> oldest s \<and>
      \<not> (oldest s \<le> arc_slot s j \<and> arc_slot s j < oldest s + ?k)"
      using j g(4) by (auto split: if_splits)
    then show "seqno_at p' (datasize s) (arc_slot s j) = seqno_at p (datasize s) (arc_slot s j)"
      using sl[of "arc_slot s j"] t by auto
  qed
  have kl: "?k * ?l = 4096" by (rule g(3))
  have n1: "numinuse s' = numinuse s - ?k + 1" using st(7) assms(3) by simp
  have o1: "oldest s' = (oldest s + ?k) mod ?n" using st(6) assms(3) by simp
  show ?thesis
    by (intro conjI) (fact kl al tgt out er wr n1 o1 first gone kept)+
qed

theorem add_full_evicts_one_unit_witness:
  "log_inv full_state full_partition \<and> entrybuf full_state = Some (\<lambda>_. 0) \<and>
   numinuse full_state = numslots full_state \<and>
   fst (flashlog_add full_state full_partition) = Returned FLASHLOG_ERR_OK \<and>
   entries_per_unit full_state = 2 \<and> oldest full_state = 0 \<and> numinuse full_state = 4 \<and>
   numinuse (fst (snd (flashlog_add full_state full_partition))) = 3 \<and>
   oldest (fst (snd (flashlog_add full_state full_partition))) = 2 \<and>
   flash (snd (snd (flashlog_add full_state full_partition))) 4095 = flash full_partition 4095 \<and>
   flash (snd (snd (flashlog_add full_state full_partition))) 8192 = flash full_partition 8192 \<and>
   seqno_at (snd (snd (flashlog_add full_state full_partition))) 2044 1 = UINT32_MAX \<and>
   seqno_at (snd (snd (flashlog_add full_state full_partition))) 2044 2 = 3 \<and>
   seqno_at (snd (snd (flashlog_add full_state full_partition))) 2044 3 = 4"
proof -
  let ?R = "flashlog_add full_state full_partition"
  have f: "datasize full_state = 2044" "numslots full_state = 4" "numinuse full_state = 4"
    "oldest full_state = 0" "newest full_state = 3" "highest_seqno full_state = 4"
    "entrybuf full_state = Some (\<lambda>_. 0)"
    by (simp_all add: full_state_def cursor_state_def zero_state_def)
  have k: "entries_per_unit full_state = 2"
    by (simp add: entries_per_unit_def f ENTRY_HDR_SIZE_def)
  have sq: "seqno_at full_partition 2044 2 = 3" "seqno_at full_partition 2044 3 = 4"
    by (simp_all add: seqno_at_def full_partition_def get_le32_def FLASHLOG_SLOT0_def
        ENTRY_HDR_SIZE_def)
  have ok: "fst ?R = Returned FLASHLOG_ERR_OK"
    using full_example_inv f(7) by (rule add_returns_ok) (simp add: full_partition_def)
  then have R: "?R = (Returned FLASHLOG_ERR_OK, fst (snd ?R), snd (snd ?R))"
    by (metis prod.collapse)
  have full: "numinuse full_state = numslots full_state" by (simp add: f)
  have r12: "{1..<2::int} = {1}" and r24: "{2..<4::int} = {2, 3}" by auto
  show ?thesis
    using add_full_evicts_one_unit[OF full_example_inv f(7) full R] ok full_example_inv sq
    by (simp add: f k r12 r24 arc_slot_def)
qed

section \<open>A failed add\<close>

lemma add_outcomes:
  assumes inv: "log_inv s p" and buf: "entrybuf s = Some buf"
    and res: "flashlog_add s p = (r, s', p')"
  shows "r = Returned FLASHLOG_ERR_ERASEERR \<and> numinuse s = numslots s \<or>
         r = Returned FLASHLOG_ERR_WRITEERR \<or> r = Returned FLASHLOG_ERR_OK"
proof (cases "numinuse s = numslots s")
  case True
  then show ?thesis using add_full(1)[OF inv buf True res] by auto
next
  case False
  then show ?thesis using add_not_full(1)[OF inv buf False res] by (auto split: if_splits)
qed

lemma add_stored_state:
  assumes inv: "log_inv s p" and buf: "entrybuf s = Some buf"
    and res: "flashlog_add s p = (r, s', p')" and ne: "r \<noteq> Returned FLASHLOG_ERR_ERASEERR"
  shows "s' = s\<lparr>newest := (oldest s + numinuse s) mod numslots s,
               oldest := (if numinuse s = numslots s
                          then (oldest s + entries_per_unit s) mod numslots s else oldest s),
               numinuse := (if numinuse s = numslots s
                            then numslots s - entries_per_unit s + 1 else numinuse s + 1),
               highest_seqno := highest_seqno s + 1,
               entrybuf := Some (put_le32 buf 0 (highest_seqno s + 1)),
               partition_err := partition_err s'\<rparr>"
proof (cases "numinuse s = numslots s")
  case True
  note iv = log_inv_parts[OF inv]
  have s': "s' = s\<lparr>newest := oldest s, numinuse := numslots s - entries_per_unit s + 1,
                oldest := (oldest s + entries_per_unit s) mod numslots s,
                highest_seqno := highest_seqno s + 1,
                entrybuf := Some (put_le32 buf 0 (highest_seqno s + 1)),
                partition_err := partition_err s'\<rparr>"
    using add_full(4)[OF inv buf True res ne] .
  show ?thesis using True full_target[OF iv(2) True] by (subst s') simp
next
  case False
  note nf = add_not_full(2)[OF inv buf False res]
  have "partition_err s' = fst (driver_result p)" by (subst nf) simp
  then show ?thesis using False by (subst nf) simp
qed

lemma add_stored_arc_ok:
  assumes inv: "log_inv s p" and buf: "entrybuf s = Some buf"
    and res: "flashlog_add s p = (r, s', p')" and ne: "r \<noteq> Returned FLASHLOG_ERR_ERASEERR"
  shows "arc_ok s'"
proof -
  note iv = log_inv_parts[OF inv]
  note a = arc_ok_parts[OF iv(2)]
  note g = geometry_facts[OF iv(1)]
  let ?n = "numslots s" and ?k = "entries_per_unit s" and ?o = "oldest s" and ?m = "numinuse s"
  have o2r: "0 \<le> (?o + ?k) mod ?n" "(?o + ?k) mod ?n < ?n" using g(7) by auto
  have tr: "0 \<le> (?o + ?m) mod ?n" "(?o + ?m) mod ?n < ?n" using g(7) by auto
  show ?thesis
  proof (cases "?m = ?n")
    case True
    have "(?o + ?k) mod ?n + (?n - ?k + 1) - 1 = (?o + ?k) mod ?n + (?n - ?k)" by simp
    then have "((?o + ?k) mod ?n + (?n - ?k + 1) - 1) mod ?n = (?o + ?k + (?n - ?k)) mod ?n"
      by (simp only: mod_add_left_eq)
    also have "\<dots> = ?o" using a by (simp add: mod_pos_pos_trivial)
    finally show ?thesis
      using True a g(4,6) o2r full_target[OF iv(2) True]
      by (subst add_stored_state[OF inv buf res ne]) (simp add: arc_ok_def)
  next
    case False
    then show ?thesis using a tr
      by (subst add_stored_state[OF inv buf res ne]) (simp add: arc_ok_def)
  qed
qed

lemma add_full_erase_fails:
  assumes inv: "log_inv s p" and buf: "entrybuf s = Some buf"
    and full: "numinuse s = numslots s" and e: "fst (driver_result p) \<noteq> ESP_OK"
  shows "fst (flashlog_add s p) = Returned FLASHLOG_ERR_ERASEERR"
proof -
  note iv = log_inv_parts[OF inv]
  note g = geometry_facts[OF iv(1)]
  let ?a = "add_advance s"
  let ?off = "slot_offset (newest ?a) (datasize ?a)" and ?l = "entry_length (datasize ?a)"
  let ?ev = "add_evict ?off ?l ?a p"
  have d: "datasize ?a = datasize s" "numinuse ?a = numinuse s" "numslots ?a = numslots s"
    using add_advance_inv[OF inv] by simp_all
  have l0: "?l \<noteq> 0" using g(1) geometry_length(1)[OF iv(1)] d by simp
  have "fst ?ev = Some (Returned FLASHLOG_ERR_ERASEERR)"
    using add_evict_fields(1)[where len="?l" and off="?off" and s="?a" and p=p, OF l0] e full d
    by simp
  then obtain s1 p1 where ev: "?ev = (Some (Returned FLASHLOG_ERR_ERASEERR), s1, p1)"
    by (cases ?ev) auto
  show ?thesis using flashlog_add_via[OF buf ev] by simp
qed

lemma log_inv_same_flash:
  assumes "flash p' = flash p" "psize p' = psize p"
  shows "log_inv s p' = log_inv s p" "I1 s p' = I1 s p" "I3 s p' = I3 s p"
  using assms by (simp_all add: log_inv_def I1_def I3_def seqno_at_def geometry_ok_def)

lemma I1_same_cursor:
  assumes "numslots s' = numslots s" "datasize s' = datasize s" "numinuse s' = numinuse s"
    "oldest s' = oldest s" "newest s' = newest s"
  shows "I1 s' p = I1 s p"
  using assms by (simp add: I1_def arc_ok_def on_arc_def)


lemma failing_fields [simp]:
  "flash (failing p) = flash p" "psize (failing p) = psize p"
  "driver_result (failing p) = (- 1, p\<lparr>pending := []\<rparr>)"
  by (simp_all add: failing_def driver_result_def)

lemma empty_example_inv: "log_inv (cursor_state 0 0 0 0) (blank_partition 12288)"
proof -
  let ?s = "cursor_state 0 0 0 0" and ?p = "blank_partition 12288"
  have sq: "seqno_at ?p 2044 i = - 1" for i
    by (simp add: seqno_at_def blank_partition_def get_le32_all_max)
  have f: "datasize ?s = 2044" "numslots ?s = 4" "numinuse ?s = 0"
    "oldest ?s = 0" "newest ?s = 0" "highest_seqno ?s = 0"
    by (simp_all add: cursor_state_def zero_state_def)
  have geo: "geometry_ok ?s ?p"
    by (simp add: geometry_ok_def f blank_partition_def ENTRY_HDR_SIZE_def FLASHLOG_SLOT0_def)
  have arc: "arc_ok ?s" by (simp add: arc_ok_def f)
  have i1: "I1 ?s ?p"
    by (simp add: I1_def arc f sq on_arc_def UINT32_MAX_def)
  have i3: "I3 ?s ?p"
    by (simp add: I3_def arc_length_def f)
  show ?thesis
    unfolding log_inv_def using geo i1 i3 by (simp add: f sq)
qed


text \<open>
  C2, as the claim states it, fails for both kinds of failure. On an empty log the write
  fails: the state counts one entry in slot 0, the flash holds none, so I1 does not hold.
  On a full log the erase fails: \<open>newest\<close> has moved on to the oldest slot while the count
  and \<open>oldest\<close> are as before, so the arc no longer ends at \<open>newest\<close>.
\<close>
theorem add_failure_breaks_I1:
  "log_inv (cursor_state 0 0 0 0) (failing (blank_partition 12288)) \<and>
   I1 (cursor_state 0 0 0 0) (failing (blank_partition 12288)) \<and>
   fst (flashlog_add (cursor_state 0 0 0 0) (failing (blank_partition 12288)))
     = Returned FLASHLOG_ERR_WRITEERR \<and>
   \<not> I1 (fst (snd (flashlog_add (cursor_state 0 0 0 0) (failing (blank_partition 12288)))))
         (snd (snd (flashlog_add (cursor_state 0 0 0 0) (failing (blank_partition 12288))))) \<and>
   log_inv full_state (failing full_partition) \<and>
   I1 full_state (failing full_partition) \<and>
   fst (flashlog_add full_state (failing full_partition)) = Returned FLASHLOG_ERR_ERASEERR \<and>
   \<not> I1 (fst (snd (flashlog_add full_state (failing full_partition))))
         (snd (snd (flashlog_add full_state (failing full_partition))))"
proof -
  let ?s = "cursor_state 0 0 0 0" and ?p = "failing (blank_partition 12288)"
  let ?R = "flashlog_add ?s ?p"
  have inv: "log_inv ?s ?p"
    using empty_example_inv log_inv_same_flash(1)[of ?p "blank_partition 12288" ?s] by simp
  have f: "datasize ?s = 2044" "numslots ?s = 4" "numinuse ?s = 0"
    "oldest ?s = 0" "newest ?s = 0" "highest_seqno ?s = 0" "entrybuf ?s = Some (\<lambda>_. 0)"
    by (simp_all add: cursor_state_def zero_state_def)
  have nf: "numinuse ?s \<noteq> numslots ?s" by (simp add: f)
  have R: "?R = (fst ?R, fst (snd ?R), snd (snd ?R))" by simp
  note a = add_not_full[OF inv f(7) nf R]
  have r: "fst ?R = Returned FLASHLOG_ERR_WRITEERR" using a(1) by (simp add: ESP_OK_def)
  have fl: "flash (snd (snd ?R)) = flash (blank_partition 12288)"
    using a(4) by (simp add: ESP_OK_def)
  have s': "numinuse (fst (snd ?R)) = 1" "oldest (fst (snd ?R)) = 0"
    "numslots (fst (snd ?R)) = 4" "datasize (fst (snd ?R)) = 2044"
    by (subst a(2); simp add: f)+
  have "seqno_at (snd (snd ?R)) 2044 0 = UINT32_MAX"
    unfolding seqno_at_def fl
    by (simp add: blank_partition_def get_le32_all_max UINT32_MAX_def)
  moreover have "on_arc (fst (snd ?R)) 0" by (simp add: on_arc_def s')
  ultimately have n1: "\<not> I1 (fst (snd ?R)) (snd (snd ?R))"
    by (auto simp: I1_def s')
  let ?s2 = full_state and ?p2 = "failing full_partition"
  let ?R2 = "flashlog_add ?s2 ?p2"
  have inv2: "log_inv ?s2 ?p2"
    using full_example_inv log_inv_same_flash(1)[of ?p2 full_partition ?s2] by simp
  have f2: "datasize ?s2 = 2044" "numslots ?s2 = 4" "numinuse ?s2 = 4"
    "oldest ?s2 = 0" "newest ?s2 = 3" "highest_seqno ?s2 = 4"
    "entrybuf ?s2 = Some (\<lambda>_. 0)"
    by (simp_all add: full_state_def cursor_state_def zero_state_def)
  have full: "numinuse ?s2 = numslots ?s2" by (simp add: f2)
  have r2: "fst ?R2 = Returned FLASHLOG_ERR_ERASEERR"
    using inv2 f2(7) full by (rule add_full_erase_fails) (simp add: ESP_OK_def)
  have R2: "?R2 = (fst ?R2, fst (snd ?R2), snd (snd ?R2))" by simp
  from add_full(3)[OF inv2 f2(7) full R2 r2]
  have e: "fst (snd ?R2) = ?s2\<lparr>newest := oldest ?s2, partition_err := partition_err (fst (snd ?R2))\<rparr>"
    by simp
  have s2': "numinuse (fst (snd ?R2)) = 4" "oldest (fst (snd ?R2)) = 0"
    "numslots (fst (snd ?R2)) = 4" "newest (fst (snd ?R2)) = 0"
    by (subst e; simp add: f2)+
  have n2: "\<not> I1 (fst (snd ?R2)) (snd (snd ?R2))"
    by (simp add: I1_def arc_ok_def s2')
  show ?thesis
    using inv r n1 inv2 r2 n2 log_inv_parts(3)[OF inv] log_inv_parts(3)[OF inv2] by simp
qed


text \<open>
  C2, amended. On a log that satisfies the invariant of opened logs, a \<open>flashlog_add\<close>
  that does not return \<open>FLASHLOG_ERR_OK\<close> returns an erase or a write failure. After an
  erase failure the flash is unchanged and the state differs from the one before the call
  only in \<open>newest\<close>, moved one slot forward modulo \<open>numslots\<close> (and in \<open>partition_err\<close>): I1
  holds as soon as \<open>newest\<close> is set back. After a write failure the cursor fields are
  those of a successful add and describe an arc, and the slots that hold a sequence number
  are exactly the slots of that arc other than \<open>newest\<close>, the entry that was counted but
  not written.
\<close>
theorem add_failure_state:
  assumes "log_inv s p" and "entrybuf s = Some buf"
    and "flashlog_add s p = (r, s', p')" and "r \<noteq> Returned FLASHLOG_ERR_OK"
  shows "(r = Returned FLASHLOG_ERR_ERASEERR \<and> numinuse s = numslots s \<and>
          flash p' = flash p \<and>
          s' = s\<lparr>newest := (newest s + 1) mod numslots s, partition_err := partition_err s'\<rparr> \<and>
          I1 (s'\<lparr>newest := newest s\<rparr>) p')
         \<or>
         (r = Returned FLASHLOG_ERR_WRITEERR \<and>
          numinuse s' = (if numinuse s = numslots s
                         then numslots s - entries_per_unit s + 1 else numinuse s + 1) \<and>
          highest_seqno s' = highest_seqno s + 1 \<and>
          arc_ok s' \<and>
          (\<forall>i\<in>{0..<numslots s'}.
             (seqno_at p' (datasize s') i \<noteq> UINT32_MAX) = (on_arc s' i \<and> i \<noteq> newest s')))"
proof (cases "r = Returned FLASHLOG_ERR_ERASEERR")
  case True
  note iv = log_inv_parts[OF assms(1)]
  from add_outcomes[OF assms(1-3)] True have full: "numinuse s = numslots s" by auto
  note fl = add_full[OF assms(1,2) full assms(3)]
  from fl(3)[OF True] have s': "s' = s\<lparr>newest := oldest s, partition_err := partition_err s'\<rparr>"
    and f: "flash p' = flash p" by auto
  have t: "(newest s + 1) mod numslots s = oldest s"
    using add_target[OF assms(1)] full full_target[OF iv(2) full] geometry_facts(7)[OF iv(1)]
    by simp
  have "I1 (s'\<lparr>newest := newest s\<rparr>) p' = I1 (s'\<lparr>newest := newest s\<rparr>) p"
    using f fl(2) by (rule log_inv_same_flash)
  also have "\<dots> = I1 s p" by (rule I1_same_cursor; subst s'; simp)
  finally have "I1 (s'\<lparr>newest := newest s\<rparr>) p'" using iv(3) by simp
  then show ?thesis using True full f s' t by simp
next
  case False
  note iv = log_inv_parts[OF assms(1)]
  note a = arc_ok_parts[OF iv(2)]
  note g = geometry_facts[OF iv(1)]
  from add_outcomes[OF assms(1-3)] False assms(4)
  have w: "r = Returned FLASHLOG_ERR_WRITEERR" by auto
  note res = assms(3)[unfolded w]
  note st = add_stored_state[OF assms(1-3) False]
  note aok = add_stored_arc_ok[OF assms(1-3) False]
  note sl = add_writeerr_slots[OF assms(1,2) res]
  let ?n = "numslots s" and ?k = "entries_per_unit s" and ?d = "datasize s"
  let ?o = "oldest s" and ?m = "numinuse s"
  let ?f = "seqno_at p ?d" and ?f' = "seqno_at p' ?d"
  have fields: "numslots s' = ?n" "datasize s' = ?d" "newest s' = (?o + ?m) mod ?n"
    "oldest s' = (if ?m = ?n then (?o + ?k) mod ?n else ?o)"
    "numinuse s' = (if ?m = ?n then ?n - ?k + 1 else ?m + 1)"
    "highest_seqno s' = highest_seqno s + 1"
    by (subst st; simp)+
  have flash_arc: "(?f' i \<noteq> - 1) = ((i - oldest s') mod ?n < numinuse s' \<and> i \<noteq> newest s')"
    if i: "0 \<le> i" "i < ?n" for i
  proof (cases "?m = ?n")
    case True
    let ?g = "\<lambda>j. if j = ?o then 0 else ?f' j"
    have "(?g i \<noteq> - 1) = ((i - (?o + ?k) mod ?n) mod ?n < ?n - ?k + 1)"
    proof (rule arc_evict[OF g(4,5) iv(5) a(3,4) _ _ _ i])
      show "?f j \<noteq> - 1" if "0 \<le> j" "j < ?n" for j
        using iv(9)[OF that] True a that by simp
      show "?g j = (if j = ?o then 0 else if ?o \<le> j \<and> j < ?o + ?k then - 1 else ?f j)" for j
        using sl[of j] True by simp
      show "(0::32 word) \<noteq> - 1" by simp
    qed
    moreover have "?f' ?o = - 1" using sl[of ?o] True g(4) by simp
    ultimately show ?thesis
      using fields True full_target[OF iv(2) True] by (cases "i = ?o") simp_all
  next
    case False
    let ?t = "(?o + ?m) mod ?n"
    let ?g = "\<lambda>j. if j = ?t then 0 else ?f j"
    have "(?g i \<noteq> - 1) = ((i - ?o) mod ?n < ?m + 1)"
    proof (rule arc_append[OF a(3,4,1) _ _ _ _ i])
      show "?m < ?n" using False a by simp
      show "(?f j \<noteq> - 1) = ((j - ?o) mod ?n < ?m)" if "0 \<le> j" "j < ?n" for j
        using iv(9)[OF that] .
      show "?g j = (if j = ?t then 0 else ?f j)" for j by simp
      show "(0::32 word) \<noteq> - 1" by simp
    qed
    moreover have "?f ?t = - 1"
    proof -
      have tr: "0 \<le> ?t" "?t < ?n" using g(7) by auto
      have "(?t - ?o) mod ?n = ?m mod ?n" by (simp add: mod_diff_left_eq)
      also have "\<dots> = ?m" using a False by (simp add: mod_pos_pos_trivial)
      finally show ?thesis using iv(9)[OF tr] by simp
    qed
    moreover have "?f' i = ?f i" using sl[of i] False by simp
    ultimately show ?thesis using fields False by (cases "i = ?t") simp_all
  qed
  have "\<forall>i\<in>{0..<numslots s'}.
     (seqno_at p' (datasize s') i \<noteq> UINT32_MAX) = (on_arc s' i \<and> i \<noteq> newest s')"
    using flash_arc fields(1,2) by (auto simp: on_arc_def UINT32_MAX_def)
  then show ?thesis using w fields(5,6) aok by simp
qed

theorem add_failure_state_witness:
  "log_inv (cursor_state 0 0 0 0) (failing (blank_partition 12288)) \<and>
   entrybuf (cursor_state 0 0 0 0) = Some (\<lambda>_. 0) \<and>
   fst (flashlog_add (cursor_state 0 0 0 0) (failing (blank_partition 12288)))
     = Returned FLASHLOG_ERR_WRITEERR \<and>
   numinuse (fst (snd (flashlog_add (cursor_state 0 0 0 0) (failing (blank_partition 12288)))))
     = 1 \<and>
   arc_ok (fst (snd (flashlog_add (cursor_state 0 0 0 0) (failing (blank_partition 12288))))) \<and>
   newest (fst (snd (flashlog_add (cursor_state 0 0 0 0) (failing (blank_partition 12288)))))
     = 0 \<and>
   seqno_at (snd (snd (flashlog_add (cursor_state 0 0 0 0) (failing (blank_partition 12288)))))
     2044 0 = UINT32_MAX \<and>
   log_inv full_state (failing full_partition) \<and>
   entrybuf full_state = Some (\<lambda>_. 0) \<and>
   fst (flashlog_add full_state (failing full_partition)) = Returned FLASHLOG_ERR_ERASEERR \<and>
   flash (snd (snd (flashlog_add full_state (failing full_partition)))) = flash full_partition \<and>
   newest (fst (snd (flashlog_add full_state (failing full_partition)))) = 0 \<and>
   I1 ((fst (snd (flashlog_add full_state (failing full_partition))))\<lparr>newest := 3\<rparr>)
      (snd (snd (flashlog_add full_state (failing full_partition))))"
proof -
  let ?s = "cursor_state 0 0 0 0" and ?p = "failing (blank_partition 12288)"
  let ?R = "flashlog_add ?s ?p"
  have inv: "log_inv ?s ?p"
    using empty_example_inv log_inv_same_flash(1)[of ?p "blank_partition 12288" ?s] by simp
  have f: "datasize ?s = 2044" "numslots ?s = 4" "numinuse ?s = 0"
    "oldest ?s = 0" "newest ?s = 0" "highest_seqno ?s = 0" "entrybuf ?s = Some (\<lambda>_. 0)"
    by (simp_all add: cursor_state_def zero_state_def)
  have nf: "numinuse ?s \<noteq> numslots ?s" by (simp add: f)
  have R: "?R = (fst ?R, fst (snd ?R), snd (snd ?R))" by simp
  have r: "fst ?R = Returned FLASHLOG_ERR_WRITEERR"
    using add_not_full(1)[OF inv f(7) nf R] by (simp add: ESP_OK_def)
  then have ne: "fst ?R \<noteq> Returned FLASHLOG_ERR_OK" by simp
  have nw: "newest (fst (snd ?R)) = 0"
    by (subst add_not_full(2)[OF inv f(7) nf R]) (simp add: f)
  note w1 = add_failure_state[OF inv f(7) R ne]
  let ?s2 = full_state and ?p2 = "failing full_partition"
  let ?R2 = "flashlog_add ?s2 ?p2"
  have inv2: "log_inv ?s2 ?p2"
    using full_example_inv log_inv_same_flash(1)[of ?p2 full_partition ?s2] by simp
  have f2: "datasize ?s2 = 2044" "numslots ?s2 = 4" "numinuse ?s2 = 4"
    "oldest ?s2 = 0" "newest ?s2 = 3" "highest_seqno ?s2 = 4"
    "entrybuf ?s2 = Some (\<lambda>_. 0)"
    by (simp_all add: full_state_def cursor_state_def zero_state_def)
  have full: "numinuse ?s2 = numslots ?s2" by (simp add: f2)
  have r2: "fst ?R2 = Returned FLASHLOG_ERR_ERASEERR"
    using inv2 f2(7) full by (rule add_full_erase_fails) (simp add: ESP_OK_def)
  then have ne2: "fst ?R2 \<noteq> Returned FLASHLOG_ERR_OK" by simp
  have R2: "?R2 = (fst ?R2, fst (snd ?R2), snd (snd ?R2))" by simp
  note w2 = add_failure_state[OF inv2 f2(7) R2 ne2]
  from add_full(3)[OF inv2 f2(7) full R2 r2]
  have e: "fst (snd ?R2) = ?s2\<lparr>newest := oldest ?s2, partition_err := partition_err (fst (snd ?R2))\<rparr>"
    by simp
  have nw2: "newest (fst (snd ?R2)) = 0" by (subst e) (simp add: f2)
  from w1 r have a1: "numinuse (fst (snd ?R)) = 1" "arc_ok (fst (snd ?R))"
    "\<forall>i\<in>{0..<numslots (fst (snd ?R))}.
       (seqno_at (snd (snd ?R)) (datasize (fst (snd ?R))) i \<noteq> UINT32_MAX) =
       (on_arc (fst (snd ?R)) i \<and> i \<noteq> newest (fst (snd ?R)))"
    by (simp_all add: f)
  have ns: "numslots (fst (snd ?R)) = 4" "datasize (fst (snd ?R)) = 2044"
    by (subst add_not_full(2)[OF inv f(7) nf R]; simp add: f)+
  from a1(3)[rule_format, of 0] nw have sq: "seqno_at (snd (snd ?R)) 2044 0 = UINT32_MAX"
    by (simp add: ns)
  from w2 r2 have a2: "flash (snd (snd ?R2)) = flash ?p2"
    "I1 ((fst (snd ?R2))\<lparr>newest := newest ?s2\<rparr>) (snd (snd ?R2))"
    by simp_all
  show ?thesis
    using r r2 inv inv2 nw nw2 a1(1,2) sq a2 by (simp add: f f2)
qed

section \<open>The size check\<close>

lemma pow2_of_and:
  "0 < (x::int) \<Longrightarrow> x AND (x - 1) = 0 \<Longrightarrow> \<exists>j. x = 2 ^ j"
proof (induction "nat x" arbitrary: x rule: less_induct)
  case less
  show ?case
  proof (cases "even x")
    case False
    then obtain y where y: "x = 2 * y + 1" by (auto elim: oddE)
    have "x AND (x - 1) = 2 * y"
      using y by (subst and_int_rec) (simp add: )
    with less.prems y have "x = 1" by simp
    then show ?thesis by (intro exI[of _ 0]) simp
  next
    case True
    then obtain y where y: "x = 2 * y" by (auto elim: evenE)
    with less.prems have ypos: "0 < y" by simp
    have "(x - 1) div 2 = y - 1" using y by simp
    then have "x AND (x - 1) = 2 * (y AND (y - 1))"
      using y by (subst and_int_rec) simp
    with less.prems have "y AND (y - 1) = 0" by simp
    moreover have "nat y < nat x" using y ypos by simp
    ultimately obtain j where "y = 2 ^ j" using less.hyps[of y] ypos by blast
    then show ?thesis using y by (intro exI[of _ "Suc j"]) simp
  qed
qed

lemma entry_length_id: "- 4 \<le> d \<Longrightarrow> d < 2 ^ 31 - 4 \<Longrightarrow> entry_length d = d + 4"
  by (simp add: entry_length_def ENTRY_HDR_SIZE_def s32_def u32_def)

lemma size_check_iff:
  assumes "0 < d + 4" "d + 4 < 2 ^ 31"
  shows "(entry_length d > 4096 \<or> (entry_length d AND s32 (entry_length d - 1)) \<noteq> 0)
         \<longleftrightarrow> \<not> (\<exists>j\<le>12. d + 4 = 2 ^ j)"
proof -
  have e: "entry_length d = d + 4" using assms by (intro entry_length_id) auto
  have e1: "s32 (d + 4 - 1) = d + 4 - 1" using assms by (intro s32_id) auto
  show ?thesis
  proof (cases "d + 4 \<le> 4096 \<and> (d + 4) AND (d + 4 - 1) = 0")
    case True
    then obtain j where j: "d + 4 = 2 ^ j" using pow2_of_and[of "d + 4"] assms by auto
    with True have "(2::int) ^ j \<le> 2 ^ 12" by simp
    then have "j \<le> 12" by (rule power_le_imp_le_exp[rotated]) simp
    with j True show ?thesis unfolding e e1 by auto
  next
    case False
    have "\<not> (\<exists>j\<le>12. d + 4 = 2 ^ j)"
    proof
      assume "\<exists>j\<le>12. d + 4 = 2 ^ j"
      then obtain j where j: "j \<le> 12" "d + 4 = 2 ^ j" by auto
      have "(2::int) ^ j \<le> 2 ^ 12" using j(1) by (intro power_increasing) auto
      with j(2) pow2_check[of j] False show False by simp
    qed
    with False show ?thesis unfolding e e1 by auto
  qed
qed

section \<open>The recovery scan\<close>

lemma scan_entry_unused:
  "scan_entry slot (- 1) os s = (os, s)"
  by (simp add: scan_entry_def UINT32_MAX_def)

lemma scan_entry_used:
  assumes "sq \<noteq> - 1"
  shows "fst (scan_entry slot sq os s) = (if sq < os then sq else os)"
    and "snd (scan_entry slot sq os s) =
      s\<lparr>numinuse := s32 (numinuse s + 1),
        highest_seqno := (if sq > highest_seqno s then sq else highest_seqno s),
        newest := (if sq > highest_seqno s then slot else newest s),
        oldest := (if sq < os then slot else oldest s)\<rparr>"
  using assms by (simp_all add: scan_entry_def Let_def UINT32_MAX_def)


lemma scan_slots_done:
  assumes "scan_slots hdr slot os s p = (None, s', p')" "\<not> slot < hdr_numslots hdr"
  shows "s' = s" "p' = p"
  using assms by (simp_all add: scan_slots_unfold)

lemma scan_slots_step:
  assumes "scan_slots hdr slot os s p = (None, s', p')" "slot < hdr_numslots hdr"
  shows "fst (driver_result p) = ESP_OK"
    and "scan_slots hdr (slot + 1)
           (fst (scan_entry slot (scanned hdr p slot) os (s\<lparr>partition_err := ESP_OK\<rparr>)))
           (snd (scan_entry slot (scanned hdr p slot) os (s\<lparr>partition_err := ESP_OK\<rparr>)))
           (snd (driver_result p)) = (None, s', p')"
proof -
  from assms show ok: "fst (driver_result p) = ESP_OK"
    by (subst (asm) scan_slots_unfold) (auto split: if_splits)
  from assms ok show "scan_slots hdr (slot + 1)
           (fst (scan_entry slot (scanned hdr p slot) os (s\<lparr>partition_err := ESP_OK\<rparr>)))
           (snd (scan_entry slot (scanned hdr p slot) os (s\<lparr>partition_err := ESP_OK\<rparr>)))
           (snd (driver_result p)) = (None, s', p')"
    by (subst (asm) scan_slots_unfold) (simp add: scanned_def)
qed

lemma scanned_driver_result [simp]: "scanned hdr (snd (driver_result p)) = scanned hdr p"
  by (simp add: scanned_def fun_eq_iff)

lemma scan_entry_frame:
  "datasize (snd (scan_entry slot sq os s)) = datasize s"
  "numslots (snd (scan_entry slot sq os s)) = numslots s"
  "entrybuf (snd (scan_entry slot sq os s)) = entrybuf s"
  "current (snd (scan_entry slot sq os s)) = current s"
  by (simp_all add: scan_entry_def Let_def)

lemma scan_slots_frame:
  assumes "scan_slots hdr slot os s p = (None, s', p')"
  shows "flash p' = flash p \<and> psize p' = psize p \<and>
    datasize s' = datasize s \<and> numslots s' = numslots s \<and> entrybuf s' = entrybuf s \<and>
    current s' = current s"
  using assms
proof (induction "nat (hdr_numslots hdr - slot)" arbitrary: slot os s p)
  case 0
  then have "\<not> slot < hdr_numslots hdr" by simp
  from scan_slots_done[OF 0(2) this] show ?case by simp
next
  case (Suc k)
  then have lt: "slot < hdr_numslots hdr" by simp
  have k: "k = nat (hdr_numslots hdr - (slot + 1))" using Suc.hyps(2) by simp
  from Suc.hyps(1)[OF k scan_slots_step(2)[OF Suc.prems lt]]
  show ?case by (simp add: scan_entry_frame)
qed

lemma scan_slots_highest:
  assumes "scan_slots hdr slot os s p = (None, s', p')"
  shows "highest_seqno s \<le> highest_seqno s' \<and>
    (\<forall>i. slot \<le> i \<and> i < hdr_numslots hdr \<and> scanned hdr p i \<noteq> - 1
         \<longrightarrow> scanned hdr p i \<le> highest_seqno s') \<and>
    (highest_seqno s' = highest_seqno s \<and> newest s' = newest s \<or>
     slot \<le> newest s' \<and> newest s' < hdr_numslots hdr \<and> scanned hdr p (newest s') \<noteq> - 1 \<and>
     scanned hdr p (newest s') = highest_seqno s' \<and> highest_seqno s < highest_seqno s')"
  using assms
proof (induction "nat (hdr_numslots hdr - slot)" arbitrary: slot os s p)
  case 0
  then have n: "\<not> slot < hdr_numslots hdr" by simp
  from scan_slots_done[OF 0(2) this] n show ?case by auto
next
  case (Suc k)
  then have lt: "slot < hdr_numslots hdr" by simp
  have k: "k = nat (hdr_numslots hdr - (slot + 1))" using Suc.hyps(2) by simp
  let ?sq = "scanned hdr p slot"
  let ?s0 = "s\<lparr>partition_err := ESP_OK\<rparr>"
  let ?s1 = "snd (scan_entry slot ?sq os ?s0)"
  note ih = Suc.hyps(1)[OF k scan_slots_step(2)[OF Suc.prems lt], simplified]
  from ih have ih1: "highest_seqno ?s1 \<le> highest_seqno s'"
    and ih2: "\<And>i. slot + 1 \<le> i \<Longrightarrow> i < hdr_numslots hdr \<Longrightarrow> scanned hdr p i \<noteq> - 1
         \<Longrightarrow> scanned hdr p i \<le> highest_seqno s'"
    and ih3: "highest_seqno s' = highest_seqno ?s1 \<and> newest s' = newest ?s1 \<or>
     slot + 1 \<le> newest s' \<and> newest s' < hdr_numslots hdr \<and> scanned hdr p (newest s') \<noteq> - 1 \<and>
     scanned hdr p (newest s') = highest_seqno s' \<and> highest_seqno ?s1 < highest_seqno s'"
    by auto
  have s1: "highest_seqno ?s1 =
      (if ?sq \<noteq> - 1 \<and> ?sq > highest_seqno s then ?sq else highest_seqno s)"
    "newest ?s1 = (if ?sq \<noteq> - 1 \<and> ?sq > highest_seqno s then slot else newest s)"
    using scan_entry_used(2)[of ?sq slot os ?s0] scan_entry_unused[of slot os ?s0]
    by (cases "?sq = - 1"; simp)+
  have mono: "highest_seqno s \<le> highest_seqno ?s1" by (auto simp: s1)
  have here: "?sq \<noteq> - 1 \<Longrightarrow> ?sq \<le> highest_seqno ?s1" by (auto simp: s1)
  have A: "highest_seqno s \<le> highest_seqno s'" using mono ih1 by simp
  have B: "scanned hdr p i \<le> highest_seqno s'"
    if "slot \<le> i" "i < hdr_numslots hdr" "scanned hdr p i \<noteq> - 1" for i
  proof (cases "i = slot")
    case True
    then show ?thesis using here that ih1 by auto
  next
    case False
    then show ?thesis using that by (intro ih2) auto
  qed
  have C: "highest_seqno s' = highest_seqno s \<and> newest s' = newest s \<or>
     slot \<le> newest s' \<and> newest s' < hdr_numslots hdr \<and> scanned hdr p (newest s') \<noteq> - 1 \<and>
     scanned hdr p (newest s') = highest_seqno s' \<and> highest_seqno s < highest_seqno s'"
  proof (cases "?sq \<noteq> - 1 \<and> ?sq > highest_seqno s")
    case True
    then have h1: "highest_seqno ?s1 = ?sq" "newest ?s1 = slot" by (simp_all add: s1)
    from ih3 show ?thesis
    proof
      assume "highest_seqno s' = highest_seqno ?s1 \<and> newest s' = newest ?s1"
      then show ?thesis using h1 True lt by simp
    next
      assume a: "slot + 1 \<le> newest s' \<and> newest s' < hdr_numslots hdr \<and>
        scanned hdr p (newest s') \<noteq> - 1 \<and>
        scanned hdr p (newest s') = highest_seqno s' \<and> highest_seqno ?s1 < highest_seqno s'"
      then have "highest_seqno ?s1 < highest_seqno s'" by simp
      with mono have "highest_seqno s < highest_seqno s'" by (rule le_less_trans)
      with a show ?thesis by (intro disjI2) auto
    qed
  next
    case False
    then have h1: "highest_seqno ?s1 = highest_seqno s" "newest ?s1 = newest s"
      by (auto simp: s1)
    from ih3 show ?thesis unfolding h1 by auto
  qed
  from A B C show ?case by blast
qed

lemma scan_slots_oldest:
  assumes "scan_slots hdr slot os s p = (None, s', p')"
  shows "\<exists>os'. os' \<le> os \<and>
    (\<forall>i. slot \<le> i \<and> i < hdr_numslots hdr \<and> scanned hdr p i \<noteq> - 1
         \<longrightarrow> os' \<le> scanned hdr p i) \<and>
    (os' = os \<and> oldest s' = oldest s \<or>
     slot \<le> oldest s' \<and> oldest s' < hdr_numslots hdr \<and> scanned hdr p (oldest s') \<noteq> - 1 \<and>
     scanned hdr p (oldest s') = os' \<and> os' < os)"
  using assms
proof (induction "nat (hdr_numslots hdr - slot)" arbitrary: slot os s p)
  case 0
  then have n: "\<not> slot < hdr_numslots hdr" by simp
  from scan_slots_done[OF 0(2) this] n show ?case by (intro exI[of _ os]) auto
next
  case (Suc k)
  then have lt: "slot < hdr_numslots hdr" by simp
  have k: "k = nat (hdr_numslots hdr - (slot + 1))" using Suc.hyps(2) by simp
  let ?sq = "scanned hdr p slot"
  let ?s0 = "s\<lparr>partition_err := ESP_OK\<rparr>"
  let ?os1 = "fst (scan_entry slot ?sq os ?s0)"
  let ?s1 = "snd (scan_entry slot ?sq os ?s0)"
  from Suc.hyps(1)[OF k scan_slots_step(2)[OF Suc.prems lt], simplified]
  obtain os' where ih1: "os' \<le> ?os1"
    and ih2: "\<And>i. slot + 1 \<le> i \<Longrightarrow> i < hdr_numslots hdr \<Longrightarrow> scanned hdr p i \<noteq> - 1
         \<Longrightarrow> os' \<le> scanned hdr p i"
    and ih3: "os' = ?os1 \<and> oldest s' = oldest ?s1 \<or>
     slot + 1 \<le> oldest s' \<and> oldest s' < hdr_numslots hdr \<and> scanned hdr p (oldest s') \<noteq> - 1 \<and>
     scanned hdr p (oldest s') = os' \<and> os' < ?os1"
    by auto
  have s1: "?os1 = (if ?sq \<noteq> - 1 \<and> ?sq < os then ?sq else os)"
    "oldest ?s1 = (if ?sq \<noteq> - 1 \<and> ?sq < os then slot else oldest s)"
    using scan_entry_used[of ?sq slot os ?s0] scan_entry_unused[of slot os ?s0]
    by (cases "?sq = - 1"; simp)+
  have mono: "?os1 \<le> os" by (auto simp: s1)
  have here: "?sq \<noteq> - 1 \<Longrightarrow> ?os1 \<le> ?sq" by (auto simp: s1)
  have A: "os' \<le> os" using ih1 mono by (rule order_trans)
  have B: "os' \<le> scanned hdr p i"
    if "slot \<le> i" "i < hdr_numslots hdr" "scanned hdr p i \<noteq> - 1" for i
  proof (cases "i = slot")
    case True
    then have "?os1 \<le> scanned hdr p i" using here that by simp
    with ih1 show ?thesis by (rule order_trans)
  next
    case False
    then show ?thesis using that by (intro ih2) auto
  qed
  have C: "os' = os \<and> oldest s' = oldest s \<or>
     slot \<le> oldest s' \<and> oldest s' < hdr_numslots hdr \<and> scanned hdr p (oldest s') \<noteq> - 1 \<and>
     scanned hdr p (oldest s') = os' \<and> os' < os"
  proof (cases "?sq \<noteq> - 1 \<and> ?sq < os")
    case True
    then have h1: "?os1 = ?sq" "oldest ?s1 = slot" by (auto simp: s1)
    from ih3 show ?thesis
    proof
      assume "os' = ?os1 \<and> oldest s' = oldest ?s1"
      then show ?thesis using h1 True lt by simp
    next
      assume a: "slot + 1 \<le> oldest s' \<and> oldest s' < hdr_numslots hdr \<and>
        scanned hdr p (oldest s') \<noteq> - 1 \<and>
        scanned hdr p (oldest s') = os' \<and> os' < ?os1"
      then have "os' < ?os1" by simp
      then have "os' < os" using mono by (rule less_le_trans)
      with a show ?thesis by (intro disjI2) auto
    qed
  next
    case False
    then have h1: "?os1 = os" "oldest ?s1 = oldest s" by (auto simp: s1)
    from ih3 show ?thesis unfolding h1 by auto
  qed
  from A B C show ?case by blast
qed

lemma scanned_set_step:
  assumes "slot < n"
  shows "{i. slot \<le> i \<and> i < n \<and> P i} =
         (if P slot then insert slot {i. slot + 1 \<le> i \<and> i < n \<and> P i}
          else {i. slot + 1 \<le> i \<and> i < (n::int) \<and> P i})"
  using assms by (auto simp: order_le_less)

lemma scanned_set_finite: "finite {i. slot \<le> i \<and> i < (n::int) \<and> P i}"
  by (rule finite_subset[of _ "{slot..<n}"]) auto

lemma scan_slots_numinuse:
  assumes "scan_slots hdr slot os s p = (None, s', p')"
    and "- (2 ^ 31) \<le> numinuse s" "numinuse s + (hdr_numslots hdr - slot) < 2 ^ 31"
  shows "numinuse s' = numinuse s +
     int (card {i. slot \<le> i \<and> i < hdr_numslots hdr \<and> scanned hdr p i \<noteq> - 1})"
  using assms
proof (induction "nat (hdr_numslots hdr - slot)" arbitrary: slot os s p)
  case 0
  then have n: "\<not> slot < hdr_numslots hdr" by simp
  then have "{i. slot \<le> i \<and> i < hdr_numslots hdr \<and> scanned hdr p i \<noteq> - 1} = {}" by auto
  then have "card {i. slot \<le> i \<and> i < hdr_numslots hdr \<and> scanned hdr p i \<noteq> - 1} = 0"
    by (simp only: card.empty)
  with scan_slots_done(1)[OF 0(2) n] show ?case by (simp only: of_nat_0 add_0_right)
next
  case (Suc k)
  then have lt: "slot < hdr_numslots hdr" by simp
  have k: "k = nat (hdr_numslots hdr - (slot + 1))" using Suc.hyps(2) by simp
  let ?sq = "scanned hdr p slot"
  let ?s0 = "s\<lparr>partition_err := ESP_OK\<rparr>"
  let ?s1 = "snd (scan_entry slot ?sq os ?s0)"
  let ?V = "{i. slot + 1 \<le> i \<and> i < hdr_numslots hdr \<and> scanned hdr p i \<noteq> - 1}"
  have inc: "s32 (numinuse s + 1) = numinuse s + 1"
    using Suc.prems(2,3) lt by (intro s32_id) auto
  have s1: "numinuse ?s1 = (if ?sq \<noteq> - 1 then numinuse s + 1 else numinuse s)"
    using scan_entry_used(2)[of ?sq slot os ?s0] scan_entry_unused[of slot os ?s0] inc
    by (cases "?sq = - 1") simp_all
  have r: "- (2 ^ 31) \<le> numinuse ?s1" "numinuse ?s1 + (hdr_numslots hdr - (slot + 1)) < 2 ^ 31"
    using Suc.prems(2,3) lt by (auto simp: s1)
  from Suc.hyps(1)[OF k scan_slots_step(2)[OF Suc.prems(1) lt] r]
  have ih: "numinuse s' = numinuse ?s1 + int (card ?V)" by simp
  have "slot \<notin> ?V" by simp
  then have c: "card (insert slot ?V) = card ?V + 1"
    using scanned_set_finite[of "slot + 1" "hdr_numslots hdr" "\<lambda>i. scanned hdr p i \<noteq> - 1"]
    by simp
  show ?case
    unfolding scanned_set_step[OF lt, of "\<lambda>i. scanned hdr p i \<noteq> - 1"] ih s1
    using c by simp
qed

lemma scan_slots_no_faults:
  assumes "pending p = []"
  shows "fst (scan_slots hdr slot os s p) = None"
  using assms
proof (induction "nat (hdr_numslots hdr - slot)" arbitrary: slot os s p)
  case 0
  then show ?case by (subst scan_slots_unfold) simp
next
  case (Suc k)
  then have k: "k = nat (hdr_numslots hdr - (slot + 1))" by simp
  have dr: "driver_result p = (ESP_OK, p)" using Suc.prems by (rule driver_result_no_faults)
  show ?case
    using Suc.hyps(1)[OF k Suc.prems] by (subst scan_slots_unfold) (simp add: dr)
qed

lemma scanned_seqno_at:
  assumes "geometry_ok s p" "hdr_datasize hdr = datasize s" "0 \<le> i" "i < numslots s"
  shows "scanned hdr p i = seqno_at p (datasize s) i"
proof -
  have "i \<le> numslots s" using assms by simp
  from geometry_offsets(1,2)[OF assms(1,3) this] show ?thesis
    by (simp add: scanned_def seqno_at_def assms(2) FLASHLOG_SLOT0_def ENTRY_HDR_SIZE_def)
qed

lemma arc_index:
  assumes "0 \<le> o'" "o' < n" "0 \<le> i" "i < (n::int)"
  shows "(o' + (i - o') mod n) mod n = i"
proof -
  have "(o' + (i - o') mod n) mod n = (o' + (i - o')) mod n" by (simp add: mod_add_right_eq)
  then show ?thesis using assms by (simp add: mod_pos_pos_trivial)
qed

lemma arc_set_image:
  assumes "0 \<le> o'" "o' < n" "0 \<le> m" "m \<le> (n::int)"
  shows "{i. 0 \<le> i \<and> i < n \<and> (i - o') mod n < m} = (\<lambda>j. (o' + j) mod n) ` {0..<m}"
proof (intro set_eqI iffI)
  fix i assume "i \<in> {i. 0 \<le> i \<and> i < n \<and> (i - o') mod n < m}"
  then have i: "0 \<le> i" "i < n" "(i - o') mod n < m" by auto
  have "0 \<le> (i - o') mod n" using assms by simp
  with i have "(i - o') mod n \<in> {0..<m}" by simp
  moreover have "i = (o' + (i - o') mod n) mod n" using arc_index[OF assms(1,2) i(1,2)] by simp
  ultimately show "i \<in> (\<lambda>j. (o' + j) mod n) ` {0..<m}" by (rule rev_image_eqI)
next
  fix i assume "i \<in> (\<lambda>j. (o' + j) mod n) ` {0..<m}"
  then obtain j where j: "0 \<le> j" "j < m" "i = (o' + j) mod n" by auto
  have "(i - o') mod n = ((o' + j) mod n - o') mod n" by (simp add: j)
  also have "\<dots> = (o' + j - o') mod n" by (simp only: mod_diff_left_eq)
  also have "\<dots> = j" using j assms by (simp add: mod_pos_pos_trivial)
  finally show "i \<in> {i. 0 \<le> i \<and> i < n \<and> (i - o') mod n < m}"
    using j assms by simp
qed

lemma arc_slot_inj:
  assumes "0 \<le> o'" "o' < n" "0 \<le> m" "m \<le> (n::int)"
  shows "inj_on (\<lambda>j. (o' + j) mod n) {0..<m}"
proof (rule inj_onI)
  fix x y assume x: "x \<in> {0..<m}" and y: "y \<in> {0..<m}" and e: "(o' + x) mod n = (o' + y) mod n"
  have "((o' + x) mod n - o') mod n = ((o' + y) mod n - o') mod n" using e by simp
  then have "(o' + x - o') mod n = (o' + y - o') mod n" by (simp only: mod_diff_left_eq)
  then show "x = y" using x y assms by (simp add: mod_pos_pos_trivial)
qed

lemma arc_set_card:
  assumes "0 \<le> o'" "o' < n" "0 \<le> m" "m \<le> (n::int)"
  shows "int (card {i. 0 \<le> i \<and> i < n \<and> (i - o') mod n < m}) = m"
proof -
  have "card ((\<lambda>j. (o' + j) mod n) ` {0..<m}) = card {0..<m}"
    using arc_slot_inj[OF assms] by (rule card_image)
  then show ?thesis using assms arc_set_image[OF assms] by simp
qed

lemma on_arc_slot:
  assumes "log_inv s p" "0 \<le> i" "i < numslots s" "seqno_at p (datasize s) i \<noteq> - 1"
  obtains j where "0 \<le> j" "j < numinuse s" "i = (oldest s + j) mod numslots s"
proof -
  note iv = log_inv_parts[OF assms(1)]
  note a = arc_ok_parts[OF iv(2)]
  let ?j = "(i - oldest s) mod numslots s"
  have "?j < numinuse s" using iv(9)[OF assms(2,3)] assms(4) by simp
  moreover have "0 \<le> ?j" using assms(3) a by simp
  moreover have "i = (oldest s + ?j) mod numslots s"
    using arc_index[OF a(3,4) assms(2,3)] by simp
  ultimately show thesis using that[of ?j] by blast
qed

lemma arc_slot_valid:
  assumes "log_inv s p" "0 \<le> j" "j < numinuse s"
  shows "0 \<le> (oldest s + j) mod numslots s" "(oldest s + j) mod numslots s < numslots s"
    "seqno_at p (datasize s) ((oldest s + j) mod numslots s) \<noteq> - 1"
proof -
  note iv = log_inv_parts[OF assms(1)]
  note a = arc_ok_parts[OF iv(2)]
  note g = geometry_facts[OF iv(1)]
  show r: "0 \<le> (oldest s + j) mod numslots s" "(oldest s + j) mod numslots s < numslots s"
    using g(7) by auto
  have "((oldest s + j) mod numslots s - oldest s) mod numslots s
        = (oldest s + j - oldest s) mod numslots s" by (simp only: mod_diff_left_eq)
  also have "\<dots> = j" using assms a by (simp add: mod_pos_pos_trivial)
  finally show "seqno_at p (datasize s) ((oldest s + j) mod numslots s) \<noteq> - 1"
    using iv(9)[OF r] assms by simp
qed

text \<open>The scan over the flash of a log that satisfies the invariant finds its oldest and
  newest slot and its highest sequence number again, and adds the number of entries to
  whatever \<open>numinuse\<close> held before.\<close>
lemma scan_recovers:
  assumes inv: "log_inv s p"
    and hdr: "hdr_datasize hdr = datasize s" "hdr_numslots hdr = numslots s"
    and sc: "scan_slots hdr 0 UINT32_MAX s0 p = (None, s1, p1)"
    and init: "highest_seqno s0 = 0" "newest s0 = 0" "oldest s0 = 0"
  shows "highest_seqno s1 = highest_seqno s" "newest s1 = newest s" "oldest s1 = oldest s"
    and "- (2 ^ 31) \<le> numinuse s0 \<Longrightarrow> numinuse s0 + numslots s < 2 ^ 31 \<Longrightarrow>
         numinuse s1 = numinuse s0 + numinuse s"
proof -
  note iv = log_inv_parts[OF inv]
  note a = arc_ok_parts[OF iv(2)]
  note g = geometry_facts[OF iv(1)]
  let ?n = "numslots s" and ?d = "datasize s" and ?o = "oldest s" and ?m = "numinuse s"
  let ?f = "seqno_at p ?d"
  have sc_eq: "scanned hdr p i = ?f i" if "0 \<le> i" "i < ?n" for i
    using scanned_seqno_at[OF iv(1) hdr(1) that] .
  from scan_slots_highest[OF sc] have
    hiA: "\<forall>i. 0 \<le> i \<and> i < hdr_numslots hdr \<and> scanned hdr p i \<noteq> - 1
         \<longrightarrow> scanned hdr p i \<le> highest_seqno s1"
    and hiB: "highest_seqno s1 = highest_seqno s0 \<and> newest s1 = newest s0 \<or>
     0 \<le> newest s1 \<and> newest s1 < hdr_numslots hdr \<and> scanned hdr p (newest s1) \<noteq> - 1 \<and>
     scanned hdr p (newest s1) = highest_seqno s1 \<and> highest_seqno s0 < highest_seqno s1"
    by blast+
  have hi2: "?f i \<le> highest_seqno s1" if "0 \<le> i" "i < ?n" "?f i \<noteq> - 1" for i
    using hiA[rule_format, of i] that sc_eq[OF that(1,2)] by (simp add: hdr)
  have hi3: "highest_seqno s1 = 0 \<and> newest s1 = 0 \<or>
       0 \<le> newest s1 \<and> newest s1 < ?n \<and> ?f (newest s1) \<noteq> - 1 \<and>
       ?f (newest s1) = highest_seqno s1"
  proof (rule disjE[OF hiB])
    assume "highest_seqno s1 = highest_seqno s0 \<and> newest s1 = newest s0"
    then show ?thesis by (simp add: init)
  next
    assume b: "0 \<le> newest s1 \<and> newest s1 < hdr_numslots hdr \<and> scanned hdr p (newest s1) \<noteq> - 1 \<and>
     scanned hdr p (newest s1) = highest_seqno s1 \<and> highest_seqno s0 < highest_seqno s1"
    then have r: "0 \<le> newest s1" "newest s1 < ?n" by (simp_all add: hdr)
    have e: "scanned hdr p (newest s1) = ?f (newest s1)" using sc_eq[OF r] .
    from b have "?f (newest s1) \<noteq> - 1" "?f (newest s1) = highest_seqno s1"
      unfolding e by blast+
    with r show ?thesis by blast
  qed
  from scan_slots_oldest[OF sc] obtain os' where
    olA: "\<forall>i. 0 \<le> i \<and> i < hdr_numslots hdr \<and> scanned hdr p i \<noteq> - 1
         \<longrightarrow> os' \<le> scanned hdr p i"
    and olB: "os' = UINT32_MAX \<and> oldest s1 = oldest s0 \<or>
     0 \<le> oldest s1 \<and> oldest s1 < hdr_numslots hdr \<and> scanned hdr p (oldest s1) \<noteq> - 1 \<and>
     scanned hdr p (oldest s1) = os' \<and> os' < UINT32_MAX"
    by blast
  have ol2: "os' \<le> ?f i" if "0 \<le> i" "i < ?n" "?f i \<noteq> - 1" for i
    using olA[rule_format, of i] that sc_eq[OF that(1,2)] by (simp add: hdr)
  have ol3: "os' = - 1 \<and> oldest s1 = 0 \<or>
       0 \<le> oldest s1 \<and> oldest s1 < ?n \<and> ?f (oldest s1) \<noteq> - 1 \<and> ?f (oldest s1) = os'"
  proof (rule disjE[OF olB])
    assume "os' = UINT32_MAX \<and> oldest s1 = oldest s0"
    then show ?thesis by (simp add: init UINT32_MAX_def)
  next
    assume b: "0 \<le> oldest s1 \<and> oldest s1 < hdr_numslots hdr \<and> scanned hdr p (oldest s1) \<noteq> - 1 \<and>
     scanned hdr p (oldest s1) = os' \<and> os' < UINT32_MAX"
    then have r: "0 \<le> oldest s1" "oldest s1 < ?n" by (simp_all add: hdr)
    have e: "scanned hdr p (oldest s1) = ?f (oldest s1)" using sc_eq[OF r] .
    from b have "?f (oldest s1) \<noteq> - 1" "?f (oldest s1) = os'"
      unfolding e by blast+
    with r show ?thesis by blast
  qed
  have main: "highest_seqno s1 = highest_seqno s \<and> newest s1 = newest s \<and> oldest s1 = ?o"
  proof (cases "?m = 0")
    case True
    have none: "?f i = - 1" if "0 \<le> i" "i < ?n" for i
    proof -
      have "0 \<le> (i - ?o) mod ?n" using g(7) by simp
      then show ?thesis using iv(9)[OF that] True by auto
    qed
    from hi3 none have "highest_seqno s1 = 0 \<and> newest s1 = 0" by auto
    moreover from ol3 none have "oldest s1 = 0" by auto
    ultimately show ?thesis using iv(6)[OF True] by simp
  next
    case False
    then have pos: "0 < ?m" using a by simp
    have nw: "newest s = (?o + (?m - 1)) mod ?n" using a(7)[OF pos] by (simp add: algebra_simps)
    have nwv: "?f (newest s) \<noteq> - 1" "0 \<le> newest s" "newest s < ?n"
      unfolding nw using arc_slot_valid[OF inv, of "?m - 1"] pos by auto
    have h: "highest_seqno s = ?f (newest s)" using iv(7)[OF pos] .
    have hne: "highest_seqno s \<noteq> 0" unfolding h using iv(8)[OF nwv(2,3)] .
    have le1: "highest_seqno s \<le> highest_seqno s1" unfolding h using hi2[OF nwv(2,3,1)] .
    then have "highest_seqno s1 \<noteq> 0" using hne by auto
    with hi3 have n1: "0 \<le> newest s1" "newest s1 < ?n" "?f (newest s1) \<noteq> - 1"
      "?f (newest s1) = highest_seqno s1" by auto
    from on_arc_slot[OF inv n1(1,2,3)] obtain j where
      j: "0 \<le> j" "j < ?m" "newest s1 = (?o + j) mod ?n" by blast
    have le2: "highest_seqno s1 \<le> highest_seqno s"
      using arc_below_highest[OF inv j(1,2)] n1(4) j(3) by simp
    from le1 le2 have heq: "highest_seqno s1 = highest_seqno s" by simp
    have "j = ?m - 1"
    proof (rule ccontr)
      assume "j \<noteq> ?m - 1"
      then have "j < ?m - 1" using j by simp
      then have "?f ((?o + j) mod ?n) < ?f ((?o + (?m - 1)) mod ?n)"
        using j pos by (intro I3_increasing[OF iv(4) iv(2)]) auto
      then show False using n1(4) heq h j(3) nw by simp
    qed
    then have neq: "newest s1 = newest s" using j(3) nw by simp
    have ov: "?f ?o \<noteq> - 1" using arc_slot_valid(3)[OF inv, of 0] pos a by (simp add: mod_pos_pos_trivial)
    have "os' \<le> ?f ?o" using ol2[OF a(3,4) ov] .
    then have "os' \<noteq> - 1" using ov by (metis word_order.extremum_unique)
    with ol3 have o1: "0 \<le> oldest s1" "oldest s1 < ?n" "?f (oldest s1) \<noteq> - 1"
      "?f (oldest s1) = os'" by auto
    from on_arc_slot[OF inv o1(1,2,3)] obtain j' where
      j': "0 \<le> j'" "j' < ?m" "oldest s1 = (?o + j') mod ?n" by blast
    have "j' = 0"
    proof (rule ccontr)
      assume "j' \<noteq> 0"
      then have "0 < j'" using j' by simp
      then have "?f ((?o + 0) mod ?n) < ?f ((?o + j') mod ?n)"
        using j' by (intro I3_increasing[OF iv(4) iv(2)]) auto
      then have "?f ?o < os'" using a o1(4) j'(3) by (simp add: mod_pos_pos_trivial)
      with \<open>os' \<le> ?f ?o\<close> show False by simp
    qed
    then have "oldest s1 = ?o" using j'(3) a by (simp add: mod_pos_pos_trivial)
    with heq neq show ?thesis by simp
  qed
  then show "highest_seqno s1 = highest_seqno s" "newest s1 = newest s" "oldest s1 = oldest s"
    by simp_all
  assume r: "- (2 ^ 31) \<le> numinuse s0" "numinuse s0 + numslots s < 2 ^ 31"
  have "{i. 0 \<le> i \<and> i < hdr_numslots hdr \<and> scanned hdr p i \<noteq> - 1}
        = {i. 0 \<le> i \<and> i < ?n \<and> (i - ?o) mod ?n < ?m}"
  proof -
    have "(0 \<le> i \<and> i < hdr_numslots hdr \<and> scanned hdr p i \<noteq> - 1)
          = (0 \<le> i \<and> i < ?n \<and> (i - ?o) mod ?n < ?m)" for i
    proof (cases "0 \<le> i \<and> i < ?n")
      case True
      then have r: "0 \<le> i" "i < ?n" by simp_all
      show ?thesis using sc_eq[OF r] iv(9)[OF r] r by (simp add: hdr)
    next
      case False
      then show ?thesis by (auto simp: hdr)
    qed
    then show ?thesis by simp
  qed
  then have "int (card {i. 0 \<le> i \<and> i < hdr_numslots hdr \<and> scanned hdr p i \<noteq> - 1}) = ?m"
    using arc_set_card[OF a(3,4,1,2)] by simp
  then show "numinuse s1 = numinuse s0 + numinuse s"
    using scan_slots_numinuse[OF sc] r by (simp add: hdr)
qed

section \<open>Closing and opening again\<close>

lemma dvd_pow2:
  "0 < (x::int) \<Longrightarrow> x dvd 2 ^ n \<Longrightarrow> \<exists>j\<le>n. x = 2 ^ j"
proof (induction n arbitrary: x)
  case 0
  then have "x = 1" by simp
  then show ?case by simp
next
  case (Suc n)
  show ?case
  proof (cases "even x")
    case True
    then obtain y where y: "x = 2 * y" by (auto elim: evenE)
    with Suc.prems have "0 < y" "y dvd 2 ^ n" by simp_all
    from Suc.IH[OF this] obtain j where "j \<le> n" "y = 2 ^ j" by blast
    with y show ?thesis by (intro exI[of _ "Suc j"]) simp
  next
    case False
    then have "coprime x 2" by simp
    then have "x dvd 2 ^ n" using Suc.prems(2) by (simp add: coprime_dvd_mult_right_iff)
    from Suc.IH[OF Suc.prems(1) this] obtain j where "j \<le> n" "x = 2 ^ j" by blast
    then show ?thesis by (intro exI[of _ j]) simp
  qed
qed

text \<open>The entry size of an open log passes the size check of \<open>flashlog_open\<close>.\<close>
lemma geometry_size_check:
  assumes "geometry_ok s p"
  shows "\<not> (entry_length (datasize s) > 4096 \<or>
            (entry_length (datasize s) AND s32 (entry_length (datasize s) - 1)) \<noteq> 0)"
proof -
  note g = geometry_facts[OF assms]
  note len = geometry_length[OF assms]
  have "(datasize s + 4) dvd 2 ^ 12" using assms by (simp add: geometry_ok_def ENTRY_HDR_SIZE_def)
  with g(1) obtain j where j: "j \<le> 12" "datasize s + 4 = 2 ^ j"
    using dvd_pow2[of "datasize s + 4" 12] by auto
  have "s32 (datasize s + 4 - 1) = datasize s + 4 - 1" using g(1,2) by (intro s32_id) auto
  then show ?thesis
    unfolding len(1) using g(2) pow2_check[of j] j(2) by simp
qed

text \<open>
  Opening a log that satisfies the invariant and has its header: the recovery scan leaves
  the flash as it is and finds \<open>oldest\<close>, \<open>newest\<close> and \<open>highest_seqno\<close> again. \<open>numinuse\<close> is
  counted up from the value that the state structure held before the call.
\<close>
lemma reopen_fields:
  assumes inv: "log_inv s p" and hi: "header_intact s p"
    and op: "flashlog_open (Some p) (datasize s) heap st = (Returned FLASHLOG_ERR_OK, s', q)"
  shows "\<exists>p'. q = Some p' \<and> flash p' = flash p \<and> psize p' = psize p"
    and "datasize s' = datasize s" "numslots s' = numslots s"
    and "oldest s' = oldest s" "newest s' = newest s" "highest_seqno s' = highest_seqno s"
    and "current s' = newest s" "entrybuf s' = heap"
    and "- (2 ^ 31) \<le> numinuse st \<Longrightarrow> numinuse st + numslots s < 2 ^ 31 \<Longrightarrow>
         numinuse s' = numinuse st + numinuse s"
proof -
  let ?h = "hdr_of_bytes (flash p)"
  let ?sa = "st\<lparr>datasize := datasize s, partition_err := ESP_OK\<rparr>"
  let ?pa = "snd (driver_result p)"
  let ?sb = "?sa\<lparr>numslots := hdr_numslots ?h, highest_seqno := 0, newest := 0, oldest := 0\<rparr>"
  have h: "hdr_id ?h = FLASHLOG_ID" "hdr_datasize ?h = datasize s" "hdr_numslots ?h = numslots s"
    using hi by (simp_all add: header_intact_def)
  from op obtain s1 p1 where
    br: "open_existing ?h ?sa ?pa = (None, s1, p1)"
    and s': "s' = s1\<lparr>current := newest s1, entrybuf := heap\<rparr>" and q: "q = Some p1"
    by (rule open_accepted_cases) (simp_all add: h)
  from br have sc: "scan_slots ?h 0 UINT32_MAX ?sb ?pa = (None, s1, p1)"
    by (simp add: open_existing_def)
  have inv0: "log_inv s ?pa" using inv log_inv_same_flash(1)[of ?pa p s] by simp
  note fr = scan_slots_frame[OF sc]
  have init: "highest_seqno ?sb = 0" "newest ?sb = 0" "oldest ?sb = 0" by simp_all
  note rc = scan_recovers[OF inv0 h(2,3) sc init]
  show "\<exists>p'. q = Some p' \<and> flash p' = flash p \<and> psize p' = psize p"
    using q fr by simp
  show "datasize s' = datasize s" "numslots s' = numslots s"
    using fr by (simp_all add: s' h)
  show "oldest s' = oldest s" "newest s' = newest s" "highest_seqno s' = highest_seqno s"
    "current s' = newest s" "entrybuf s' = heap"
    using rc(1,2,3) by (simp_all add: s')
  assume "- (2 ^ 31) \<le> numinuse st" "numinuse st + numslots s < 2 ^ 31"
  then show "numinuse s' = numinuse st + numinuse s"
    using rc(4) by (simp add: s')
qed

text \<open>With a driver that does not fail and memory for the buffer, opening such a log
  returns \<open>FLASHLOG_ERR_OK\<close>.\<close>
lemma reopen_returns_ok:
  assumes geo: "geometry_ok s p" and hi: "header_intact s p" and nf: "pending p = []"
  shows "fst (flashlog_open (Some p) (datasize s) (Some buf) st) = Returned FLASHLOG_ERR_OK"
proof -
  let ?h = "hdr_of_bytes (flash p)"
  let ?sa = "st\<lparr>datasize := datasize s, partition_err := ESP_OK\<rparr>"
  have h: "hdr_id ?h = FLASHLOG_ID" "hdr_datasize ?h = datasize s"
    using hi by (simp_all add: header_intact_def)
  have dr: "driver_result p = (ESP_OK, p)" using nf by (rule driver_result_no_faults)
  obtain x s1 p1 where br: "open_existing ?h ?sa p = (x, s1, p1)"
    by (cases "open_existing ?h ?sa p") auto
  have "fst (open_existing ?h ?sa p) = None"
    unfolding open_existing_def using nf by (rule scan_slots_no_faults)
  with br have x: "x = None" by simp
  have "flashlog_open (Some p) (datasize s) (Some buf) st = open_finish (Some buf) s1 p1"
    using flashlog_open_via[OF geometry_size_check[OF geo] dr, of st x s1 p1 "Some buf"] br
    by (simp add: h x)
  then show ?thesis by (simp add: open_finish_result)
qed

lemma full_example_header: "header_intact full_state full_partition"
proof -
  let ?h = "\<lparr>hdr_id = FLASHLOG_ID, hdr_datasize = 2044, hdr_numslots = 4\<rparr>"
  have "hdr_of_bytes (flash full_partition) = hdr_of_bytes (bytes_of_hdr ?h)"
    by (rule hdr_of_bytes_cong) (simp add: full_partition_def)
  also have "\<dots> = ?h" by (rule hdr_roundtrip) simp_all
  finally show ?thesis
    by (simp add: header_intact_def full_state_def cursor_state_def zero_state_def)
qed

text \<open>
  C3. Closing a log that satisfies the invariant of opened logs and has its header, and
  opening it again with the same \<open>datasize\<close> and the same state structure, as
  \<open>flashlog_close (&state)\<close> followed by \<open>flashlog_open (name, datasize, &state)\<close> does:
  the flash is unchanged, \<open>oldest\<close>, \<open>newest\<close> and \<open>highest_seqno\<close> are as before the
  close and \<open>current\<close> is \<open>newest\<close>, but \<open>numinuse\<close> is twice what it was, since the
  recovery scan counts the entries on top of the value that the structure still holds.
  It is the value before the close only for an empty log.
\<close>
theorem reopen_after_close:
  assumes "log_inv s p" and "header_intact s p"
    and "flashlog_open (Some p) (datasize s) heap (snd (flashlog_close s))
         = (Returned FLASHLOG_ERR_OK, s', q)"
  shows "(\<exists>p'. q = Some p' \<and> flash p' = flash p) \<and>
    oldest s' = oldest s \<and> newest s' = newest s \<and> highest_seqno s' = highest_seqno s \<and>
    current s' = newest s' \<and>
    numinuse s' = 2 * numinuse s \<and>
    (numinuse s' = numinuse s \<longleftrightarrow> numinuse s = 0)"
proof -
  note iv = log_inv_parts[OF assms(1)]
  note a = arc_ok_parts[OF iv(2)]
  note g = geometry_facts[OF iv(1)]
  note r = reopen_fields[OF assms]
  have ps: "psize p < 2 ^ 31" using iv(1) by (simp add: geometry_ok_def)
  have "numslots s * 4 \<le> numslots s * (datasize s + 4)"
    using g(1,7) by (intro mult_left_mono) auto
  then have "numslots s < 2 ^ 30" using g(8) ps by simp
  then have n: "numinuse s' = 2 * numinuse s"
    using r(9) a(1,2) by (simp add: flashlog_close_def)
  have f: "\<exists>p'. q = Some p' \<and> flash p' = flash p" using r(1) by blast
  have c: "current s' = newest s'" using r(5,7) by simp
  have e: "(numinuse s' = numinuse s) = (numinuse s = 0)" using n by auto
  show ?thesis
    by (intro conjI) (fact f r(4) r(5) r(6) c n e)+
qed

theorem reopen_after_close_witness:
  "log_inv full_state full_partition \<and> header_intact full_state full_partition \<and>
   fst (flashlog_open (Some full_partition) (datasize full_state) (Some (\<lambda>_. 0))
          (snd (flashlog_close full_state))) = Returned FLASHLOG_ERR_OK \<and>
   numinuse full_state = 4 \<and> numslots full_state = 4 \<and>
   numinuse (fst (snd (flashlog_open (Some full_partition) (datasize full_state)
                         (Some (\<lambda>_. 0)) (snd (flashlog_close full_state))))) = 8 \<and>
   oldest (fst (snd (flashlog_open (Some full_partition) (datasize full_state)
                         (Some (\<lambda>_. 0)) (snd (flashlog_close full_state))))) = 0 \<and>
   newest (fst (snd (flashlog_open (Some full_partition) (datasize full_state)
                         (Some (\<lambda>_. 0)) (snd (flashlog_close full_state))))) = 3 \<and>
   highest_seqno (fst (snd (flashlog_open (Some full_partition) (datasize full_state)
                         (Some (\<lambda>_. 0)) (snd (flashlog_close full_state))))) = 4"
proof -
  let ?R = "flashlog_open (Some full_partition) (datasize full_state) (Some (\<lambda>_. 0))
              (snd (flashlog_close full_state))"
  have f: "numslots full_state = 4" "numinuse full_state = 4"
    "oldest full_state = 0" "newest full_state = 3" "highest_seqno full_state = 4"
    by (simp_all add: full_state_def cursor_state_def zero_state_def)
  have ok: "fst ?R = Returned FLASHLOG_ERR_OK"
    using log_inv_parts(1)[OF full_example_inv] full_example_header
    by (rule reopen_returns_ok) (simp add: full_partition_def)
  then have R: "?R = (Returned FLASHLOG_ERR_OK, fst (snd ?R), snd (snd ?R))"
    by (metis prod.collapse)
  show ?thesis
    using reopen_after_close[OF full_example_inv full_example_header R] ok
      full_example_inv full_example_header
    by (simp add: f)
qed

section \<open>A sequence of adds\<close>

lemma log_inv_entrybuf [simp]:
  "log_inv (s\<lparr>entrybuf := b\<rparr>) p = log_inv s p"
  "header_intact (s\<lparr>entrybuf := b\<rparr>) p = header_intact s p"
  "I3 (s\<lparr>entrybuf := b\<rparr>) p = I3 s p"
  by (simp_all add: log_inv_def geometry_ok_def I1_def I3_def arc_ok_def on_arc_def
      arc_length_def arc_slot_def entries_per_unit_def header_intact_def)

lemma add_entries_step:
  assumes "entrybuf s = Some buf"
    and "flashlog_add (s\<lparr>entrybuf := Some (memcpy buf 4 d (datasize s))\<rparr>) p = (r, s1, p1)"
  shows "add_entries (d # ds) s p =
         (if r = Returned FLASHLOG_ERR_OK then add_entries ds s1 p1 else None)"
  using assms by simp

lemma add_entries_stepE:
  assumes "add_entries (d # ds) s p = Some (s', p')"
  obtains buf s1 p1 where "entrybuf s = Some buf"
    "flashlog_add (s\<lparr>entrybuf := Some (memcpy buf 4 d (datasize s))\<rparr>) p
     = (Returned FLASHLOG_ERR_OK, s1, p1)"
    "add_entries ds s1 p1 = Some (s', p')"
proof (cases "entrybuf s")
  case None
  with assms show ?thesis by simp
next
  case (Some buf)
  let ?R = "flashlog_add (s\<lparr>entrybuf := Some (memcpy buf 4 d (datasize s))\<rparr>) p"
  obtain r s1 p1 where R: "?R = (r, s1, p1)" by (cases ?R) auto
  from assms add_entries_step[OF Some R, of ds]
  have "r = Returned FLASHLOG_ERR_OK" "add_entries ds s1 p1 = Some (s', p')"
    by (auto split: if_splits)
  with Some R that show ?thesis by blast
qed

lemma add_pending:
  assumes "pending p = []"
  shows "pending (snd (snd (flashlog_add s p))) = []"
proof (cases "entrybuf s")
  case None
  then show ?thesis using assms by (simp add: flashlog_add_def)
next
  case (Some buf)
  let ?a = "add_advance s"
  let ?off = "slot_offset (newest ?a) (datasize ?a)" and ?l = "entry_length (datasize ?a)"
  let ?ev = "add_evict ?off ?l ?a p"
  have dr: "driver_result p = (ESP_OK, p)" using assms by (rule driver_result_no_faults)
  have pe: "pending (snd (snd ?ev)) = []"
    using assms dr
    by (simp add: add_evict_def Let_def split_beta esp_partition_erase_range_def)
  obtain st s1 p1 where ev: "?ev = (st, s1, p1)" by (cases ?ev) auto
  with pe have p1: "pending p1 = []" by simp
  show ?thesis
    using flashlog_add_via[OF Some ev] add_store_fields(5)[of ?off ?l buf s1 p1] p1
    by (cases st) simp_all
qed

lemma add_keeps_low:
  assumes inv: "log_inv s p" and buf: "entrybuf s = Some buf"
    and res: "flashlog_add s p = (r, s', p')" and low: "a < 4096"
  shows "flash p' a = flash p a"
proof -
  note iv = log_inv_parts[OF inv]
  note ar = arc_ok_parts[OF iv(2)]
  note g = geometry_facts[OF iv(1)]
  show ?thesis
  proof (cases "numinuse s = numslots s")
    case False
    have "0 \<le> (oldest s + numinuse s) mod numslots s * (datasize s + 4)"
      using add_target_range(1)[OF inv] g(1) by simp
    then show ?thesis using add_not_full(4)[OF inv buf False res] low by simp
  next
    case True
    note fl = add_full[OF inv buf True res]
    have o: "0 \<le> oldest s * (datasize s + 4)" using ar(3) g(1) by simp
    from fl(1) show ?thesis
    proof (elim disjE)
      assume "r = Returned FLASHLOG_ERR_ERASEERR"
      from fl(3)[OF this] show ?thesis by simp
    next
      assume "r = Returned FLASHLOG_ERR_WRITEERR"
      from fl(5)[OF this] o low show ?thesis by simp
    next
      assume "r = Returned FLASHLOG_ERR_OK"
      from fl(6)[OF this] o low show ?thesis by simp
    qed
  qed
qed

lemma seqno_bound_step:
  assumes "unat (h :: uint32_t) + Suc n < 2 ^ 32 - 1"
  shows "h < UINT32_MAX - 1" "unat (h + 1) + n < 2 ^ 32 - 1"
proof -
  have u: "unat h < 2 ^ 32 - 2" using assms by simp
  have m: "unat (UINT32_MAX - 1 :: uint32_t) = 2 ^ 32 - 2" by (simp add: UINT32_MAX_def)
  show "h < UINT32_MAX - 1" using u m by (simp add: word_less_nat_alt)
  have "unat (h + 1) = unat h + 1" using u by (simp add: unat_word_ariths)
  then show "unat (h + 1) + n < 2 ^ 32 - 1" using assms by simp
qed

text \<open>One successful add on a log that satisfies the invariant, below the last two sequence
  numbers.\<close>
lemma add_step:
  assumes inv: "log_inv s p" and buf: "entrybuf s = Some buf"
    and hs: "highest_seqno s < UINT32_MAX - 1"
    and res: "flashlog_add s p = (Returned FLASHLOG_ERR_OK, s', p')"
  shows "log_inv s' p'" "I3 s' p'" "highest_seqno s' = highest_seqno s + 1"
    "seqno_at p' (datasize s') (newest s') = highest_seqno s + 1"
    "datasize s' = datasize s" "numslots s' = numslots s" "entrybuf s' \<noteq> None"
    "header_intact s p \<Longrightarrow> header_intact s' p'"
proof -
  note st = add_ok_state[OF inv buf res]
  show i: "log_inv s' p'" using inv buf hs res by (rule add_ok_inv)
  show "I3 s' p'" using log_inv_parts(4)[OF i] .
  show "highest_seqno s' = highest_seqno s + 1" using st(5) .
  show "seqno_at p' (datasize s') (newest s') = highest_seqno s + 1"
    using add_ok_slots[OF inv buf res, of "newest s'"] st(1,4) by simp
  show "datasize s' = datasize s" "numslots s' = numslots s" using st(1,2) .
  show "entrybuf s' \<noteq> None" using st(9) by simp
  assume h: "header_intact s p"
  have "hdr_of_bytes (flash p') = hdr_of_bytes (flash p)"
    by (rule hdr_of_bytes_cong) (simp add: add_keeps_low[OF inv buf res])
  then show "header_intact s' p'" using h st(1,2) by (simp add: header_intact_def)
qed

lemma add_entries_inv:
  assumes "log_inv s p" "unat (highest_seqno s) + length ds < 2 ^ 32 - 1"
    "add_entries ds s p = Some (s', p')"
  shows "log_inv s' p' \<and> unat (highest_seqno s') = unat (highest_seqno s) + length ds \<and>
    highest_seqno s' = highest_seqno s + word_of_nat (length ds) \<and>
    datasize s' = datasize s \<and> numslots s' = numslots s \<and>
    (header_intact s p \<longrightarrow> header_intact s' p') \<and>
    (ds \<noteq> [] \<longrightarrow> seqno_at p' (datasize s') (newest s') = highest_seqno s')"
  using assms
proof (induction ds arbitrary: s p)
  case Nil
  then show ?case by simp
next
  case (Cons d ds)
  from Cons.prems(3) obtain buf s1 p1 where buf: "entrybuf s = Some buf"
    and res: "flashlog_add (s\<lparr>entrybuf := Some (memcpy buf 4 d (datasize s))\<rparr>) p
              = (Returned FLASHLOG_ERR_OK, s1, p1)"
    and rest: "add_entries ds s1 p1 = Some (s', p')"
    by (rule add_entries_stepE)
  let ?sf = "s\<lparr>entrybuf := Some (memcpy buf 4 d (datasize s))\<rparr>"
  have inv: "log_inv ?sf p" using Cons.prems(1) by simp
  have b: "entrybuf ?sf = Some (memcpy buf 4 d (datasize s))" by simp
  have bd: "unat (highest_seqno s) + Suc (length ds) < 2 ^ 32 - 1" using Cons.prems(2) by simp
  note sb = seqno_bound_step[OF bd]
  have hs: "highest_seqno ?sf < UINT32_MAX - 1" using sb(1) by simp
  note st = add_step[OF inv b hs res]
  have h1: "highest_seqno s1 = highest_seqno s + 1" using st(3) by simp
  have u1: "unat (highest_seqno s1) = unat (highest_seqno s) + 1"
    unfolding h1 using bd by (simp add: unat_word_ariths)
  have bd1: "unat (highest_seqno s1) + length ds < 2 ^ 32 - 1" using sb(2) h1 by simp
  note ih = Cons.IH[OF st(1) bd1 rest]
  have c1: "log_inv s' p'" using ih by blast
  from ih have "unat (highest_seqno s') = unat (highest_seqno s1) + length ds" by blast
  then have c2: "unat (highest_seqno s') = unat (highest_seqno s) + length (d # ds)"
    using u1 by simp
  from ih have "highest_seqno s' = highest_seqno s1 + word_of_nat (length ds)" by blast
  then have c3: "highest_seqno s' = highest_seqno s + word_of_nat (length (d # ds))"
    using h1 by simp
  have c4: "datasize s' = datasize s" "numslots s' = numslots s" using ih st(5,6) by simp_all
  have c5: "header_intact s p \<longrightarrow> header_intact s' p'"
    using ih st(8) by simp
  have c6: "d # ds \<noteq> [] \<longrightarrow> seqno_at p' (datasize s') (newest s') = highest_seqno s'"
  proof (cases "ds = []")
    case True
    with rest have "s' = s1" "p' = p1" by simp_all
    then show ?thesis using st(4) h1 by simp
  next
    case False
    then show ?thesis using ih by blast
  qed
  show ?case by (intro conjI) (fact c1 c2 c3 c4 c5 c6)+
qed

lemma add_entries_prefix:
  assumes "add_entries ds s p = Some (s', p')"
  shows "\<exists>sk pk. add_entries (take k ds) s p = Some (sk, pk) \<and>
                 add_entries (drop k ds) sk pk = Some (s', p')"
  using assms
proof (induction ds arbitrary: s p k)
  case Nil
  then show ?case by simp
next
  case (Cons d ds)
  show ?case
  proof (cases k)
    case 0
    then show ?thesis using Cons.prems by simp
  next
    case (Suc k')
    from Cons.prems obtain buf s1 p1 where buf: "entrybuf s = Some buf"
      and res: "flashlog_add (s\<lparr>entrybuf := Some (memcpy buf 4 d (datasize s))\<rparr>) p
                = (Returned FLASHLOG_ERR_OK, s1, p1)"
      and rest: "add_entries ds s1 p1 = Some (s', p')"
      by (rule add_entries_stepE)
    from Cons.IH[OF rest, of k'] obtain sk pk where
      "add_entries (take k' ds) s1 p1 = Some (sk, pk)"
      "add_entries (drop k' ds) sk pk = Some (s', p')" by blast
    then show ?thesis
      using add_entries_step[OF buf res, of "take k' ds"] Suc by simp
  qed
qed

lemma add_entries_each:
  assumes inv: "log_inv s p" and bd: "unat (highest_seqno s) + length ds < 2 ^ 32 - 1"
    and run: "add_entries ds s p = Some (s', p')" and k: "k < length ds"
  shows "\<exists>sk pk buf sk' pk'.
    add_entries (take k ds) s p = Some (sk, pk) \<and> entrybuf sk = Some buf \<and>
    flashlog_add (sk\<lparr>entrybuf := Some (memcpy buf 4 (ds ! k) (datasize sk))\<rparr>) pk
      = (Returned FLASHLOG_ERR_OK, sk', pk') \<and>
    highest_seqno sk' = highest_seqno sk + 1 \<and>
    seqno_at pk' (datasize sk') (newest sk') = highest_seqno sk + 1 \<and>
    I3 sk pk \<and> I3 sk' pk'"
proof -
  from add_entries_prefix[OF run, of k] obtain sk pk where
    pre: "add_entries (take k ds) s p = Some (sk, pk)"
    and post: "add_entries (drop k ds) sk pk = Some (s', p')" by blast
  have lk: "length (take k ds) = k" using k by simp
  have bk: "unat (highest_seqno s) + length (take k ds) < 2 ^ 32 - 1" using bd k by simp
  note pk = add_entries_inv[OF inv bk pre, unfolded lk]
  from pk have ik: "log_inv sk pk" by blast
  from pk have uk: "unat (highest_seqno sk) = unat (highest_seqno s) + k" by blast
  have dr: "drop k ds = ds ! k # drop (Suc k) ds" using k by (simp add: Cons_nth_drop_Suc)
  from post[unfolded dr] obtain buf sk' pk' where buf: "entrybuf sk = Some buf"
    and res: "flashlog_add (sk\<lparr>entrybuf := Some (memcpy buf 4 (ds ! k) (datasize sk))\<rparr>) pk
              = (Returned FLASHLOG_ERR_OK, sk', pk')"
    by (rule add_entries_stepE)
  let ?sf = "sk\<lparr>entrybuf := Some (memcpy buf 4 (ds ! k) (datasize sk))\<rparr>"
  have "unat (highest_seqno sk) + Suc 0 < 2 ^ 32 - 1" using uk bd k by simp
  from seqno_bound_step(1)[OF this] have hs: "highest_seqno ?sf < UINT32_MAX - 1" by simp
  have inv': "log_inv ?sf pk" using ik by simp
  have b: "entrybuf ?sf = Some (memcpy buf 4 (ds ! k) (datasize sk))" by simp
  note st = add_step[OF inv' b hs res]
  have "highest_seqno sk' = highest_seqno sk + 1"
    "seqno_at pk' (datasize sk') (newest sk') = highest_seqno sk + 1"
    "I3 sk pk" "I3 sk' pk'"
    using st(2,3,4) log_inv_parts(4)[OF ik] by simp_all
  with pre buf res show ?thesis by blast
qed

lemma add_entries_returns:
  assumes "log_inv s p" "entrybuf s = Some buf" "pending p = []"
    "unat (highest_seqno s) + length ds < 2 ^ 32 - 1"
  shows "\<exists>s' p'. add_entries ds s p = Some (s', p') \<and> pending p' = []"
  using assms
proof (induction ds arbitrary: s p buf)
  case Nil
  then show ?case by simp
next
  case (Cons d ds)
  let ?sf = "s\<lparr>entrybuf := Some (memcpy buf 4 d (datasize s))\<rparr>"
  let ?R = "flashlog_add ?sf p"
  have inv: "log_inv ?sf p" using Cons.prems(1) by simp
  have b: "entrybuf ?sf = Some (memcpy buf 4 d (datasize s))" by simp
  have "fst ?R = Returned FLASHLOG_ERR_OK" using inv b Cons.prems(3) by (rule add_returns_ok)
  then have R: "?R = (Returned FLASHLOG_ERR_OK, fst (snd ?R), snd (snd ?R))"
    by (metis prod.collapse)
  have bd: "unat (highest_seqno s) + Suc (length ds) < 2 ^ 32 - 1" using Cons.prems(4) by simp
  note sb = seqno_bound_step[OF bd]
  have hs: "highest_seqno ?sf < UINT32_MAX - 1" using sb(1) by simp
  note st = add_step[OF inv b hs R]
  from st(7) obtain buf1 where b1: "entrybuf (fst (snd ?R)) = Some buf1" by auto
  have p1: "pending (snd (snd ?R)) = []" using Cons.prems(3) by (rule add_pending)
  have bd1: "unat (highest_seqno (fst (snd ?R))) + length ds < 2 ^ 32 - 1"
    using sb(2) st(3) by simp
  from Cons.IH[OF st(1) b1 p1 bd1] obtain s' p' where
    "add_entries ds (fst (snd ?R)) (snd (snd ?R)) = Some (s', p')" "pending p' = []" by blast
  then show ?case
    using add_entries_step[OF Cons.prems(2) R, of ds] by simp
qed

text \<open>Opening the log again keeps I3, whatever the state structure held before.\<close>
lemma reopen_I3:
  assumes inv: "log_inv s p" and hi: "header_intact s p"
    and op: "flashlog_open (Some p) (datasize s) heap st = (Returned FLASHLOG_ERR_OK, r, q)"
  shows "\<exists>p'. q = Some p' \<and> flash p' = flash p \<and> I3 r p'"
proof -
  note iv = log_inv_parts[OF inv]
  note rf = reopen_fields[OF inv hi op]
  from rf(1) obtain p' where p': "q = Some p'" "flash p' = flash p" by blast
  have sq: "seqno_at p' (datasize r) (arc_slot r j) = seqno_at p (datasize s) (arc_slot s j)" for j
    using p'(2) rf(2,3,4) by (simp add: seqno_at_def arc_slot_def)
  have al: "arc_length r = 0 \<or> arc_length r = 1 \<or> arc_length r = arc_length s"
  proof (cases "numinuse s = 0")
    case True
    from iv(6)[OF this] show ?thesis using rf(3,4,5) by (simp add: arc_length_def)
  next
    case False
    then show ?thesis using rf(3,4,5) by (simp add: arc_length_def)
  qed
  have "I3 r p'"
    unfolding I3_def sq
  proof (intro ballI)
    fix j2 j1 assume j: "j2 \<in> {0..<arc_length r}" "j1 \<in> {0..<j2}"
    then have "arc_length r \<noteq> 0" "arc_length r \<noteq> 1" by auto
    with al have "arc_length r = arc_length s" by simp
    with j iv(4) show "seqno_at p (datasize s) (arc_slot s j1)
                       < seqno_at p (datasize s) (arc_slot s j2)"
      by (simp add: I3_def)
  qed
  with p' show ?thesis by blast
qed

text \<open>What \<open>flashlog_add\<close> does to a log that is not full, for any partition contents.\<close>
lemma add_plain:
  assumes geo: "geometry_ok s p" and arc: "arc_ok s" and buf: "entrybuf s = Some buf"
    and nf: "numinuse s \<noteq> numslots s"
    and res: "flashlog_add s p = (r, s', p')"
  defines "t \<equiv> (if 0 < numinuse s then (newest s + 1) mod numslots s else newest s)"
  shows "r = (if fst (driver_result p) \<noteq> ESP_OK then Returned FLASHLOG_ERR_WRITEERR
              else Returned FLASHLOG_ERR_OK)"
    and "s' = s\<lparr>newest := t, highest_seqno := highest_seqno s + 1,
               entrybuf := Some (put_le32 buf 0 (highest_seqno s + 1)),
               numinuse := numinuse s + 1, partition_err := fst (driver_result p)\<rparr>"
    and "psize p' = psize p"
    and "flash p' =
     (if fst (driver_result p) = ESP_OK
      then (\<lambda>a. if 4096 + t * (datasize s + 4) \<le> a \<and>
                   a < 4096 + t * (datasize s + 4) + (datasize s + 4)
                then flash p a AND put_le32 buf 0 (highest_seqno s + 1)
                       (a - (4096 + t * (datasize s + 4)))
                else flash p a)
      else flash p)"
proof -
  note a = arc_ok_parts[OF arc]
  note g = geometry_facts[OF geo]
  let ?a = "s\<lparr>newest := t\<rparr>"
  have adv: "add_advance s = ?a" unfolding t_def using add_advance_fields[OF arc g(9)] by simp
  have m: "0 \<le> (newest s + 1) mod numslots s" "(newest s + 1) mod numslots s \<le> numslots s"
    using g(7) by (simp_all add: less_imp_le)
  have tr: "0 \<le> t" "t \<le> numslots s"
  proof -
    show "0 \<le> t" using m(1) a(5) by (simp add: t_def)
    show "t \<le> numslots s" using m(2) a(6) by (simp add: t_def)
  qed
  have off: "slot_offset t (datasize s) = 4096 + t * (datasize s + 4)"
    "u32 (4096 + t * (datasize s + 4)) = 4096 + t * (datasize s + 4)"
    using geometry_offsets[OF geo tr] by auto
  note len = geometry_length[OF geo]
  have l0: "datasize s + 4 \<noteq> 0" using g(1) by auto
  have ev: "add_evict (slot_offset (newest ?a) (datasize ?a)) (entry_length (datasize ?a)) ?a p
            = (None, ?a, p)"
    using nf add_evict_fields(1,2)[where len="datasize s + 4" and s="?a" and p=p] l0
    by (simp add: len prod_eq_iff)
  have run: "flashlog_add s p =
     add_store (4096 + t * (datasize s + 4)) (datasize s + 4) buf ?a p"
    using flashlog_add_via[OF buf ev[folded adv]] by (simp add: adv off len)
  have m1: "s32 (numinuse s + 1) = numinuse s + 1" using a(1,2) nf g(9) by (intro s32_id) auto
  from res run have R: "add_store (4096 + t * (datasize s + 4)) (datasize s + 4) buf ?a p
      = (r, s', p')" by simp
  note f = add_store_fields[where off="4096 + t * (datasize s + 4)" and len="datasize s + 4"
      and buf=buf and s="?a" and p=p,
      unfolded R, simplified]
  show "r = (if fst (driver_result p) \<noteq> ESP_OK then Returned FLASHLOG_ERR_WRITEERR
              else Returned FLASHLOG_ERR_OK)" using f(1) by simp
  show "s' = s\<lparr>newest := t, highest_seqno := highest_seqno s + 1,
               entrybuf := Some (put_le32 buf 0 (highest_seqno s + 1)),
               numinuse := numinuse s + 1, partition_err := fst (driver_result p)\<rparr>"
    using f(2) m1 by simp
  show "psize p' = psize p" using f(3) by simp
  show "flash p' =
     (if fst (driver_result p) = ESP_OK
      then (\<lambda>a. if 4096 + t * (datasize s + 4) \<le> a \<and>
                   a < 4096 + t * (datasize s + 4) + (datasize s + 4)
                then flash p a AND put_le32 buf 0 (highest_seqno s + 1)
                       (a - (4096 + t * (datasize s + 4)))
                else flash p a)
      else flash p)" using f(4) by (simp add: off len cong: if_cong)
qed

lemma wrap_example_seqno:
  "seqno_at wrap_partition 2044 0 = 0xFFFFFFFE" "seqno_at wrap_partition 2044 1 = - 1"
  "seqno_at wrap_partition 2044 2 = - 1" "seqno_at wrap_partition 2044 3 = - 1"
proof -
  let ?m = "\<lambda>a::int. if 0 \<le> a \<and> a < 16
                 then bytes_of_hdr \<lparr>hdr_id = FLASHLOG_ID, hdr_datasize = 2044,
                                    hdr_numslots = 4\<rparr> a
                 else (- 1 :: byte)"
  have fl: "flash wrap_partition = put_le32 ?m 4096 0xFFFFFFFE"
    by (simp add: wrap_partition_def)
  have e: "get_le32 ?m a = - 1" if "4096 \<le> a" for a
    using that by (intro get_le32_all_max) simp_all
  show "seqno_at wrap_partition 2044 0 = 0xFFFFFFFE"
    unfolding seqno_at_def fl by (simp add: FLASHLOG_SLOT0_def get_le32_put_le32)
  have o: "seqno_at wrap_partition 2044 i = - 1" if "1 \<le> i" for i
  proof -
    have "4096 + 3 < FLASHLOG_SLOT0 + i * (2044 + ENTRY_HDR_SIZE)"
      using that by (simp add: FLASHLOG_SLOT0_def ENTRY_HDR_SIZE_def)
    then have "seqno_at wrap_partition 2044 i
               = get_le32 ?m (FLASHLOG_SLOT0 + i * (2044 + ENTRY_HDR_SIZE))"
      unfolding seqno_at_def fl by (intro get_le32_put_le32_other) simp
    also have "\<dots> = - 1"
      using that by (intro e) (simp add: FLASHLOG_SLOT0_def ENTRY_HDR_SIZE_def)
    finally show ?thesis .
  qed
  show "seqno_at wrap_partition 2044 1 = - 1" "seqno_at wrap_partition 2044 2 = - 1"
    "seqno_at wrap_partition 2044 3 = - 1"
    by (simp_all add: o)
qed

lemma wrap_example_inv: "log_inv wrap_state wrap_partition"
proof -
  note sq = wrap_example_seqno
  have f: "datasize wrap_state = 2044" "numslots wrap_state = 4" "numinuse wrap_state = 1"
    "oldest wrap_state = 0" "newest wrap_state = 0" "highest_seqno wrap_state = 0xFFFFFFFE"
    by (simp_all add: wrap_state_def cursor_state_def zero_state_def)
  have geo: "geometry_ok wrap_state wrap_partition"
    by (simp add: geometry_ok_def f wrap_partition_def ENTRY_HDR_SIZE_def FLASHLOG_SLOT0_def)
  have arc: "arc_ok wrap_state" by (simp add: arc_ok_def f)
  have i1: "I1 wrap_state wrap_partition"
    by (simp add: I1_def arc f int_range_4 sq on_arc_def UINT32_MAX_def)
  have i3: "I3 wrap_state wrap_partition"
    by (simp add: I3_def arc_length_def f)
  show ?thesis
    unfolding log_inv_def
    using geo i1 i3
    by (simp add: f int_range_4 sq entries_per_unit_def ENTRY_HDR_SIZE_def)
qed

section \<open>The operations that do not write\<close>

lemma log_inv_frame:
  assumes "datasize s' = datasize s" "numslots s' = numslots s" "numinuse s' = numinuse s"
    "oldest s' = oldest s" "newest s' = newest s" "highest_seqno s' = highest_seqno s"
    "flash p' = flash p" "psize p' = psize p"
  shows "log_inv s' p' = log_inv s p" "I1 s' p' = I1 s p" "I3 s' p' = I3 s p"
  using assms
  by (simp_all add: log_inv_def geometry_ok_def I1_def I3_def arc_ok_def on_arc_def
      arc_length_def arc_slot_def entries_per_unit_def seqno_at_def)

lemma read_frame:
  "datasize (fst (snd (flashlog_read s p))) = datasize s"
  "numslots (fst (snd (flashlog_read s p))) = numslots s"
  "numinuse (fst (snd (flashlog_read s p))) = numinuse s"
  "oldest (fst (snd (flashlog_read s p))) = oldest s"
  "newest (fst (snd (flashlog_read s p))) = newest s"
  "highest_seqno (fst (snd (flashlog_read s p))) = highest_seqno s"
  "current (fst (snd (flashlog_read s p))) = current s"
  "flash (snd (snd (flashlog_read s p))) = flash p"
  "psize (snd (snd (flashlog_read s p))) = psize p"
  by (simp_all add: flashlog_read_def Let_def split_beta read_part split: option.splits)

text \<open>\<open>flashlog_read\<close>, the four moves of \<open>current\<close> and \<open>flashlog_close\<close> change neither the
  flash nor the fields that the invariant, I1 and I3 speak about.\<close>
lemma reading_keeps_inv:
  "log_inv (fst (snd (flashlog_read s p))) (snd (snd (flashlog_read s p))) = log_inv s p"
  "I1 (fst (snd (flashlog_read s p))) (snd (snd (flashlog_read s p))) = I1 s p"
  "I3 (fst (snd (flashlog_read s p))) (snd (snd (flashlog_read s p))) = I3 s p"
  by (rule log_inv_frame; rule read_frame)+

lemma moving_keeps_inv:
  "log_inv (snd (flashlog_goto_newest s)) p = log_inv s p"
  "log_inv (snd (flashlog_goto_oldest s)) p = log_inv s p"
  "log_inv (snd (flashlog_goto_next s)) p = log_inv s p"
  "log_inv (snd (flashlog_goto_prev s)) p = log_inv s p"
  "log_inv (snd (flashlog_close s)) p = log_inv s p"
  "I3 (snd (flashlog_goto_newest s)) p = I3 s p"
  "I3 (snd (flashlog_goto_oldest s)) p = I3 s p"
  "I3 (snd (flashlog_goto_next s)) p = I3 s p"
  "I3 (snd (flashlog_goto_prev s)) p = I3 s p"
  "I3 (snd (flashlog_close s)) p = I3 s p"
  by (rule log_inv_frame;
      simp add: flashlog_goto_newest_def flashlog_goto_oldest_def flashlog_goto_next_def
        flashlog_goto_prev_def flashlog_close_def Let_def)+

section \<open>Sequence numbers along the arc\<close>

text \<open>
  The wraparound of the 32-bit sequence number, which the header file names as a limit of
  the design (``it will wrap around and fail after 4 billion log entries''). The log
  \<open>wrap_state\<close> on \<open>wrap_partition\<close> satisfies the invariant of opened logs, with one entry
  of sequence number \<open>0xFFFFFFFE\<close>. Two more adds return \<open>FLASHLOG_ERR_OK\<close>: the first entry
  gets the number \<open>0xFFFFFFFF\<close>, which is the mark of an unused slot, the second gets 0, and
  the numbers along the arc of the three entries are \<open>0xFFFFFFFE\<close>, \<open>0xFFFFFFFF\<close>, 0, not
  increasing.
\<close>
theorem add_wraparound_breaks_I3:
  "log_inv wrap_state wrap_partition \<and> I3 wrap_state wrap_partition \<and>
   highest_seqno wrap_state = UINT32_MAX - 1 \<and>
   (\<exists>s' p'. add_entries [\<lambda>_. 0x41, \<lambda>_. 0x42] wrap_state wrap_partition = Some (s', p') \<and>
      oldest s' = 0 \<and> newest s' = 2 \<and> numinuse s' = 3 \<and> highest_seqno s' = 0 \<and>
      seqno_at p' (datasize s') 0 = UINT32_MAX - 1 \<and>
      seqno_at p' (datasize s') 1 = UINT32_MAX \<and>
      seqno_at p' (datasize s') 2 = 0 \<and>
      \<not> I3 s' p')"
proof -
  let ?s = wrap_state and ?p = wrap_partition
  have f: "datasize ?s = 2044" "numslots ?s = 4" "numinuse ?s = 1"
    "oldest ?s = 0" "newest ?s = 0" "highest_seqno ?s = 0xFFFFFFFE"
    "entrybuf ?s = Some (\<lambda>_. 0)"
    by (simp_all add: wrap_state_def cursor_state_def zero_state_def)
  note inv = wrap_example_inv
  note sq = wrap_example_seqno
  have dr: "driver_result ?p = (ESP_OK, ?p)"
    by (rule driver_result_no_faults) (simp add: wrap_partition_def)
  let ?b1 = "memcpy (\<lambda>_. 0) 4 (\<lambda>_. 0x41) (datasize ?s)"
  let ?sf = "?s\<lparr>entrybuf := Some ?b1\<rparr>"
  let ?R = "flashlog_add ?sf ?p"
  have inv1: "log_inv ?sf ?p" using inv by simp
  have b1: "entrybuf ?sf = Some ?b1" by simp
  have nf1: "numinuse ?sf \<noteq> numslots ?sf" by (simp add: f)
  have R: "?R = (fst ?R, fst (snd ?R), snd (snd ?R))" by simp
  note a1 = add_not_full[OF inv1 b1 nf1 R]
  have r1: "fst ?R = Returned FLASHLOG_ERR_OK" using a1(1) dr by simp
  define s1 where "s1 = fst (snd ?R)"
  define p1 where "p1 = snd (snd ?R)"
  have R1: "?R = (Returned FLASHLOG_ERR_OK, s1, p1)"
    using R r1 by (simp add: s1_def p1_def)
  have s1: "datasize s1 = 2044" "numslots s1 = 4" "numinuse s1 = 2" "oldest s1 = 0"
    "newest s1 = 1" "highest_seqno s1 = - 1"
    "entrybuf s1 = Some (put_le32 ?b1 0 (highest_seqno ?s + 1))"
    unfolding s1_def by (subst a1(2); simp add: f)+
  have ps1: "psize p1 = psize ?p" unfolding p1_def using a1(3) .
  have pe1: "pending p1 = []"
    unfolding p1_def by (rule add_pending) (simp add: wrap_partition_def)
  have fl1: "flash p1 = (\<lambda>a. if 4096 + 1 * (2044 + 4) \<le> a \<and> a < 4096 + 1 * (2044 + 4) + (2044 + 4)
        then flash ?p a AND put_le32 ?b1 0 (highest_seqno ?s + 1) (a - (4096 + 1 * (2044 + 4)))
        else flash ?p a)"
    unfolding p1_def using a1(4) dr by (simp add: f cong: if_cong)
  have q1: "seqno_at p1 2044 i = (if i = 1 then - 1 else seqno_at ?p 2044 i)" for i
    using write_seqno_at[of 2044 p1 1 ?p "put_le32 ?b1 0 (highest_seqno ?s + 1)" i, OF _ fl1]
    by (simp add: sq get_le32_put_le32 f)
  let ?b2 = "memcpy (put_le32 ?b1 0 (highest_seqno ?s + 1)) 4 (\<lambda>_. 0x42) (datasize s1)"
  let ?sg = "s1\<lparr>entrybuf := Some ?b2\<rparr>"
  let ?Q = "flashlog_add ?sg p1"
  have geo2: "geometry_ok ?sg p1"
    using log_inv_parts(1)[OF inv] by (simp add: geometry_ok_def s1 ps1 f)
  have arc2: "arc_ok ?sg" by (simp add: arc_ok_def s1)
  have b2: "entrybuf ?sg = Some ?b2" by simp
  have nf2: "numinuse ?sg \<noteq> numslots ?sg" by (simp add: s1)
  have Q: "?Q = (fst ?Q, fst (snd ?Q), snd (snd ?Q))" by simp
  have dr1: "driver_result p1 = (ESP_OK, p1)" using pe1 by (rule driver_result_no_faults)
  note a2 = add_plain[OF geo2 arc2 b2 nf2 Q]
  have r2: "fst ?Q = Returned FLASHLOG_ERR_OK" using a2(1) dr1 by simp
  define s2 where "s2 = fst (snd ?Q)"
  define p2 where "p2 = snd (snd ?Q)"
  have Q2: "?Q = (Returned FLASHLOG_ERR_OK, s2, p2)"
    using Q r2 by (simp add: s2_def p2_def)
  have s2: "datasize s2 = 2044" "numslots s2 = 4" "numinuse s2 = 3" "oldest s2 = 0"
    "newest s2 = 2" "highest_seqno s2 = 0"
    unfolding s2_def by (subst a2(2); simp add: s1)+
  have fl2: "flash p2 = (\<lambda>a. if 4096 + 2 * (2044 + 4) \<le> a \<and> a < 4096 + 2 * (2044 + 4) + (2044 + 4)
        then flash p1 a AND put_le32 ?b2 0 (highest_seqno ?sg + 1) (a - (4096 + 2 * (2044 + 4)))
        else flash p1 a)"
    unfolding p2_def using a2(4) dr1 by (simp add: s1 cong: if_cong)
  have q2: "seqno_at p2 2044 i = (if i = 2 then 0 else seqno_at p1 2044 i)" for i
    using write_seqno_at[of 2044 p2 2 p1 "put_le32 ?b2 0 (highest_seqno ?sg + 1)" i, OF _ fl2]
    by (simp add: q1 sq get_le32_put_le32 s1)
  have run: "add_entries [\<lambda>_. 0x41, \<lambda>_. 0x42] ?s ?p = Some (s2, p2)"
    using add_entries_step[OF f(7) R1, of "[\<lambda>_. 0x42]"]
      add_entries_step[OF s1(7) Q2, of "[]"] by simp
  have n3: "\<not> I3 s2 p2"
  proof
    assume "I3 s2 p2"
    then have "\<forall>j2\<in>{0..<3}. \<forall>j1\<in>{0..<j2}.
        seqno_at p2 2044 (j1 mod 4) < seqno_at p2 2044 (j2 mod 4)"
      by (simp add: I3_def arc_length_def arc_slot_def s2)
    then have "\<forall>j1\<in>{0..<2}. seqno_at p2 2044 (j1 mod 4) < seqno_at p2 2044 (2 mod 4)"
      by (rule bspec) simp
    then have "seqno_at p2 2044 (1 mod 4) < seqno_at p2 2044 (2 mod 4)"
      by (rule bspec) simp
    then show False by (simp add: q2 q1)
  qed
  have v: "seqno_at p2 (datasize s2) 0 = UINT32_MAX - 1" "seqno_at p2 (datasize s2) 1 = UINT32_MAX"
    "seqno_at p2 (datasize s2) 2 = 0"
    by (simp_all add: s2 q2 q1 sq UINT32_MAX_def)
  have h: "highest_seqno ?s = UINT32_MAX - 1" by (simp add: f UINT32_MAX_def)
  have "\<exists>s' p'. add_entries [\<lambda>_. 0x41, \<lambda>_. 0x42] ?s ?p = Some (s', p') \<and>
      oldest s' = 0 \<and> newest s' = 2 \<and> numinuse s' = 3 \<and> highest_seqno s' = 0 \<and>
      seqno_at p' (datasize s') 0 = UINT32_MAX - 1 \<and>
      seqno_at p' (datasize s') 1 = UINT32_MAX \<and>
      seqno_at p' (datasize s') 2 = 0 \<and>
      \<not> I3 s' p'"
    using run s2(3,4,5,6) v n3 by blast
  then show ?thesis using inv log_inv_parts(4)[OF inv] h by blast
qed

text \<open>
  Sequence numbers on a log that satisfies the invariant of opened logs, below the
  wraparound. For every sequence of adds that all return \<open>FLASHLOG_ERR_OK\<close>, on a log that
  satisfies the invariant of opened logs, in which no entry gets a sequence number above
  \<open>0xFFFFFFFE\<close>: each add gives its entry the sequence number \<open>highest_seqno + 1\<close> of the
  state it starts from and stores it in the slot \<open>newest\<close>, I3 holds before and after
  each add, with or without eviction, and the invariant holds at the end, where
  \<open>highest_seqno\<close> has grown by the number of entries. If the log has its header it still
  has it at the end, and opening the log again then gives a state for which I3 holds,
  whatever the state structure held before.
\<close>
theorem add_sequence_increasing:
  assumes inv: "log_inv s p"
    and bd: "unat (highest_seqno s) + length ds < 2 ^ 32 - 1"
    and run: "add_entries ds s p = Some (s', p')"
  shows "(\<forall>k<length ds. \<exists>sk pk buf sk' pk'.
      add_entries (take k ds) s p = Some (sk, pk) \<and> entrybuf sk = Some buf \<and>
      flashlog_add (sk\<lparr>entrybuf := Some (memcpy buf 4 (ds ! k) (datasize sk))\<rparr>) pk
        = (Returned FLASHLOG_ERR_OK, sk', pk') \<and>
      highest_seqno sk' = highest_seqno sk + 1 \<and>
      seqno_at pk' (datasize sk') (newest sk') = highest_seqno sk + 1 \<and>
      I3 sk pk \<and> I3 sk' pk') \<and>
    I3 s' p' \<and> log_inv s' p' \<and>
    highest_seqno s' = highest_seqno s + word_of_nat (length ds) \<and>
    (ds \<noteq> [] \<longrightarrow> seqno_at p' (datasize s') (newest s') = highest_seqno s') \<and>
    (header_intact s p \<longrightarrow>
       header_intact s' p' \<and>
       (\<forall>heap st r q.
          flashlog_open (Some p') (datasize s') heap st = (Returned FLASHLOG_ERR_OK, r, q)
          \<longrightarrow> (\<exists>p''. q = Some p'' \<and> flash p'' = flash p' \<and> I3 r p'')))"
proof -
  note e = add_entries_inv[OF inv bd run]
  have c1: "\<forall>k<length ds. \<exists>sk pk buf sk' pk'.
      add_entries (take k ds) s p = Some (sk, pk) \<and> entrybuf sk = Some buf \<and>
      flashlog_add (sk\<lparr>entrybuf := Some (memcpy buf 4 (ds ! k) (datasize sk))\<rparr>) pk
        = (Returned FLASHLOG_ERR_OK, sk', pk') \<and>
      highest_seqno sk' = highest_seqno sk + 1 \<and>
      seqno_at pk' (datasize sk') (newest sk') = highest_seqno sk + 1 \<and>
      I3 sk pk \<and> I3 sk' pk'"
    using add_entries_each[OF inv bd run] by blast
  from e have c3: "log_inv s' p'" by blast
  have c2: "I3 s' p'" using log_inv_parts(4)[OF c3] .
  from e have c4: "highest_seqno s' = highest_seqno s + word_of_nat (length ds)" by blast
  from e have c5: "ds \<noteq> [] \<longrightarrow> seqno_at p' (datasize s') (newest s') = highest_seqno s'"
    by blast
  from e have h: "header_intact s p \<longrightarrow> header_intact s' p'" by blast
  have c6: "header_intact s p \<longrightarrow>
       header_intact s' p' \<and>
       (\<forall>heap st r q.
          flashlog_open (Some p') (datasize s') heap st = (Returned FLASHLOG_ERR_OK, r, q)
          \<longrightarrow> (\<exists>p''. q = Some p'' \<and> flash p'' = flash p' \<and> I3 r p''))"
    using h reopen_I3[OF c3] by blast
  show ?thesis by (intro conjI) (fact c1 c2 c3 c4 c5 c6)+
qed

theorem add_sequence_increasing_witness:
  "log_inv full_state full_partition \<and> header_intact full_state full_partition \<and>
   unat (highest_seqno full_state) + length ([\<lambda>_. 0x41, \<lambda>_. 0x42] :: memory list)
     < 2 ^ 32 - 1 \<and>
   (\<exists>s' p'. add_entries [\<lambda>_. 0x41, \<lambda>_. 0x42] full_state full_partition = Some (s', p') \<and>
      I3 s' p' \<and> log_inv s' p' \<and> highest_seqno s' = 6 \<and>
      seqno_at p' (datasize s') (newest s') = 6 \<and> header_intact s' p' \<and>
      (\<exists>r q. flashlog_open (Some p') (datasize s') (Some (\<lambda>_. 0)) zero_state
               = (Returned FLASHLOG_ERR_OK, r, Some q) \<and> flash q = flash p' \<and> I3 r q))"
proof -
  let ?ds = "[\<lambda>_. 0x41, \<lambda>_. 0x42] :: memory list"
  have f: "highest_seqno full_state = 4" "entrybuf full_state = Some (\<lambda>_. 0)"
    by (simp_all add: full_state_def cursor_state_def zero_state_def)
  have bd: "unat (highest_seqno full_state) + length ?ds < 2 ^ 32 - 1" by (simp add: f)
  have nf: "pending full_partition = []" by (simp add: full_partition_def)
  from add_entries_returns[OF full_example_inv f(2) nf bd] obtain s' p' where
    run: "add_entries ?ds full_state full_partition = Some (s', p')" and pe: "pending p' = []"
    by blast
  note t = add_sequence_increasing[OF full_example_inv bd run]
  from t have i3: "I3 s' p'" and inv': "log_inv s' p'" by blast+
  from t have "highest_seqno s' = highest_seqno full_state + word_of_nat (length ?ds)" by blast
  then have h: "highest_seqno s' = 6" by (simp add: f)
  from t have "seqno_at p' (datasize s') (newest s') = highest_seqno s'" by blast
  then have sq: "seqno_at p' (datasize s') (newest s') = 6" using h by simp
  from t full_example_header have hd: "header_intact s' p'" by blast
  from t full_example_header have
    ro: "\<And>heap st r q.
          flashlog_open (Some p') (datasize s') heap st = (Returned FLASHLOG_ERR_OK, r, q)
          \<Longrightarrow> \<exists>p''. q = Some p'' \<and> flash p'' = flash p' \<and> I3 r p''" by blast
  let ?O = "flashlog_open (Some p') (datasize s') (Some (\<lambda>_. 0)) zero_state"
  have "fst ?O = Returned FLASHLOG_ERR_OK"
    using log_inv_parts(1)[OF inv'] hd pe by (rule reopen_returns_ok)
  then have O: "?O = (Returned FLASHLOG_ERR_OK, fst (snd ?O), snd (snd ?O))"
    by (metis prod.collapse)
  from ro[OF O] obtain q where q: "snd (snd ?O) = Some q" "flash q = flash p'"
    "I3 (fst (snd ?O)) q" by blast
  have "\<exists>r q. ?O = (Returned FLASHLOG_ERR_OK, r, Some q) \<and> flash q = flash p' \<and> I3 r q"
    using O q by (intro exI[of _ "fst (snd ?O)"] exI[of _ q]) simp
  with run i3 inv' h sq hd have
    "\<exists>s' p'. add_entries ?ds full_state full_partition = Some (s', p') \<and>
      I3 s' p' \<and> log_inv s' p' \<and> highest_seqno s' = 6 \<and>
      seqno_at p' (datasize s') (newest s') = 6 \<and> header_intact s' p' \<and>
      (\<exists>r q. flashlog_open (Some p') (datasize s') (Some (\<lambda>_. 0)) zero_state
               = (Returned FLASHLOG_ERR_OK, r, Some q) \<and> flash q = flash p' \<and> I3 r q)"
    by blast
  with full_example_inv full_example_header bd show ?thesis by blast
qed

section \<open>Adds on a log whose cursor fields do not match the flash\<close>

text \<open>
  What \<open>flashlog_add\<close> does when the driver does not fail, for any cursor fields within
  their ranges, whether or not they match the flash.
\<close>
lemma add_no_faults:
  assumes geo: "geometry_ok s p" and buf: "entrybuf s = Some buf" and nf: "pending p = []"
    and nw: "0 \<le> newest s" "newest s < numslots s"
    and ol: "0 \<le> oldest s" "oldest s < numslots s"
    and ni: "0 \<le> numinuse s" "numinuse s < 2 ^ 31 - 1"
  defines "t \<equiv> (if 0 < numinuse s then (newest s + 1) mod numslots s else newest s)"
  defines "off \<equiv> 4096 + t * (datasize s + 4)"
  defines "full \<equiv> numinuse s = numslots s"
  shows "fst (flashlog_add s p) = Returned FLASHLOG_ERR_OK"
    and "fst (snd (flashlog_add s p)) =
      s\<lparr>newest := t, partition_err := ESP_OK,
        numinuse := (if full then numslots s - entries_per_unit s + 1 else numinuse s + 1),
        oldest := (if full then (if oldest s + entries_per_unit s \<ge> numslots s
                                 then oldest s + entries_per_unit s - numslots s
                                 else oldest s + entries_per_unit s)
                   else oldest s),
        highest_seqno := highest_seqno s + 1,
        entrybuf := Some (put_le32 buf 0 (highest_seqno s + 1))\<rparr>"
    and "psize (snd (snd (flashlog_add s p))) = psize p"
    and "pending (snd (snd (flashlog_add s p))) = []"
    and "flash (snd (snd (flashlog_add s p))) =
      (\<lambda>a. if off \<le> a \<and> a < off + (datasize s + 4)
           then (if full then - 1 else flash p a) AND put_le32 buf 0 (highest_seqno s + 1) (a - off)
           else if full \<and> off \<le> a \<and> a < off + 4096 then - 1 else flash p a)"
proof -
  note g = geometry_facts[OF geo]
  let ?k = "entries_per_unit s" and ?n = "numslots s" and ?l = "datasize s + 4"
  let ?a = "s\<lparr>newest := t\<rparr>"
  have dr: "driver_result p = (ESP_OK, p)" using nf by (rule driver_result_no_faults)
  have n1: "s32 (newest s + 1) = newest s + 1" using nw g(9) by (intro s32_id) auto
  have md: "(newest s + 1) mod ?n = (if newest s + 1 \<ge> ?n then 0 else newest s + 1)"
    using nw int_mod_add[of "newest s + 1" ?n] by auto
  have adv: "add_advance s = ?a"
    by (simp add: add_advance_def Let_def t_def n1 md)
  have tr: "0 \<le> t" "t \<le> ?n" using nw md by (auto simp: t_def)
  have offs: "slot_offset t (datasize s) = off" "u32 off = off"
    unfolding off_def using geometry_offsets[OF geo tr] by auto
  note len = geometry_length[OF geo]
  have l0: "?l \<noteq> 0" using g(1) by auto
  let ?ev = "add_evict off ?l ?a p"
  note ef = add_evict_fields[where len="?l" and off=off and s="?a" and p=p, OF l0, simplified]
  have none: "fst ?ev = None" using ef(1) dr by simp
  have evq: "?ev = (None, fst (snd ?ev), snd (snd ?ev))"
    using none by (simp add: prod_eq_iff)
  have via: "flashlog_add s p = add_store off ?l buf (fst (snd ?ev)) (snd (snd ?ev))"
    using flashlog_add_via[OF buf, where st=None and ?s1.0="fst (snd ?ev)"
        and ?p1.0="snd (snd ?ev)" and p=p] evq
    by (simp add: adv offs len)
  have pe: "pending (snd (snd ?ev)) = []"
  proof (cases full)
    case True
    then show ?thesis using ef(7) nf by (simp add: full_def)
  next
    case False
    then show ?thesis using ef(2) nf by (simp add: full_def)
  qed
  then have dr2: "driver_result (snd (snd ?ev)) = (ESP_OK, snd (snd ?ev))"
    by (rule driver_result_no_faults)
  note sf = add_store_fields[of off ?l buf "fst (snd ?ev)" "snd (snd ?ev)", folded via]
  show "fst (flashlog_add s p) = Returned FLASHLOG_ERR_OK" using sf(1) dr2 by simp
  show "psize (snd (snd (flashlog_add s p))) = psize p" using sf(3) ef(6) by simp
  show "pending (snd (snd (flashlog_add s p))) = []" using sf(5) pe by simp
  have ps: "psize p < 2 ^ 31" using geo by (simp add: geometry_ok_def)
  have "?n * 4 \<le> ?n * ?l" using g(1,7) by (intro mult_left_mono) auto
  then have nb: "?n < 2 ^ 30" using g(8) ps by simp
  have s32s: "s32 (?n - ?k) = ?n - ?k" "s32 (oldest s + ?k) = oldest s + ?k"
    "s32 (oldest s + ?k - ?n) = oldest s + ?k - ?n" "s32 (?n - ?k + 1) = ?n - ?k + 1"
    "s32 (numinuse s + 1) = numinuse s + 1"
    using ol ni g(4,6,10) nb by (auto intro!: s32_id)
  have s1: "fst (snd ?ev) =
      (if full then s\<lparr>newest := t, partition_err := ESP_OK, numinuse := ?n - ?k,
            oldest := (if oldest s + ?k \<ge> ?n then oldest s + ?k - ?n else oldest s + ?k)\<rparr>
       else ?a)"
  proof (cases full)
    case True
    then show ?thesis using ef(4) dr by (simp add: full_def len s32s cong: if_cong)
  next
    case False
    then show ?thesis using ef(2) by (simp add: full_def)
  qed
  have f1: "flash (snd (snd ?ev)) =
      (if full then (\<lambda>a. if off \<le> a \<and> a < off + 4096 then - 1 else flash p a) else flash p)"
  proof (cases full)
    case True
    then show ?thesis using ef(5) dr by (simp add: full_def offs)
  next
    case False
    then show ?thesis using ef(2) by (simp add: full_def)
  qed
  show "fst (snd (flashlog_add s p)) =
      s\<lparr>newest := t, partition_err := ESP_OK,
        numinuse := (if full then numslots s - entries_per_unit s + 1 else numinuse s + 1),
        oldest := (if full then (if oldest s + entries_per_unit s \<ge> numslots s
                                 then oldest s + entries_per_unit s - numslots s
                                 else oldest s + entries_per_unit s)
                   else oldest s),
        highest_seqno := highest_seqno s + 1,
        entrybuf := Some (put_le32 buf 0 (highest_seqno s + 1))\<rparr>"
    using sf(2) dr2 by (cases full) (simp_all add: s1 s32s)
  have le: "off + ?l \<le> off + 4096" using g(2) by simp
  show "flash (snd (snd (flashlog_add s p))) =
      (\<lambda>a. if off \<le> a \<and> a < off + (datasize s + 4)
           then (if full then - 1 else flash p a) AND put_le32 buf 0 (highest_seqno s + 1) (a - off)
           else if full \<and> off \<le> a \<and> a < off + 4096 then - 1 else flash p a)"
    using sf(4) dr2 le by (cases full) (auto simp: f1 s1 offs len fun_eq_iff)
qed

lemma add_no_faults_slots:
  assumes geo: "geometry_ok s p" and buf: "entrybuf s = Some buf" and nf: "pending p = []"
    and nw: "0 \<le> newest s" "newest s < numslots s"
    and ol: "0 \<le> oldest s" "oldest s < numslots s"
    and ni: "0 \<le> numinuse s" "numinuse s < 2 ^ 31 - 1"
  defines "t \<equiv> (if 0 < numinuse s then (newest s + 1) mod numslots s else newest s)"
  shows "seqno_at (snd (snd (flashlog_add s p))) (datasize s) i =
     (if i = t
      then (if numinuse s = numslots s then - 1 else seqno_at p (datasize s) t)
           AND (highest_seqno s + 1)
      else if numinuse s = numslots s \<and> t \<le> i \<and> i < t + entries_per_unit s then - 1
      else seqno_at p (datasize s) i)"
proof -
  note g = geometry_facts[OF geo]
  let ?d = "datasize s" and ?v = "highest_seqno s + 1"
  let ?p' = "snd (snd (flashlog_add s p))"
  let ?off = "4096 + t * (?d + 4)"
  have d0: "0 \<le> ?d" using geo by (simp add: geometry_ok_def)
  have v: "get_le32 (put_le32 buf 0 ?v) 0 = ?v" by (rule get_le32_put_le32)
  note fl = add_no_faults(5)[OF geo buf nf nw ol ni, folded t_def]
  show ?thesis
  proof (cases "numinuse s = numslots s")
    case False
    have fp: "flash ?p' = (\<lambda>a. if ?off \<le> a \<and> a < ?off + (?d + 4)
                then flash p a AND put_le32 buf 0 ?v (a - ?off) else flash p a)"
      using fl False by (simp cong: if_cong)
    show ?thesis
      using write_seqno_at[OF d0 fp, of i] False v by simp
  next
    case True
    let ?pe = "p\<lparr>flash := (\<lambda>a. if ?off \<le> a \<and> a < ?off + 4096 then - 1 else flash p a)\<rparr>"
    have le: "?off + (?d + 4) \<le> ?off + 4096" using g(2) by simp
    have fp: "flash ?p' = (\<lambda>a. if ?off \<le> a \<and> a < ?off + (?d + 4)
                            then flash ?pe a AND put_le32 buf 0 ?v (a - ?off) else flash ?pe a)"
      using fl True le by (auto simp: fun_eq_iff)
    have e: "seqno_at ?pe ?d j =
       (if t \<le> j \<and> j < t + entries_per_unit s then UINT32_MAX else seqno_at p ?d j)" for j
      by (rule erase_seqno_at[OF d0 g(3)]) simp
    have "seqno_at ?p' ?d i =
        (if i = t then seqno_at ?pe ?d t AND get_le32 (put_le32 buf 0 ?v) 0
         else seqno_at ?pe ?d i)"
      by (rule write_seqno_at[OF d0 fp])
    then show ?thesis using e g(4) True v by (simp add: UINT32_MAX_def)
  qed
qed

lemma scan_slots_pending:
  assumes "pending p = []"
  shows "pending (snd (snd (scan_slots hdr slot os s p))) = []"
  using assms
proof (induction "nat (hdr_numslots hdr - slot)" arbitrary: slot os s p)
  case 0
  then show ?case by (subst scan_slots_unfold) simp
next
  case (Suc k)
  then have k: "k = nat (hdr_numslots hdr - (slot + 1))" by simp
  have dr: "driver_result p = (ESP_OK, p)" using Suc.prems by (rule driver_result_no_faults)
  show ?case
    using Suc.hyps(1)[OF k Suc.prems] by (subst scan_slots_unfold) (simp add: dr Suc.prems)
qed

text \<open>A driver that has not failed by the time the log is opened again has no failure
  pending after the recovery scan.\<close>
lemma reopen_pending:
  assumes hi: "header_intact s p" and nf: "pending p = []"
    and op: "flashlog_open (Some p) (datasize s) heap st = (Returned FLASHLOG_ERR_OK, s', q)"
  shows "\<exists>p'. q = Some p' \<and> pending p' = []"
proof -
  let ?h = "hdr_of_bytes (flash p)"
  let ?sa = "st\<lparr>datasize := datasize s, partition_err := ESP_OK\<rparr>"
  let ?pa = "snd (driver_result p)"
  have h: "hdr_id ?h = FLASHLOG_ID" "hdr_datasize ?h = datasize s"
    using hi by (simp_all add: header_intact_def)
  from op obtain s1 p1 where
    br: "open_existing ?h ?sa ?pa = (None, s1, p1)" and q: "q = Some p1"
    by (rule open_accepted_cases) (simp_all add: h)
  have "pending ?pa = []" using nf by (simp add: driver_result_pending)
  then have "pending (snd (snd (open_existing ?h ?sa ?pa))) = []"
    unfolding open_existing_def by (rule scan_slots_pending)
  with br q show ?thesis by simp
qed

text \<open>What \<open>flashlog_add\<close> does to a full log when the erase fails, for any cursor fields.\<close>
lemma add_erase_fails:
  assumes geo: "geometry_ok s p" and buf: "entrybuf s = Some buf"
    and nw: "0 \<le> newest s" "newest s < numslots s"
    and full: "numinuse s = numslots s" and e: "fst (driver_result p) \<noteq> ESP_OK"
  shows "flashlog_add s p =
     (Returned FLASHLOG_ERR_ERASEERR,
      s\<lparr>newest := (newest s + 1) mod numslots s, partition_err := fst (driver_result p)\<rparr>,
      snd (driver_result p))"
proof -
  note g = geometry_facts[OF geo]
  let ?t = "(newest s + 1) mod numslots s"
  let ?a = "s\<lparr>newest := ?t\<rparr>"
  have n1: "s32 (newest s + 1) = newest s + 1" using nw g(9) by (intro s32_id) auto
  have md: "?t = (if newest s + 1 \<ge> numslots s then 0 else newest s + 1)"
    using nw int_mod_add[of "newest s + 1" "numslots s"] by auto
  have adv: "add_advance s = ?a"
    using full g(7) by (simp add: add_advance_def Let_def n1 md)
  let ?off = "slot_offset ?t (datasize s)" and ?l = "entry_length (datasize s)"
  have l0: "?l \<noteq> 0" using g(1) geometry_length(1)[OF geo] by simp
  note ef = add_evict_fields[where len="?l" and off="?off" and s="?a" and p=p, OF l0, simplified]
  have "add_evict ?off ?l ?a p = (Some (Returned FLASHLOG_ERR_ERASEERR),
      ?a\<lparr>partition_err := fst (driver_result p)\<rparr>, snd (driver_result p))"
    using ef(1,3) full e by (simp add: prod_eq_iff)
  then show ?thesis
    using flashlog_add_via[OF buf, where st="Some (Returned FLASHLOG_ERR_ERASEERR)"
        and ?s1.0="?a\<lparr>partition_err := fst (driver_result p)\<rparr>"
        and ?p1.0="snd (driver_result p)" and p=p]
    by (simp add: adv)
qed

lemma page_example_seqno:
  "seqno_at page_partition 4092 0 = 1" "seqno_at page_partition 4092 1 = 2"
  "seqno_at page_partition 4092 2 = 3" "seqno_at page_partition 4092 3 = 4"
  by (simp_all add: seqno_at_def page_partition_def get_le32_def FLASHLOG_SLOT0_def
      ENTRY_HDR_SIZE_def)

lemma page_example_fields:
  "datasize page_state = 4092" "numslots page_state = 4" "numinuse page_state = 4"
  "oldest page_state = 0" "newest page_state = 3" "highest_seqno page_state = 4"
  "entrybuf page_state = Some (\<lambda>_. 0)"
  by (simp_all add: page_state_def zero_state_def)

lemma page_example_inv: "log_inv page_state page_partition"
proof -
  note sq = page_example_seqno and f = page_example_fields
  have geo: "geometry_ok page_state page_partition"
    by (simp add: geometry_ok_def f page_partition_def ENTRY_HDR_SIZE_def FLASHLOG_SLOT0_def)
  have arc: "arc_ok page_state" by (simp add: arc_ok_def f)
  have i1: "I1 page_state page_partition"
    by (simp add: I1_def arc f int_range_4 sq on_arc_def UINT32_MAX_def)
  have i3: "I3 page_state page_partition"
  proof (rule I3_intro[OF arc])
    fix j1 j2 :: int
    assume j: "0 \<le> j1" "j1 < j2" "j2 < numinuse page_state"
    then have "j1 = 0 \<or> j1 = 1 \<or> j1 = 2" "j2 = 1 \<or> j2 = 2 \<or> j2 = 3"
      unfolding f by arith+
    then show "seqno_at page_partition (datasize page_state)
                 ((oldest page_state + j1) mod numslots page_state)
               < seqno_at page_partition (datasize page_state)
                 ((oldest page_state + j2) mod numslots page_state)"
      using j(2) sq by (auto simp: f)
  qed
  show ?thesis
    unfolding log_inv_def
    using geo i1 i3
    by (simp add: f int_range_4 sq entries_per_unit_def ENTRY_HDR_SIZE_def)
qed

lemma half_example_seqno:
  "seqno_at half_partition 2044 0 = 1" "seqno_at half_partition 2044 1 = 2"
  "seqno_at half_partition 2044 2 = - 1" "seqno_at half_partition 2044 3 = - 1"
  by (simp_all add: seqno_at_def half_partition_def FLASHLOG_SLOT0_def ENTRY_HDR_SIZE_def
      get_le32_all_max, simp_all add: get_le32_def)

lemma half_example_fields:
  "datasize half_state = 2044" "numslots half_state = 4" "numinuse half_state = 2"
  "oldest half_state = 0" "newest half_state = 1" "highest_seqno half_state = 2"
  "entrybuf half_state = Some (\<lambda>_. 0)"
  by (simp_all add: half_state_def cursor_state_def zero_state_def)

lemma half_example_inv: "log_inv half_state half_partition"
proof -
  note sq = half_example_seqno and f = half_example_fields
  have geo: "geometry_ok half_state half_partition"
    by (simp add: geometry_ok_def f half_partition_def ENTRY_HDR_SIZE_def FLASHLOG_SLOT0_def)
  have arc: "arc_ok half_state" by (simp add: arc_ok_def f)
  have i1: "I1 half_state half_partition"
    by (simp add: I1_def arc f int_range_4 sq on_arc_def UINT32_MAX_def)
  have i3: "I3 half_state half_partition"
  proof (rule I3_intro[OF arc])
    fix j1 j2 :: int
    assume j: "0 \<le> j1" "j1 < j2" "j2 < numinuse half_state"
    then have "j1 = 0" "j2 = 1" unfolding f by arith+
    then show "seqno_at half_partition (datasize half_state)
                 ((oldest half_state + j1) mod numslots half_state)
               < seqno_at half_partition (datasize half_state)
                 ((oldest half_state + j2) mod numslots half_state)"
      using sq by (simp add: f)
  qed
  show ?thesis
    unfolding log_inv_def
    using geo i1 i3
    by (simp add: f int_range_4 sq entries_per_unit_def ENTRY_HDR_SIZE_def)
qed

lemma half_example_header: "header_intact half_state half_partition"
proof -
  let ?h = "\<lparr>hdr_id = FLASHLOG_ID, hdr_datasize = 2044, hdr_numslots = 4\<rparr>"
  have "hdr_of_bytes (flash half_partition) = hdr_of_bytes (bytes_of_hdr ?h)"
    by (rule hdr_of_bytes_cong) (simp add: half_partition_def)
  also have "\<dots> = ?h" by (rule hdr_roundtrip) simp_all
  finally show ?thesis
    by (simp add: header_intact_def half_example_fields)
qed

text \<open>
  C1, as the claim states it, fails on full logs whose cursor fields no longer match the
  flash. In the log \<open>page_state\<close> on \<open>page_partition\<close> every entry fills one erase unit.
  An add whose erase fails returns \<open>FLASHLOG_ERR_ERASEERR\<close> and erases nothing, but has
  moved \<open>newest\<close> on to slot 0; the log is still open and full. The next add returns
  \<open>FLASHLOG_ERR_OK\<close>: it erases the unit of slot 1 and writes entry 5 there, so the entry it
  removes is number 2, while the oldest entry, number 1, stays in slot 0, and \<open>oldest\<close> is
  now slot 1, the slot of the new entry. The second log, \<open>half_state\<close> on
  \<open>half_partition\<close>, holds two entries in four slots; closed and opened again with the same
  state structure it has \<open>numinuse = numslots = 4\<close>, and the next add returns
  \<open>FLASHLOG_ERR_OK\<close>, erases the unit of the unused slots 2 and 3 and removes no entry,
  while \<open>numinuse\<close> goes down by two and \<open>oldest\<close> forward by two.
\<close>
theorem add_full_keeps_oldest:
  "log_inv page_state page_partition \<and> numinuse page_state = numslots page_state \<and>
   fst erase_failed = Returned FLASHLOG_ERR_ERASEERR \<and>
   flash (snd (snd erase_failed)) = flash page_partition \<and>
   entrybuf (fst (snd erase_failed)) = Some (\<lambda>_. 0) \<and>
   numinuse (fst (snd erase_failed)) = numslots (fst (snd erase_failed)) \<and>
   oldest (fst (snd erase_failed)) = 0 \<and> newest (fst (snd erase_failed)) = 0 \<and>
   entries_per_unit (fst (snd erase_failed)) = 1 \<and>
   fst retried = Returned FLASHLOG_ERR_OK \<and>
   seqno_at (snd (snd retried)) 4092 0 = 1 \<and> seqno_at (snd (snd retried)) 4092 1 = 5 \<and>
   seqno_at (snd (snd retried)) 4092 2 = 3 \<and> seqno_at (snd (snd retried)) 4092 3 = 4 \<and>
   oldest (fst (snd retried)) = 1 \<and> newest (fst (snd retried)) = 1 \<and>
   numinuse (fst (snd retried)) = 4 \<and>
   log_inv half_state half_partition \<and> numinuse half_state = 2 \<and>
   fst half_reopened = Returned FLASHLOG_ERR_OK \<and>
   numinuse (fst (snd half_reopened)) = numslots (fst (snd half_reopened)) \<and>
   oldest (fst (snd half_reopened)) = 0 \<and> newest (fst (snd half_reopened)) = 1 \<and>
   entries_per_unit (fst (snd half_reopened)) = 2 \<and>
   fst half_reopened_add = Returned FLASHLOG_ERR_OK \<and>
   seqno_at (snd (snd half_reopened_add)) 2044 0 = 1 \<and>
   seqno_at (snd (snd half_reopened_add)) 2044 1 = 2 \<and>
   seqno_at (snd (snd half_reopened_add)) 2044 2 = 3 \<and>
   seqno_at (snd (snd half_reopened_add)) 2044 3 = UINT32_MAX \<and>
   oldest (fst (snd half_reopened_add)) = 2 \<and> newest (fst (snd half_reopened_add)) = 2 \<and>
   numinuse (fst (snd half_reopened_add)) = 3"
proof -
  note inv = page_example_inv and f = page_example_fields and sq = page_example_seqno
  note iv = log_inv_parts[OF inv]
  let ?fp = "failing page_partition"
  have geo: "geometry_ok page_state ?fp"
    using iv(1) by (simp add: geometry_ok_def failing_def)
  have dr: "driver_result ?fp = (- 1, page_partition)"
    by (simp add: driver_result_def failing_def page_partition_def)
  have ef: "erase_failed = (Returned FLASHLOG_ERR_ERASEERR,
      page_state\<lparr>newest := 0, partition_err := - 1\<rparr>, page_partition)"
    unfolding erase_failed_def
    using add_erase_fails[OF geo f(7), unfolded dr] by (simp add: f ESP_OK_def)
  define s1 where "s1 = page_state\<lparr>newest := 0, partition_err := - 1\<rparr>"
  have s1: "datasize s1 = 4092" "numslots s1 = 4" "numinuse s1 = 4" "oldest s1 = 0"
    "newest s1 = 0" "highest_seqno s1 = 4" "entrybuf s1 = Some (\<lambda>_. 0)"
    by (simp_all add: s1_def f)
  have k1: "entries_per_unit s1 = 1" by (simp add: entries_per_unit_def s1 ENTRY_HDR_SIZE_def)
  have geo1: "geometry_ok s1 page_partition"
    using iv(1) by (simp add: geometry_ok_def s1 f)
  have nf: "pending page_partition = []" by (simp add: page_partition_def)
  have rt: "retried = flashlog_add s1 page_partition" by (simp add: retried_def ef s1_def)
  note ad = add_no_faults[OF geo1 s1(7) nf, folded rt]
  have ok: "fst retried = Returned FLASHLOG_ERR_OK" by (rule ad(1)) (simp_all add: s1)
  have s2: "oldest (fst (snd retried)) = 1" "newest (fst (snd retried)) = 1"
    "numinuse (fst (snd retried)) = 4"
    by (subst ad(2); simp add: s1 k1)+
  have q: "seqno_at (snd (snd retried)) 4092 i =
           (if i = 1 then 5 else seqno_at page_partition 4092 i)" for i
    using add_no_faults_slots[OF geo1 s1(7) nf, of i, folded rt] by (simp add: s1 k1)
  have v: "seqno_at (snd (snd retried)) 4092 0 = 1" "seqno_at (snd (snd retried)) 4092 1 = 5"
    "seqno_at (snd (snd retried)) 4092 2 = 3" "seqno_at (snd (snd retried)) 4092 3 = 4"
    by (simp_all add: q sq)
  have e: "fst erase_failed = Returned FLASHLOG_ERR_ERASEERR"
    "flash (snd (snd erase_failed)) = flash page_partition"
    "entrybuf (fst (snd erase_failed)) = Some (\<lambda>_. 0)"
    "numinuse (fst (snd erase_failed)) = numslots (fst (snd erase_failed))"
    "oldest (fst (snd erase_failed)) = 0" "newest (fst (snd erase_failed)) = 0"
    "entries_per_unit (fst (snd erase_failed)) = 1"
    using k1 by (simp_all add: ef f s1_def)
  have full: "numinuse page_state = numslots page_state" by (simp add: f)
  note inv' = half_example_inv and hi = half_example_header
  note h = half_example_fields and hq = half_example_seqno
  note iv' = log_inv_parts[OF inv']
  have nf': "pending half_partition = []" by (simp add: half_partition_def)
  define r where "r = fst (snd half_reopened)"
  define p' where "p' = the (snd (snd half_reopened))"
  have ok': "fst half_reopened = Returned FLASHLOG_ERR_OK"
    unfolding half_reopened_def using iv'(1) hi nf' by (rule reopen_returns_ok)
  then have O: "flashlog_open (Some half_partition) (datasize half_state) (Some (\<lambda>_. 0))
       (snd (flashlog_close half_state))
       = (Returned FLASHLOG_ERR_OK, fst (snd half_reopened), snd (snd half_reopened))"
    unfolding half_reopened_def by (metis prod.collapse)
  from reopen_fields(1)[OF inv' hi O] have "snd (snd half_reopened) = Some p'"
    unfolding p'_def by auto
  with O have op: "flashlog_open (Some half_partition) (datasize half_state) (Some (\<lambda>_. 0))
       (snd (flashlog_close half_state)) = (Returned FLASHLOG_ERR_OK, r, Some p')"
    by (simp add: r_def)
  note rf = reopen_fields[OF inv' hi op]
  from rf(1) have fq: "flash p' = flash half_partition" "psize p' = psize half_partition"
    by simp_all
  from reopen_pending[OF hi nf' op] have pq: "pending p' = []" by simp
  have "numinuse r = numinuse (snd (flashlog_close half_state)) + numinuse half_state"
    by (rule rf(9)) (simp_all add: flashlog_close_def h)
  then have n4: "numinuse r = 4" by (simp add: flashlog_close_def h)
  have rfs: "datasize r = 2044" "numslots r = 4" "oldest r = 0" "newest r = 1"
    "highest_seqno r = 2" "entrybuf r = Some (\<lambda>_. 0)"
    using rf by (simp_all add: h)
  have k2: "entries_per_unit r = 2" by (simp add: entries_per_unit_def rfs ENTRY_HDR_SIZE_def)
  have geo2: "geometry_ok r p'" using iv'(1) fq by (simp add: geometry_ok_def rfs h)
  have ra: "half_reopened_add = flashlog_add r p'"
    by (simp add: half_reopened_add_def r_def p'_def)
  note ad' = add_no_faults[OF geo2 rfs(6) pq, folded ra]
  have oka: "fst half_reopened_add = Returned FLASHLOG_ERR_OK"
    by (rule ad'(1)) (simp_all add: rfs n4)
  have s3: "oldest (fst (snd half_reopened_add)) = 2" "newest (fst (snd half_reopened_add)) = 2"
    "numinuse (fst (snd half_reopened_add)) = 3"
    by (subst ad'(2); simp add: rfs n4 k2)+
  have sqp: "seqno_at p' d i = seqno_at half_partition d i" for d i
    by (simp add: seqno_at_def fq)
  have q': "seqno_at (snd (snd half_reopened_add)) 2044 i =
           (if i = 2 then 3 else if i = 3 then - 1 else seqno_at half_partition 2044 i)" for i
    using add_no_faults_slots[OF geo2 rfs(6) pq, of i, folded ra]
    by (auto simp: rfs n4 k2 sqp)
  have v': "seqno_at (snd (snd half_reopened_add)) 2044 0 = 1"
    "seqno_at (snd (snd half_reopened_add)) 2044 1 = 2"
    "seqno_at (snd (snd half_reopened_add)) 2044 2 = 3"
    "seqno_at (snd (snd half_reopened_add)) 2044 3 = UINT32_MAX"
    by (simp_all add: q' hq UINT32_MAX_def)
  have e': "numinuse (fst (snd half_reopened)) = numslots (fst (snd half_reopened))"
    "oldest (fst (snd half_reopened)) = 0" "newest (fst (snd half_reopened)) = 1"
    "entries_per_unit (fst (snd half_reopened)) = 2"
    using n4 rfs k2 by (simp_all add: r_def)
  have m2: "numinuse half_state = 2" by (simp add: h)
  show ?thesis
    using inv full e ok v s2 inv' m2 ok' e' oka v' s3
    by (intro conjI) assumption+
qed

lemma cycled_example_seqno:
  "seqno_at cycled_partition 2044 0 = 5" "seqno_at cycled_partition 2044 1 = 6"
  "seqno_at cycled_partition 2044 2 = 3" "seqno_at cycled_partition 2044 3 = 4"
  by (simp_all add: seqno_at_def cycled_partition_def get_le32_def FLASHLOG_SLOT0_def
      ENTRY_HDR_SIZE_def)

lemma cycled_example_fields:
  "datasize cycled_state = 2044" "numslots cycled_state = 4" "numinuse cycled_state = 4"
  "oldest cycled_state = 2" "newest cycled_state = 1" "highest_seqno cycled_state = 6"
  "entrybuf cycled_state = Some (\<lambda>_. 0)"
  by (simp_all add: cycled_state_def cursor_state_def zero_state_def)

lemma cycled_example_inv: "log_inv cycled_state cycled_partition"
proof -
  note sq = cycled_example_seqno and f = cycled_example_fields
  have geo: "geometry_ok cycled_state cycled_partition"
    by (simp add: geometry_ok_def f cycled_partition_def ENTRY_HDR_SIZE_def FLASHLOG_SLOT0_def)
  have arc: "arc_ok cycled_state" by (simp add: arc_ok_def f)
  have i1: "I1 cycled_state cycled_partition"
    by (simp add: I1_def arc f int_range_4 sq on_arc_def UINT32_MAX_def)
  have i3: "I3 cycled_state cycled_partition"
  proof (rule I3_intro[OF arc])
    fix j1 j2 :: int
    assume j: "0 \<le> j1" "j1 < j2" "j2 < numinuse cycled_state"
    then have "j1 = 0 \<or> j1 = 1 \<or> j1 = 2" "j2 = 1 \<or> j2 = 2 \<or> j2 = 3"
      unfolding f by arith+
    then show "seqno_at cycled_partition (datasize cycled_state)
                 ((oldest cycled_state + j1) mod numslots cycled_state)
               < seqno_at cycled_partition (datasize cycled_state)
                 ((oldest cycled_state + j2) mod numslots cycled_state)"
      using j(2) sq by (auto simp: f)
  qed
  show ?thesis
    unfolding log_inv_def
    using geo i1 i3
    by (simp add: f int_range_4 sq entries_per_unit_def ENTRY_HDR_SIZE_def)
qed

lemma cycled_example_header: "header_intact cycled_state cycled_partition"
proof -
  let ?h = "\<lparr>hdr_id = FLASHLOG_ID, hdr_datasize = 2044, hdr_numslots = 4\<rparr>"
  have "hdr_of_bytes (flash cycled_partition) = hdr_of_bytes (bytes_of_hdr ?h)"
    by (rule hdr_of_bytes_cong) (simp add: cycled_partition_def)
  also have "\<dots> = ?h" by (rule hdr_roundtrip) simp_all
  finally show ?thesis
    by (simp add: header_intact_def cycled_example_fields)
qed

text \<open>
  C5. A log that satisfies the invariant of opened logs and is more than half full is
  closed and opened again with the same state structure, on a driver that does not fail.
  The open returns \<open>FLASHLOG_ERR_OK\<close> with \<open>numinuse\<close> twice the number of entries, above
  \<open>numslots\<close>, and I3 holds. The next \<open>flashlog_add\<close> returns \<open>FLASHLOG_ERR_OK\<close> too, but
  since \<open>numinuse\<close> is not \<open>numslots\<close> it erases nothing: \<open>oldest\<close> stays, and the entry is
  written onto the slot after \<open>newest\<close> as it is. What that slot holds afterwards is the
  bitwise AND of what it held and \<open>highest_seqno + 1\<close>: on a full log not the sequence
  number \<open>highest_seqno + 1\<close>.
\<close>
theorem add_after_reopen_overwrites:
  assumes inv: "log_inv s p" and hi: "header_intact s p" and nf: "pending p = []"
    and more: "numslots s < 2 * numinuse s"
    and op: "flashlog_open (Some p) (datasize s) (Some buf) (snd (flashlog_close s))
             = (Returned FLASHLOG_ERR_OK, r, Some q)"
  shows "numinuse r = 2 * numinuse s \<and> I3 r q \<and>
    fst (flashlog_add r q) = Returned FLASHLOG_ERR_OK \<and>
    oldest (fst (snd (flashlog_add r q))) = oldest s \<and>
    newest (fst (snd (flashlog_add r q))) = (newest s + 1) mod numslots s \<and>
    highest_seqno (fst (snd (flashlog_add r q))) = highest_seqno s + 1 \<and>
    (\<forall>i. seqno_at (snd (snd (flashlog_add r q))) (datasize s) i =
         (if i = (newest s + 1) mod numslots s
          then seqno_at p (datasize s) i AND (highest_seqno s + 1)
          else seqno_at p (datasize s) i))"
proof -
  note iv = log_inv_parts[OF inv]
  note a = arc_ok_parts[OF iv(2)]
  note g = geometry_facts[OF iv(1)]
  note rf = reopen_fields[OF inv hi op]
  from rf(1) have q: "flash q = flash p" "psize q = psize p" by simp_all
  from reopen_pending[OF hi nf op] have pq: "pending q = []" by simp
  have ps: "psize p < 2 ^ 31" using iv(1) by (simp add: geometry_ok_def)
  have "numslots s * 4 \<le> numslots s * (datasize s + 4)"
    using g(1,7) by (intro mult_left_mono) auto
  then have nb: "numslots s < 2 ^ 30" using g(8) ps by simp
  have c1: "numinuse r = 2 * numinuse s"
    using rf(9) a(1,2) nb by (simp add: flashlog_close_def)
  from reopen_I3[OF inv hi op] have c2: "I3 r q" by simp
  have geo: "geometry_ok r q" using iv(1) rf(2,3) q by (simp add: geometry_ok_def)
  have buf: "entrybuf r = Some buf" using rf(8) .
  have nw: "0 \<le> newest r" "newest r < numslots r" using a(5,6) rf(3,5) by simp_all
  have ol: "0 \<le> oldest r" "oldest r < numslots r" using a(3,4) rf(3,4) by simp_all
  have ni: "0 \<le> numinuse r" "numinuse r < 2 ^ 31 - 1" using c1 a(1,2) nb by simp_all
  have pos: "0 < numinuse r" "numinuse r \<noteq> numslots r" "numinuse r \<noteq> numslots s"
    using c1 more g(7) rf(3) by simp_all
  note ad = add_no_faults[OF geo buf pq nw ol ni]
  note c3 = ad(1)
  have c4: "oldest (fst (snd (flashlog_add r q))) = oldest s"
    by (subst ad(2)) (simp add: pos rf)
  have c5: "newest (fst (snd (flashlog_add r q))) = (newest s + 1) mod numslots s"
    by (subst ad(2)) (simp add: pos rf)
  have c6: "highest_seqno (fst (snd (flashlog_add r q))) = highest_seqno s + 1"
    by (subst ad(2)) (simp add: pos rf)
  have sq: "seqno_at q d i = seqno_at p d i" for d i by (simp add: seqno_at_def q)
  have c7: "\<forall>i. seqno_at (snd (snd (flashlog_add r q))) (datasize s) i =
         (if i = (newest s + 1) mod numslots s
          then seqno_at p (datasize s) i AND (highest_seqno s + 1)
          else seqno_at p (datasize s) i)"
    using add_no_faults_slots[OF geo buf pq nw ol ni] pos by (simp add: rf sq)
  show ?thesis by (intro conjI) (fact c1 c2 c3 c4 c5 c6 c7)+
qed

theorem add_after_reopen_overwrites_witness:
  "log_inv cycled_state cycled_partition \<and> header_intact cycled_state cycled_partition \<and>
   pending cycled_partition = [] \<and> numslots cycled_state < 2 * numinuse cycled_state \<and>
   I3 cycled_state cycled_partition \<and> highest_seqno cycled_state = 6 \<and>
   fst reopened_log = Returned FLASHLOG_ERR_OK \<and>
   numinuse (fst (snd reopened_log)) = 8 \<and> numslots (fst (snd reopened_log)) = 4 \<and>
   I3 (fst (snd reopened_log)) (the (snd (snd reopened_log))) \<and>
   fst reopened_add1 = Returned FLASHLOG_ERR_OK \<and>
   highest_seqno (fst (snd reopened_add1)) = 7 \<and> newest (fst (snd reopened_add1)) = 2 \<and>
   seqno_at (snd (snd reopened_add1)) 2044 2 = 3 \<and>
   fst reopened_add2 = Returned FLASHLOG_ERR_OK \<and>
   highest_seqno (fst (snd reopened_add2)) = 8 \<and> newest (fst (snd reopened_add2)) = 3 \<and>
   oldest (fst (snd reopened_add2)) = 2 \<and>
   seqno_at (snd (snd reopened_add2)) 2044 0 = 5 \<and>
   seqno_at (snd (snd reopened_add2)) 2044 1 = 6 \<and>
   seqno_at (snd (snd reopened_add2)) 2044 2 = 3 \<and>
   seqno_at (snd (snd reopened_add2)) 2044 3 = 0 \<and>
   \<not> I3 (fst (snd reopened_add2)) (snd (snd reopened_add2))"
proof -
  note inv = cycled_example_inv and hi = cycled_example_header
  note f = cycled_example_fields and sq = cycled_example_seqno
  note iv = log_inv_parts[OF inv]
  have nf: "pending cycled_partition = []" by (simp add: cycled_partition_def)
  have more: "numslots cycled_state < 2 * numinuse cycled_state" by (simp add: f)
  define r where "r = fst (snd reopened_log)"
  define q where "q = the (snd (snd reopened_log))"
  have ok: "fst reopened_log = Returned FLASHLOG_ERR_OK"
    unfolding reopened_log_def using iv(1) hi nf by (rule reopen_returns_ok)
  then have O: "flashlog_open (Some cycled_partition) (datasize cycled_state) (Some (\<lambda>_. 0))
       (snd (flashlog_close cycled_state))
       = (Returned FLASHLOG_ERR_OK, fst (snd reopened_log), snd (snd reopened_log))"
    unfolding reopened_log_def by (metis prod.collapse)
  from reopen_fields(1)[OF inv hi O] have "snd (snd reopened_log) = Some q"
    unfolding q_def by auto
  with O have op: "flashlog_open (Some cycled_partition) (datasize cycled_state) (Some (\<lambda>_. 0))
       (snd (flashlog_close cycled_state)) = (Returned FLASHLOG_ERR_OK, r, Some q)"
    by (simp add: r_def)
  note t = add_after_reopen_overwrites[OF inv hi nf more op]
  have a1: "reopened_add1 = flashlog_add r q" by (simp add: reopened_add1_def r_def q_def)
  note rf = reopen_fields[OF inv hi op]
  from rf(1) have fq: "flash q = flash cycled_partition" "psize q = psize cycled_partition"
    by simp_all
  from reopen_pending[OF hi nf op] have pq: "pending q = []" by simp
  from t have n8: "numinuse r = 8" by (simp add: f)
  have rfs: "datasize r = 2044" "numslots r = 4" "oldest r = 2" "newest r = 1"
    "highest_seqno r = 6" "entrybuf r = Some (\<lambda>_. 0)"
    using rf by (simp_all add: f)
  from t have i3r: "I3 r q" by blast
  have geo1: "geometry_ok r q" using iv(1) fq by (simp add: geometry_ok_def rfs f)
  note ad1 = add_no_faults[OF geo1 rfs(6) pq, folded a1]
  define s1 where "s1 = fst (snd reopened_add1)"
  define p1 where "p1 = snd (snd reopened_add1)"
  have ok1: "fst reopened_add1 = Returned FLASHLOG_ERR_OK"
    by (rule ad1(1)) (simp_all add: rfs n8)
  have s1: "datasize s1 = 2044" "numslots s1 = 4" "oldest s1 = 2" "newest s1 = 2"
    "highest_seqno s1 = 7" "numinuse s1 = 9" "entrybuf s1 = Some (put_le32 (\<lambda>_. 0) 0 7)"
    unfolding s1_def by (subst ad1(2); simp add: rfs n8)+
  have pp1: "psize p1 = psize q" "pending p1 = []"
    unfolding p1_def by (rule ad1(3) ad1(4); simp add: rfs n8)+
  have q1: "seqno_at p1 2044 i = (if i = 2 then 3 else seqno_at cycled_partition 2044 i)" for i
  proof -
    from t have "seqno_at (snd (snd (flashlog_add r q))) (datasize cycled_state) i =
         (if i = (newest cycled_state + 1) mod numslots cycled_state
          then seqno_at cycled_partition (datasize cycled_state) i
               AND (highest_seqno cycled_state + 1)
          else seqno_at cycled_partition (datasize cycled_state) i)" by blast
    then show ?thesis by (simp add: p1_def a1 f sq)
  qed
  have geo2: "geometry_ok s1 p1" using geo1 by (simp add: geometry_ok_def s1 rfs pp1)
  have a2: "reopened_add2 = flashlog_add s1 p1" by (simp add: reopened_add2_def s1_def p1_def)
  note ad2 = add_no_faults[OF geo2 s1(7) pp1(2), folded a2]
  define s2 where "s2 = fst (snd reopened_add2)"
  define p2 where "p2 = snd (snd reopened_add2)"
  have ok2: "fst reopened_add2 = Returned FLASHLOG_ERR_OK"
    by (rule ad2(1)) (simp_all add: s1)
  have s2: "datasize s2 = 2044" "numslots s2 = 4" "oldest s2 = 2" "newest s2 = 3"
    "highest_seqno s2 = 8" "numinuse s2 = 10"
    unfolding s2_def by (subst ad2(2); simp add: s1)+
  have q2: "seqno_at p2 2044 i = (if i = 3 then 0 else seqno_at p1 2044 i)" for i
    using add_no_faults_slots[OF geo2 s1(7) pp1(2), of i, folded a2]
    by (simp add: p2_def s1 q1 sq)
  have n3: "\<not> I3 s2 p2"
  proof
    assume "I3 s2 p2"
    then have "\<forall>j2\<in>{0..<2}. \<forall>j1\<in>{0..<j2}.
        seqno_at p2 2044 ((2 + j1) mod 4) < seqno_at p2 2044 ((2 + j2) mod 4)"
      by (simp add: I3_def arc_length_def arc_slot_def s2)
    then have "\<forall>j1\<in>{0..<1}. seqno_at p2 2044 ((2 + j1) mod 4) < seqno_at p2 2044 ((2 + 1) mod 4)"
      by (rule bspec) simp
    then have "seqno_at p2 2044 ((2 + 0) mod 4) < seqno_at p2 2044 ((2 + 1) mod 4)"
      by (rule bspec) simp
    then show False by (simp add: q2 q1 sq)
  qed
  have v: "seqno_at p2 2044 0 = 5" "seqno_at p2 2044 1 = 6" "seqno_at p2 2044 2 = 3"
    "seqno_at p2 2044 3 = 0" "seqno_at p1 2044 2 = 3"
    by (simp_all add: q2 q1 sq)
  have h6: "highest_seqno cycled_state = 6" by (simp add: f)
  show ?thesis
    using inv hi nf more iv(4) h6 ok n8[unfolded r_def] rfs(2)[unfolded r_def]
      i3r[unfolded r_def q_def] ok1 s1(5,4)[unfolded s1_def] v(5)[unfolded p1_def]
      ok2 s2(5,4,3)[unfolded s2_def] v(1-4)[unfolded p2_def] n3[unfolded s2_def p2_def]
    by (intro conjI) assumption+
qed

section \<open>The size check at the end of the \<open>int\<close> range\<close>

text \<open>\<open>datasize = 2147483644\<close> passes the size check as well: the entry size wraps around
  to \<open>- 2147483648\<close>, which is not above 4096 and has no bit in common with its predecessor
  \<open>2147483647\<close>.\<close>
lemma open_accepts_entry_size_overflow:
  "fst (flashlog_open (Some p) 2147483644 heap s) \<noteq> Returned FLASHLOG_ERR_BADSIZE"
proof -
  have "(- 2147483648 :: int) AND 2147483647 = 0"
    by (rule bit_eqI) (auto simp: bit_simps)
  then show ?thesis  
    by (simp add: open_badsize_iff_check entry_length_def ENTRY_HDR_SIZE_def u32_def s32_def)
qed

end
